(* ===== verification/Prelude.thy ===== *)
theory Prelude
  imports Main "HOL-Library.Word" "HOL-Library.Sublist" "HOL-Library.List_Lexorder"
    "HOL-Library.Char_ord"
begin

unbundle bit_operations_syntax

section \<open>Prelude: machine types, byte streams and decimal text\<close>

text \<open>
  What every component shares: names for Go's fixed-width types, 64-bit wrap-around and
  truncated division on \<open>int\<close>, big-endian fields (\<open>encoding/binary\<close>), byte
  streams with \<open>io.ReadFull\<close> and writers that may break after some bytes, instants of
  time, and the decimal conversions of \<open>strconv\<close>. The collection \<open>go_simps\<close>
  holds the definitions that only rename library notions; \<open>res_iff\<close> the facts that turn
  an equation between results into a condition.
\<close>

named_theorems go_simps "definitions that name a notion of the Go library"
named_theorems res_iff "equations that turn a result into the conditions it needs"

type_synonym byte = "8 word"
type_synonym bytes = "8 word list"
type_synonym u32 = "32 word"
type_synonym u64 = "64 word"

subsection \<open>Signed 64-bit integers\<close>

text \<open>Go's \<open>int\<close>, \<open>int64\<close> and \<open>time.Duration\<close> are two's complement
  and 64 bits wide: \<open>i64\<close> wraps an exact result into that range.\<close>

definition i64 :: "int \<Rightarrow> int" where
  "i64 x = (x + 2 ^ 63) mod 2 ^ 64 - 2 ^ 63"

definition in_i64 :: "int \<Rightarrow> bool" where
  "in_i64 x \<longleftrightarrow> - (2 ^ 63) \<le> x \<and> x < 2 ^ 63"

lemma i64_id [simp]: "in_i64 x \<Longrightarrow> i64 x = x"
  by (simp add: i64_def in_i64_def)

lemma in_i64_i64 [simp]: "in_i64 (i64 x)"
  by (auto simp: i64_def in_i64_def pos_mod_sign pos_mod_bound)

lemma sint_i64: "sint (word_of_int x :: u64) = i64 x"
  by (simp add: i64_def sint_sbintrunc' signed_take_bit_eq_take_bit_shift take_bit_eq_mod)

lemma in_i64_sint [simp]: "in_i64 (sint (w :: u64))"
  using sint_i64 [of "sint w"] in_i64_i64 [of "sint w"] by simp

text \<open>Go's \<open>/\<close> and \<open>%\<close> truncate towards zero.\<close>

definition go_div :: "int \<Rightarrow> int \<Rightarrow> int" where
  "go_div a b = sgn a * sgn b * (\<bar>a\<bar> div \<bar>b\<bar>)"

definition go_mod :: "int \<Rightarrow> int \<Rightarrow> int" where
  "go_mod a b = a - b * go_div a b"

lemma go_div_nonneg [simp]: "0 \<le> a \<Longrightarrow> 0 < b \<Longrightarrow> go_div a b = a div b"
  by (cases "a = 0") (simp_all add: go_div_def)

lemma go_mod_nonneg [simp]: "0 \<le> a \<Longrightarrow> 0 < b \<Longrightarrow> go_mod a b = a mod b"
  by (simp add: go_mod_def minus_mult_div_eq_mod)

lemma go_mod_neg: "a < 0 \<Longrightarrow> 0 < b \<Longrightarrow> go_mod a b = - ((- a) mod b)"
  by (simp add: go_mod_def go_div_def minus_mult_div_eq_mod [symmetric] algebra_simps)

subsection \<open>Instants of time\<close>

text \<open>
  An instant is the exact number of nanoseconds since the Unix epoch, so \<open>time.Time\<close>'s
  zero value (1 January of year 1) is a large negative number. \<open>t.UnixNano()\<close> wraps to
  64 bits; \<open>t.Sub(u)\<close> saturates at the limits of \<open>time.Duration\<close>.
\<close>

type_synonym gotime = int

definition zero_time :: gotime where
  "zero_time = - 62135596800000000000"

definition nanosecond :: int where "nanosecond = 1"
definition millisecond :: int where "millisecond = 1000000"
definition second :: int where "second = 1000000000"

lemmas time_units = nanosecond_def millisecond_def second_def

definition time_sub :: "gotime \<Rightarrow> gotime \<Rightarrow> int" where
  "time_sub t u = max (- (2 ^ 63)) (min (2 ^ 63 - 1) (t - u))"

subsection \<open>Big-endian fields\<close>

text \<open>\<open>put_be k n\<close> is the \<open>k\<close>-byte big-endian image of \<open>n\<close> and
  \<open>get_be\<close> reads such a field back.\<close>

fun put_be :: "nat \<Rightarrow> nat \<Rightarrow> bytes" where
  "put_be 0 n = []"
| "put_be (Suc k) n = put_be k (n div 256) @ [of_nat n]"

definition get_be :: "bytes \<Rightarrow> nat" where
  "get_be bs = foldl (\<lambda>a b. a * 256 + unat b) 0 bs"

lemma length_put_be [simp]: "length (put_be k n) = k"
  by (induction k arbitrary: n) auto

lemma get_be_Nil [simp]: "get_be [] = 0"
  by (simp add: get_be_def)

lemma get_be_snoc [simp]: "get_be (bs @ [b]) = get_be bs * 256 + unat b"
  by (simp add: get_be_def)

lemma unat_less: "unat (w :: 'a::len word) < 2 ^ LENGTH('a)"
  by (rule unsigned_less)

lemma byte_lt: "unat (b :: byte) < 256"
  using unat_less [of b] by simp

lemma unat_byte_of_nat: "unat (of_nat n :: byte) = n mod 256"
  by (simp add: unat_of_nat)

lemma get_be_put_be: "get_be (put_be k n) = n mod 256 ^ k"
proof (induction k arbitrary: n)
  case 0
  then show ?case by simp
next
  case (Suc k)
  have "n mod (256 * 256 ^ k) = 256 * (n div 256 mod 256 ^ k) + n mod 256"
    by (rule mod_mult2_eq)
  with Suc show ?case by (simp add: unat_byte_of_nat)
qed

lemma get_be_bound: "get_be bs < 256 ^ length bs"
proof (induction bs rule: rev_induct)
  case Nil
  then show ?case by simp
next
  case (snoc b bs)
  have b: "unat b < 256" by (rule byte_lt)
  from snoc have "Suc (get_be bs) * 256 \<le> 256 ^ length bs * 256"
    by (intro mult_le_mono1) simp
  then have "get_be bs * 256 + 256 \<le> 256 * 256 ^ length bs" by (simp add: mult.commute)
  then show ?case using b by simp
qed

lemma put_be_get_be: "put_be (length bs) (get_be bs) = bs"
proof (induction bs rule: rev_induct)
  case Nil
  then show ?case by simp
next
  case (snoc b bs)
  have b: "unat b < 256" by (rule byte_lt)
  have "(of_nat (get_be bs * 256 + unat b) :: byte) = b"
    by (rule word_unat_eq_iff [THEN iffD2]) (simp only: unat_of_nat, use b in simp)
  with snoc b show ?case by simp
qed

definition put_u16 :: "16 word \<Rightarrow> bytes" where [go_simps]: "put_u16 w = put_be 2 (unat w)"
definition put_u32 :: "u32 \<Rightarrow> bytes" where [go_simps]: "put_u32 w = put_be 4 (unat w)"
definition put_u64 :: "u64 \<Rightarrow> bytes" where [go_simps]: "put_u64 w = put_be 8 (unat w)"
definition get_u32 :: "bytes \<Rightarrow> u32" where [go_simps]: "get_u32 bs = of_nat (get_be bs)"
definition get_u64 :: "bytes \<Rightarrow> u64" where [go_simps]: "get_u64 bs = of_nat (get_be bs)"

lemma length_put [simp]:
  "length (put_u16 a) = 2" "length (put_u32 b) = 4" "length (put_u64 c) = 8"
  by (simp_all add: go_simps)

lemma get_u32_put_u32 [simp]: "get_u32 (put_u32 w) = w"
  using unat_less [of w] by (simp add: go_simps get_be_put_be)

lemma get_u64_put_u64 [simp]: "get_u64 (put_u64 w) = w"
  using unat_less [of w] by (simp add: go_simps get_be_put_be)

lemma put_u32_get_u32: "length bs = 4 \<Longrightarrow> put_u32 (get_u32 bs) = bs"
  using get_be_bound [of bs] put_be_get_be [of bs] by (simp add: go_simps unat_of_nat)

lemma put_u64_get_u64: "length bs = 8 \<Longrightarrow> put_u64 (get_u64 bs) = bs"
  using get_be_bound [of bs] put_be_get_be [of bs] by (simp add: go_simps unat_of_nat)

text \<open>The Go bslice \<open>b[i:j]\<close>.\<close>

definition bslice :: "nat \<Rightarrow> nat \<Rightarrow> 'a list \<Rightarrow> 'a list" where
  "bslice i j xs = take (j - i) (drop i xs)"

lemma length_bslice [simp]: "i \<le> j \<Longrightarrow> j \<le> length xs \<Longrightarrow> length (bslice i j xs) = j - i"
  by (simp add: bslice_def)

lemma drop_chunks: "drop i xs = bslice i (i + k) xs @ drop (i + k) xs"
  by (metis append_take_drop_id bslice_def diff_add_inverse drop_drop add.commute)

lemma bslice_1: "i < length xs \<Longrightarrow> bslice i (Suc i) xs = [xs ! i]"
  by (simp add: bslice_def flip: Cons_nth_drop_Suc)

lemma list_all_take: "list_all P xs \<Longrightarrow> list_all P (take n xs)"
  by (metis append_take_drop_id list_all_append)

lemma int_length_remove1: "x \<in> set xs \<Longrightarrow> int (length (remove1 x xs)) = int (length xs) - 1"
  by (induction xs) auto

subsection \<open>Byte streams\<close>

text \<open>
  A reader is the bytes the peer still delivers and the error that every read after them
  returns: \<open>EOF\<close> when the peer closed the stream, another one for a reset or an expired
  deadline. \<open>read_full n\<close> is \<open>io.ReadFull\<close> into a buffer of \<open>n\<close> bytes.
\<close>

datatype io_err = EOF | UnexpectedEOF | OtherErr nat

record reader =
  rbuf :: bytes
  rend :: io_err

definition read_full :: "nat \<Rightarrow> reader \<Rightarrow> (io_err + bytes) \<times> reader" where
  "read_full n r =
     (if n \<le> length (rbuf r)
      then (Inr (take n (rbuf r)), r\<lparr>rbuf := drop n (rbuf r)\<rparr>)
      else (Inl (if rbuf r \<noteq> [] \<and> rend r = EOF then UnexpectedEOF else rend r), r\<lparr>rbuf := []\<rparr>))"

lemma read_full_ok [res_iff]:
  "read_full n r = (Inr bs, r') \<longleftrightarrow> length bs = n \<and> rbuf r = bs @ rbuf r' \<and> rend r' = rend r"
proof -
  have "n \<le> length (rbuf r) \<and> bs = take n (rbuf r) \<and> rbuf r' = drop n (rbuf r) \<longleftrightarrow>
      length bs = n \<and> rbuf r = bs @ rbuf r'"
    by (auto simp: append_eq_conv_conj)
  then show ?thesis by (cases r; cases r') (auto simp: read_full_def)
qed

lemma read_full_append [simp]:
  "length bs = n \<Longrightarrow>
     read_full n \<lparr>rbuf = bs @ rest, rend = t\<rparr> = (Inr bs, \<lparr>rbuf = rest, rend = t\<rparr>)"
  by (simp add: read_full_def)

lemma read_full_short:
  "length (rbuf r) < n \<Longrightarrow> \<exists>e. read_full n r = (Inl e, r\<lparr>rbuf := []\<rparr>)"
  by (simp add: read_full_def)

text \<open>
  A writer records what it has accepted; \<open>wroom\<close> is how many more bytes the connection
  takes before it breaks (\<open>None\<close>: it never does). A write that does not fit leaves the
  part that did and reports an error.
\<close>

record writer =
  wsent :: bytes
  wroom :: "nat option"

definition write_bytes :: "bytes \<Rightarrow> writer \<Rightarrow> io_err option \<times> writer" where
  "write_bytes bs w =
     (case wroom w of
        None \<Rightarrow> (None, w\<lparr>wsent := wsent w @ bs\<rparr>)
      | Some k \<Rightarrow>
          if length bs \<le> k
          then (None, w\<lparr>wsent := wsent w @ bs, wroom := Some (k - length bs)\<rparr>)
          else (Some (OtherErr 0), w\<lparr>wsent := wsent w @ take k bs, wroom := Some 0\<rparr>))"

lemma write_bytes_sent:
  "\<exists>k. wsent (snd (write_bytes bs w)) = wsent w @ take k bs \<and>
       (fst (write_bytes bs w) = None \<longrightarrow> k = length bs)"
  by (auto simp: write_bytes_def split: option.split)

lemma write_bytes_ok:
  "fst (write_bytes bs w) = None \<Longrightarrow> wsent (snd (write_bytes bs w)) = wsent w @ bs"
  by (auto simp: write_bytes_def split: option.splits if_splits)

lemma write_bytes_healthy [simp]:
  "wroom w = None \<Longrightarrow> write_bytes bs w = (None, w\<lparr>wsent := wsent w @ bs\<rparr>)"
  by (simp add: write_bytes_def)

end
