(* ===== verification/Codec.thy ===== *)
theory Codec
  imports Prelude
begin

section \<open>Message codecs and the loops that read them\<close>

text \<open>
  Three wire formats of the repository (the camera protocol, the IPC protocol and the
  restream protocol) have the same contract: the reader recovers each written message and
  stops exactly behind it, and a message that was cut short is an error, never a message.
  The locale \<open>codec\<close> states that contract; \<open>message_loop\<close> adds a loop that reads
  messages and handles each one until reading fails, which is the shape of every receive loop
  of the program. The lemmas proved here say what such a loop does on a whole stream of
  messages and on any truncation of it.
\<close>

definition stream_of :: "('m \<Rightarrow> bytes) \<Rightarrow> 'm list \<Rightarrow> bytes" where
  "stream_of enc ms = concat (map enc ms)"

lemma stream_of_simps [simp]:
  "stream_of enc [] = []"
  "stream_of enc (m # ms) = enc m @ stream_of enc ms"
  "stream_of enc (ms @ ns) = stream_of enc ms @ stream_of enc ns"
  by (simp_all add: stream_of_def)

locale codec =
  fixes enc :: "'m \<Rightarrow> bytes"
    and dec :: "reader \<Rightarrow> ('e + 'm) \<times> reader"
    and wf :: "'m \<Rightarrow> bool"
  assumes dec_enc: "wf m \<Longrightarrow>
      dec \<lparr>rbuf = enc m @ rest, rend = t\<rparr> = (Inr m, \<lparr>rbuf = rest, rend = t\<rparr>)"
    and dec_short: "wf m \<Longrightarrow> k < length (enc m) \<Longrightarrow>
      \<exists>e r. dec \<lparr>rbuf = take k (enc m), rend = t\<rparr> = (Inl e, r)"
begin

lemma enc_prefix_free:
  assumes "wf m" "wf n" "enc m @ x = enc n @ y"
  shows "m = n \<and> x = y"
  using dec_enc [OF assms(1), of x EOF] dec_enc [OF assms(2), of y EOF]
  unfolding assms(3) by simp

lemma stream_inj:
  assumes "list_all wf ms" "list_all wf ns" "length ms = length ns" "stream_of enc ms = stream_of enc ns"
  shows "ms = ns"
  using assms(3,1,2,4)
proof (induction ms ns rule: list_induct2)
  case Nil
  then show ?case by simp
next
  case (Cons m ms n ns)
  then show ?case using enc_prefix_free [of m n] by auto
qed

end

locale message_loop = codec enc dec wf
  for enc :: "'m \<Rightarrow> bytes" and dec :: "reader \<Rightarrow> ('e + 'm) \<times> reader" and wf :: "'m \<Rightarrow> bool" +
  fixes handle :: "'m \<Rightarrow> 's \<Rightarrow> 's"
    and loop :: "reader \<Rightarrow> 's \<Rightarrow> 's \<times> 'e"
  assumes loop_eq: "loop r s =
      (case dec r of (Inl e, r') \<Rightarrow> (s, e) | (Inr m, r') \<Rightarrow> loop r' (handle m s))"
begin

lemma loop_stream:
  "list_all wf ms \<Longrightarrow>
     loop \<lparr>rbuf = stream_of enc ms @ rest, rend = t\<rparr> s = loop \<lparr>rbuf = rest, rend = t\<rparr> (fold handle ms s)"
proof (induction ms arbitrary: s)
  case Nil
  then show ?case by simp
next
  case (Cons m ms)
  then show ?case
    by (subst loop_eq) (simp add: dec_enc)
qed

lemma loop_cut:
  assumes "list_all wf ms" and "k < length (stream_of enc ms)"
  shows "\<exists>n e. n < length ms
     \<and> loop \<lparr>rbuf = take k (stream_of enc ms), rend = t\<rparr> s = (fold handle (take n ms) s, e)
     \<and> length (stream_of enc (take n ms)) \<le> k \<and> k < length (stream_of enc (take (Suc n) ms))"
  using assms
proof (induction ms arbitrary: k s)
  case Nil
  then show ?case by simp
next
  case (Cons m ms)
  show ?case
  proof (cases "k < length (enc m)")
    case True
    with Cons.prems dec_short [of m k t] obtain e r where
      "dec \<lparr>rbuf = take k (enc m), rend = t\<rparr> = (Inl e, r)" by auto
    then have "loop \<lparr>rbuf = take k (stream_of enc (m # ms)), rend = t\<rparr> s = (s, e)"
      using True by (subst loop_eq) simp
    then show ?thesis using True by (intro exI [of _ 0]) auto
  next
    case False
    let ?k = "k - length (enc m)"
    have "loop \<lparr>rbuf = take k (stream_of enc (m # ms)), rend = t\<rparr> s =
        loop \<lparr>rbuf = take ?k (stream_of enc ms), rend = t\<rparr> (handle m s)"
      using False Cons.prems by (subst loop_eq) (simp add: dec_enc)
    moreover from Cons.prems False have "list_all wf ms" "?k < length (stream_of enc ms)" by auto
    from Cons.IH [OF this, of "handle m s"] obtain n e where
      "n < length ms" "length (stream_of enc (take n ms)) \<le> ?k"
      "loop \<lparr>rbuf = take ?k (stream_of enc ms), rend = t\<rparr> (handle m s) = (fold handle (take n ms) (handle m s), e)"
      "?k < length (stream_of enc (take (Suc n) ms))" by blast
    ultimately show ?thesis using False by (intro exI [of _ "Suc n"] exI [of _ e]) auto
  qed
qed

end

end
