(* ===== verification/Decimal.thy ===== *)
theory Decimal
  imports Prelude
begin

section \<open>Decimal text\<close>

text \<open>
  The decimal conversions of Go's \<open>strconv\<close> that the repository uses:
  \<open>FormatUint(n, 10)\<close> (which \<open>%d\<close> and \<open>Itoa\<close> print too),
  \<open>ParseUint(s, 10, bits)\<close>, and \<open>ParseInt(s, 10, bits)\<close> with \<open>Atoi\<close>.
  The lemmas say that parsing inverts printing and that a parsed text without leading zeros
  is the printed one.
\<close>

datatype num_err = ErrSyntax | ErrRange

definition digit_char :: "nat \<Rightarrow> char" where
  "digit_char d = char_of (48 + d)"

fun format_uint :: "nat \<Rightarrow> string" where
  "format_uint n =
     (if n < 10 then [digit_char n] else format_uint (n div 10) @ [digit_char (n mod 10)])"

declare format_uint.simps [simp del]

definition digit_val :: "char \<Rightarrow> nat option" where
  "digit_val c = (let k = of_char c :: nat in if 48 \<le> k \<and> k \<le> 57 then Some (k - 48) else None)"

fun parse_digits :: "nat \<Rightarrow> nat \<Rightarrow> string \<Rightarrow> num_err + nat" where
  "parse_digits m a [] = Inr a"
| "parse_digits m a (c # cs) =
     (case digit_val c of
        None \<Rightarrow> Inl ErrSyntax
      | Some d \<Rightarrow> if a * 10 + d > m then Inl ErrRange else parse_digits m (a * 10 + d) cs)"

definition parse_uint :: "nat \<Rightarrow> string \<Rightarrow> num_err + nat" where
  "parse_uint bits s = (if s = [] then Inl ErrSyntax else parse_digits (2 ^ bits - 1) 0 s)"

definition parse_int :: "nat \<Rightarrow> string \<Rightarrow> num_err + int" where
  "parse_int bits s =
     (case s of
        [] \<Rightarrow> Inl ErrSyntax
      | c # cs \<Rightarrow>
          let neg = (c = CHR ''-''); body = (if c = CHR ''-'' \<or> c = CHR ''+'' then cs else s)
          in case parse_uint bits body of
               Inl e \<Rightarrow> Inl e
             | Inr un \<Rightarrow>
                 if \<not> neg \<and> un \<ge> 2 ^ (bits - 1) then Inl ErrRange
                 else if neg \<and> un > 2 ^ (bits - 1) then Inl ErrRange
                 else Inr (if neg then - int un else int un))"

definition atoi :: "string \<Rightarrow> num_err + int" where
  "atoi s = parse_int 64 s"

definition itoa :: "int \<Rightarrow> string" where
  "itoa i = (if i < 0 then CHR ''-'' # format_uint (nat (- i)) else format_uint (nat i))"

lemma digit_val_digit_char [simp]: "d < 10 \<Longrightarrow> digit_val (digit_char d) = Some d"
  by (simp add: digit_val_def digit_char_def)

lemma digit_char_digit_val: "digit_val c = Some d \<Longrightarrow> digit_char d = c \<and> d < 10"
  by (auto simp: digit_val_def digit_char_def Let_def split: if_splits)

lemma format_uint_ne [simp]: "format_uint n \<noteq> []"
  by (subst format_uint.simps) simp

lemma parse_digits_snoc:
  "parse_digits m a (s @ [c]) =
     (case parse_digits m a s of Inl e \<Rightarrow> Inl e | Inr b \<Rightarrow> parse_digits m b [c])"
  by (induction s arbitrary: a) (auto split: option.split)

lemma parse_digits_format: "n \<le> m \<Longrightarrow> parse_digits m 0 (format_uint n) = Inr n"
proof (induction n rule: format_uint.induct)
  case (1 n)
  show ?case
  proof (cases "n < 10")
    case True
    with 1 show ?thesis by (subst format_uint.simps) simp
  next
    case False
    with 1 have "parse_digits m 0 (format_uint (n div 10)) = Inr (n div 10)" by simp
    with False 1 show ?thesis
      by (subst format_uint.simps) (simp add: parse_digits_snoc)
  qed
qed

lemma parse_uint_format: "n < 2 ^ bits \<Longrightarrow> parse_uint bits (format_uint n) = Inr n"
  by (simp add: parse_uint_def parse_digits_format)

lemma format_uint_inj:
  assumes "format_uint a = format_uint b"
  shows "a = b"
proof -
  have "(Inr a :: num_err + nat) = Inr b"
    using parse_digits_format [of a "a + b"] parse_digits_format [of b "a + b"]
    unfolding assms by simp
  then show ?thesis by simp
qed

lemma format_uint_snoc: "0 < a \<Longrightarrow> d < 10 \<Longrightarrow> format_uint (a * 10 + d) = format_uint a @ [digit_char d]"
  by (simp add: format_uint.simps [of "a * 10 + d"])

lemma parse_digits_le: "parse_digits m a s = Inr n \<Longrightarrow> a \<le> m \<Longrightarrow> n \<le> m"
  by (induction s arbitrary: a) (auto split: option.splits if_splits)

lemma format_parse_digits:
  "parse_digits m a s = Inr n \<Longrightarrow> 0 < a \<Longrightarrow> format_uint n = format_uint a @ s"
proof (induction s arbitrary: a)
  case Nil
  then show ?case by simp
next
  case (Cons c s)
  from Cons.prems obtain d where d: "digit_val c = Some d" "parse_digits m (a * 10 + d) s = Inr n"
    by (auto split: option.splits if_splits)
  from d(1) have c: "digit_char d = c" "d < 10" by (auto dest: digit_char_digit_val)
  from Cons.IH [OF d(2)] Cons.prems(2) c show ?case by (simp add: format_uint_snoc)
qed

lemma format_parse_uint:
  assumes "parse_uint bits s = Inr n" and "hd s \<noteq> CHR ''0'' \<or> length s = 1"
  shows "format_uint n = s"
proof -
  from assms(1) obtain c cs where s: "s = c # cs" by (cases s) (auto simp: parse_uint_def)
  with assms(1) obtain d where d: "digit_val c = Some d" "parse_digits (2 ^ bits - 1) d cs = Inr n"
    by (auto simp: parse_uint_def split: option.splits if_splits)
  from d(1) have c: "digit_char d = c" "d < 10" by (auto dest: digit_char_digit_val)
  have one: "format_uint d = [c]" using c by (subst format_uint.simps) simp
  show ?thesis
  proof (cases "d = 0")
    case True
    have "digit_char 0 = CHR ''0''" by code_simp
    with c True have "c = CHR ''0''" by simp
    with assms(2) s have "cs = []" by simp
    with d one s show ?thesis by simp
  next
    case False
    with format_parse_digits [OF d(2)] one s show ?thesis by simp
  qed
qed

lemma parse_uint_bound:
  assumes "parse_uint bits s = Inr n"
  shows "n < 2 ^ bits"
proof -
  from assms have "n \<le> 2 ^ bits - 1"
    by (auto simp: parse_uint_def split: if_splits dest: parse_digits_le)
  moreover have "(1::nat) \<le> 2 ^ bits" by simp
  ultimately show ?thesis by linarith
qed

lemma format_uint_canonical: "hd (format_uint n) \<noteq> CHR ''0'' \<or> length (format_uint n) = 1"
proof (induction n rule: format_uint.induct)
  case (1 n)
  have nz: "d < 10 \<Longrightarrow> digit_char d = CHR ''0'' \<Longrightarrow> d = 0" for d
    using digit_val_digit_char [of d] by (simp add: digit_val_def)
  show ?case
  proof (cases "n < 10")
    case True
    then show ?thesis by (subst (1 2) format_uint.simps) simp
  next
    case False
    have "hd (format_uint (n div 10)) \<noteq> CHR ''0''"
    proof (cases "n div 10 < 10")
      case True
      then show ?thesis using False nz [of "n div 10"] by (subst format_uint.simps) auto
    next
      case big: False
      then have "length (format_uint (n div 10)) \<noteq> 1"
        by (subst format_uint.simps) simp
      with 1 False show ?thesis by simp
    qed
    with False show ?thesis by (subst (1 2) format_uint.simps) simp
  qed
qed

lemma format_uint_digits: "c \<in> set (format_uint n) \<Longrightarrow> digit_val c \<noteq> None"
proof (induction n rule: format_uint.induct)
  case (1 n)
  then show ?case by (subst (asm) (2) format_uint.simps) (auto split: if_splits)
qed

lemma itoa_chars: "c \<in> set (itoa i) \<Longrightarrow> c = CHR ''-'' \<or> digit_val c \<noteq> None"
  by (auto simp: itoa_def dest: format_uint_digits split: if_splits)

end
