(* ===== verification/Stream_Proto.thy ===== *)
theory Stream_Proto
  imports Codec Decimal
begin

section \<open>The restream protocol (shared/streamproto/streamproto.go)\<close>

text \<open>
  The 32-byte header and raw JPEG payload that the proxies exchange: \<open>WriteFrame\<close>,
  \<open>ReadFrame\<close>, their error values, and the text form of a camera ID. \<open>spframes\<close> is the
  interpretation of \<open>codec\<close> on these two operations.
\<close>

subsection \<open>Frames and errors\<close>

type_synonym camera_id = u32

record sframe =
  fTimestamp :: gotime
  fSequence :: u64
  fCameraID :: camera_id
  fPayload :: bytes

datatype sp_error = ErrInvalidMagic | ErrInvalidVersion | ErrFrameTooLarge | ErrEmptyPayload
  | ErrStreamIO io_err

definition protoVersion :: byte where "protoVersion = 1"
definition headerSize :: nat where "headerSize = 32"
definition DefaultMaxFrameSize :: nat where "DefaultMaxFrameSize = 10 * 1024 * 1024"
definition magicBytes :: bytes where "magicBytes = [0x4D, 0x4A, 0x50, 0x47]"

lemmas sp_consts = protoVersion_def headerSize_def magicBytes_def

subsection \<open>Writing\<close>

definition frame_header :: "sframe \<Rightarrow> bytes" where
  "frame_header f =
     magicBytes @ [protoVersion, 0] @ put_u16 (of_nat headerSize) @
     put_u64 (word_of_int (fTimestamp f)) @ put_u32 (fCameraID f) @ put_u64 (fSequence f) @
     put_u32 (of_nat (length (fPayload f)))"

definition WriteFrame :: "sframe \<Rightarrow> writer \<Rightarrow> sp_error option \<times> writer" where
  "WriteFrame f w =
     (if fPayload f = [] then (Some ErrEmptyPayload, w)
      else if length (fPayload f) > DefaultMaxFrameSize then (Some ErrFrameTooLarge, w)
      else case write_bytes (frame_header f) w of
             (Some e, w1) \<Rightarrow> (Some (ErrStreamIO e), w1)
           | (None, w1) \<Rightarrow>
               (case write_bytes (fPayload f) w1 of
                  (Some e, w2) \<Rightarrow> (Some (ErrStreamIO e), w2)
                | (None, w2) \<Rightarrow> (None, w2)))"

subsection \<open>Reading\<close>

definition ReadFrame :: "reader \<Rightarrow> (sp_error + sframe) \<times> reader" where
  "ReadFrame r =
     (case read_full headerSize r of
        (Inl e, r1) \<Rightarrow> (Inl (ErrStreamIO e), r1)
      | (Inr hdr, r1) \<Rightarrow>
          if bslice 0 4 hdr \<noteq> magicBytes then (Inl ErrInvalidMagic, r1)
          else if hdr ! 4 \<noteq> protoVersion then (Inl ErrInvalidVersion, r1)
          else
            let tsNs = sint (get_u64 (bslice 8 16 hdr));
                cameraID = get_u32 (bslice 16 20 hdr);
                seq = get_u64 (bslice 20 28 hdr);
                payloadLen = get_u32 (bslice 28 32 hdr)
            in if payloadLen = 0 then (Inl ErrEmptyPayload, r1)
               else if unat payloadLen > DefaultMaxFrameSize then (Inl ErrFrameTooLarge, r1)
               else case read_full (unat payloadLen) r1 of
                      (Inl e, r2) \<Rightarrow> (Inl (ErrStreamIO e), r2)
                    | (Inr payload, r2) \<Rightarrow>
                        (Inr \<lparr>fTimestamp = tsNs, fSequence = seq, fCameraID = cameraID,
                              fPayload = payload\<rparr>, r2))"

subsection \<open>Camera IDs as text\<close>

definition CameraID_String :: "camera_id \<Rightarrow> string" where
  "CameraID_String cid = format_uint (unat cid)"

definition ParseCameraID :: "string \<Rightarrow> num_err + camera_id" where
  "ParseCameraID s = (case parse_uint 32 s of Inl e \<Rightarrow> Inl e | Inr n \<Rightarrow> Inr (of_nat n))"

subsection \<open>The codec contract\<close>

definition frame_ok :: "sframe \<Rightarrow> bool" where
  "frame_ok f \<longleftrightarrow> in_i64 (fTimestamp f) \<and> fPayload f \<noteq> [] \<and> length (fPayload f) \<le> DefaultMaxFrameSize"

definition frame_bytes :: "sframe \<Rightarrow> bytes" where
  "frame_bytes f = frame_header f @ fPayload f"

lemma length_frame_header [simp]: "length (frame_header f) = headerSize"
  by (simp add: frame_header_def sp_consts)

lemma header_fields:
  "bslice 0 4 (frame_header f) = magicBytes"
  "frame_header f ! 4 = protoVersion"
  "bslice 8 16 (frame_header f) = put_u64 (word_of_int (fTimestamp f))"
  "bslice 16 20 (frame_header f) = put_u32 (fCameraID f)"
  "bslice 20 28 (frame_header f) = put_u64 (fSequence f)"
  "bslice 28 32 (frame_header f) = put_u32 (of_nat (length (fPayload f)))"
  by (simp_all add: frame_header_def sp_consts bslice_def)

lemma payload_len:
  "length p \<le> DefaultMaxFrameSize \<Longrightarrow> unat (of_nat (length p) :: u32) = length p"
  by (simp add: unat_of_nat DefaultMaxFrameSize_def)

lemma payload_len_0:
  "length p \<le> DefaultMaxFrameSize \<Longrightarrow> (of_nat (length p) :: u32) = 0 \<longleftrightarrow> p = []"
  using payload_len [of p] by (auto simp: unat_eq_0)

lemma read_header:
  "ReadFrame \<lparr>rbuf = frame_header f @ rest, rend = t\<rparr> =
     (let n = of_nat (length (fPayload f)) :: u32; r1 = \<lparr>rbuf = rest, rend = t\<rparr>
      in if n = 0 then (Inl ErrEmptyPayload, r1)
         else if unat n > DefaultMaxFrameSize then (Inl ErrFrameTooLarge, r1)
         else case read_full (unat n) r1 of
                (Inl e, r2) \<Rightarrow> (Inl (ErrStreamIO e), r2)
              | (Inr p, r2) \<Rightarrow>
                  (Inr \<lparr>fTimestamp = i64 (fTimestamp f), fSequence = fSequence f,
                        fCameraID = fCameraID f, fPayload = p\<rparr>, r2))"
  by (simp add: ReadFrame_def header_fields sint_i64 Let_def)

lemma ReadFrame_frame_bytes:
  "frame_ok f \<Longrightarrow>
     ReadFrame \<lparr>rbuf = frame_bytes f @ rest, rend = t\<rparr> = (Inr f, \<lparr>rbuf = rest, rend = t\<rparr>)"
  using read_header [of f "fPayload f @ rest" t]
  by (simp add: frame_ok_def frame_bytes_def payload_len payload_len_0)

lemma ReadFrame_cut:
  assumes "frame_ok f" and "k < length (frame_bytes f)"
  shows "\<exists>e r. ReadFrame \<lparr>rbuf = take k (frame_bytes f), rend = t\<rparr> = (Inl (ErrStreamIO e), r)"
proof (cases "k < headerSize")
  case True
  then obtain e where "read_full headerSize \<lparr>rbuf = take k (frame_bytes f), rend = t\<rparr> =
      (Inl e, \<lparr>rbuf = [], rend = t\<rparr>)"
    using read_full_short [of "\<lparr>rbuf = take k (frame_bytes f), rend = t\<rparr>" headerSize] assms by auto
  then show ?thesis by (simp add: ReadFrame_def)
next
  case False
  let ?p = "take (k - headerSize) (fPayload f)"
  from False have "take k (frame_bytes f) = frame_header f @ ?p" by (simp add: frame_bytes_def)
  moreover from False assms have "length ?p < length (fPayload f)" by (simp add: frame_bytes_def)
  then have "length (rbuf \<lparr>rbuf = ?p, rend = t\<rparr>) < length (fPayload f)" by simp
  from read_full_short [OF this] obtain e where
    "read_full (length (fPayload f)) \<lparr>rbuf = ?p, rend = t\<rparr> = (Inl e, \<lparr>rbuf = [], rend = t\<rparr>)" by auto
  ultimately show ?thesis using assms(1)
    by (simp add: read_header frame_ok_def payload_len payload_len_0)
qed

interpretation spframes: codec frame_bytes ReadFrame frame_ok
proof unfold_locales
  fix f k t
  assume "frame_ok f" "k < length (frame_bytes f)"
  then show "\<exists>e r. ReadFrame \<lparr>rbuf = take k (frame_bytes f), rend = t\<rparr> = (Inl e, r)"
    using ReadFrame_cut by blast
qed (rule ReadFrame_frame_bytes)

lemma WriteFrame_ok:
  "WriteFrame f w = (None, w') \<Longrightarrow>
     wsent w' = wsent w @ frame_bytes f \<and> fPayload f \<noteq> [] \<and> length (fPayload f) \<le> DefaultMaxFrameSize"
  using write_bytes_ok [of "frame_header f" w]
    write_bytes_ok [of "fPayload f" "snd (write_bytes (frame_header f) w)"]
  by (auto simp: WriteFrame_def frame_bytes_def split: if_splits prod.splits option.splits)

lemma WriteFrame_prefix:
  "\<exists>k. wsent (snd (WriteFrame f w)) = wsent w @ take k (frame_bytes f)"
proof -
  obtain j where j: "wsent (snd (write_bytes (frame_header f) w)) = wsent w @ take j (frame_header f)"
    and jl: "fst (write_bytes (frame_header f) w) = None \<longrightarrow> j = length (frame_header f)"
    using write_bytes_sent by blast
  obtain i where i: "wsent (snd (write_bytes (fPayload f) (snd (write_bytes (frame_header f) w)))) =
      wsent (snd (write_bytes (frame_header f) w)) @ take i (fPayload f)"
    using write_bytes_sent by blast
  have z: "wsent w = wsent w @ take 0 (frame_bytes f)" by simp
  have h: "wsent w @ take j (frame_header f) = wsent w @ take (min j headerSize) (frame_bytes f)"
    by (simp add: frame_bytes_def min_def)
  have p: "wsent w @ frame_header f @ take i (fPayload f) = wsent w @ take (headerSize + i) (frame_bytes f)"
    by (simp add: frame_bytes_def)
  show ?thesis using z h p i j jl
    by (auto simp: WriteFrame_def split: prod.splits option.splits)
qed

lemma ReadFrame_consumes:
  "ReadFrame r = (Inr f, r') \<Longrightarrow>
     length (rbuf r) = headerSize + length (fPayload f) + length (rbuf r') \<and>
     fPayload f \<noteq> [] \<and> length (fPayload f) \<le> DefaultMaxFrameSize \<and> in_i64 (fTimestamp f)"
  by (auto simp: ReadFrame_def res_iff Let_def headerSize_def unat_eq_0
      split: prod.splits sum.splits if_splits)

lemma CameraID_String_inj: "CameraID_String a = CameraID_String b \<Longrightarrow> a = b"
  unfolding CameraID_String_def by (drule format_uint_inj) (rule word_unat_eq_iff [THEN iffD2])

subsection \<open>Properties\<close>

text \<open>C24: what \<open>WriteFrame\<close> puts on a healthy connection, \<open>ReadFrame\<close> reads back as the
  same frame (camera, sequence number, nanosecond timestamp and payload), leaving exactly the
  bytes that follow it, whatever they are and however the stream ends.\<close>

theorem restream_roundtrip:
  assumes "frame_ok f" and "wroom w = None"
  shows "\<exists>w'. WriteFrame f w = (None, w') \<and> wsent w' = wsent w @ frame_bytes f \<and>
           ReadFrame \<lparr>rbuf = frame_bytes f @ rest, rend = t\<rparr> = (Inr f, \<lparr>rbuf = rest, rend = t\<rparr>)"
proof -
  from assms have "\<exists>w'. WriteFrame f w = (None, w')"
    by (simp add: WriteFrame_def frame_ok_def)
  with WriteFrame_ok spframes.dec_enc [OF assms(1)] show ?thesis by blast
qed

definition sample_frame :: sframe where
  "sample_frame = \<lparr>fTimestamp = 1700000000000000000, fSequence = 7, fCameraID = 17,
     fPayload = [0xFF, 0xD8, 0xAA, 0xFF, 0xD9]\<rparr>"

lemma frame_ok_sample: "frame_ok sample_frame"
  by (simp add: frame_ok_def sample_frame_def in_i64_def DefaultMaxFrameSize_def)

theorem restream_roundtrip_witness:
  "\<exists>w'. WriteFrame sample_frame \<lparr>wsent = [1], wroom = None\<rparr> = (None, w') \<and>
     wsent w' = 1 # frame_bytes sample_frame \<and>
     ReadFrame \<lparr>rbuf = frame_bytes sample_frame @ [9], rend = EOF\<rparr> =
       (Inr sample_frame, \<lparr>rbuf = [9], rend = EOF\<rparr>)"
  using restream_roundtrip [OF frame_ok_sample, of "\<lparr>wsent = [1], wroom = None\<rparr>" "[9]" EOF] by simp

text \<open>C26: a frame that \<open>ReadFrame\<close> accepts from an arbitrary byte stream, hostile bytes included,
  is within the protocol's limits, consumes exactly its header and payload, and is what a conforming
  writer would have sent: its own encoding differs from the consumed bytes at most in the flags
  byte and the two header-length bytes, which the reader ignores.\<close>

theorem ReadFrame_sound:
  assumes "ReadFrame r = (Inr f, r')"
  shows "frame_ok f \<and> rend r' = rend r \<and>
    (\<exists>flags hlen. length hlen = 2 \<and>
       rbuf r = magicBytes @ [protoVersion, flags] @ hlen @ drop 8 (frame_bytes f) @ rbuf r')"
proof -
  from ReadFrame_consumes [OF assms] have ok: "frame_ok f" by (simp add: frame_ok_def)
  from assms obtain h where h: "length h = 32" and m: "take 4 h = magicBytes" "h ! 4 = protoVersion"
    and f: "fTimestamp f = sint (get_u64 (bslice 8 16 h))" "fCameraID f = get_u32 (bslice 16 20 h)"
      "fSequence f = get_u64 (bslice 20 28 h)"
    and n: "length (fPayload f) = unat (get_u32 (bslice 28 32 h))"
    and r: "rbuf r = h @ fPayload f @ rbuf r'" "rend r' = rend r"
    by (auto simp: ReadFrame_def res_iff Let_def headerSize_def bslice_def [of 0]
        split: prod.splits sum.splits if_splits)
  have "drop 8 (frame_bytes f) = drop 8 h @ fPayload f"
    using h drop_chunks [of 8 h 8] drop_chunks [of 16 h 4] drop_chunks [of 20 h 8] drop_chunks [of 28 h 4]
    by (simp add: frame_bytes_def frame_header_def sp_consts f n put_u64_get_u64 put_u32_get_u32)
  moreover have "h = magicBytes @ [protoVersion, h ! 5] @ bslice 6 8 h @ drop 8 h"
    using h drop_chunks [of 4 h 1] drop_chunks [of 5 h 1] drop_chunks [of 6 h 2]
      append_take_drop_id [of 4 h] bslice_1 [of 4 h] bslice_1 [of 5 h] by (simp add: m)
  ultimately show ?thesis using ok r h
    by (intro conjI exI [of _ "h ! 5"] exI [of _ "bslice 6 8 h"]) (auto simp: append_assoc [symmetric] simp del: append_assoc)
qed

theorem ReadFrame_sound_witness:
  "frame_ok sample_frame \<and> (\<exists>flags hlen. length hlen = 2 \<and>
     frame_bytes sample_frame = magicBytes @ [protoVersion, flags] @ hlen @ drop 8 (frame_bytes sample_frame))"
  using ReadFrame_sound [OF ReadFrame_frame_bytes [OF frame_ok_sample, of "[]" EOF]] by simp

text \<open>camera IDs round-trip through text, and their text is canonical: a text without leading
  zeros parses to a camera ID exactly if it is what \<open>String\<close> prints for it, so an ID has one
  registry key and one URL.\<close>

theorem camera_id_text:
  "(ParseCameraID s = Inr cid \<and> (hd s \<noteq> CHR ''0'' \<or> length s = 1)) \<longleftrightarrow> s = CameraID_String cid"
proof
  assume l: "ParseCameraID s = Inr cid \<and> (hd s \<noteq> CHR ''0'' \<or> length s = 1)"
  then obtain n where n: "parse_uint 32 s = Inr n" "cid = of_nat n"
    by (auto simp: ParseCameraID_def split: sum.splits)
  then have "n < 2 ^ 32" by (auto dest!: parse_uint_bound)
  with n l show "s = CameraID_String cid"
    by (simp add: CameraID_String_def unat_of_nat format_parse_uint)
next
  have "unat cid < 2 ^ 32" using unat_less [of cid] by simp
  then show "s = CameraID_String cid \<Longrightarrow> ParseCameraID s = Inr cid \<and> (hd s \<noteq> CHR ''0'' \<or> length s = 1)"
    using format_uint_canonical [of "unat cid"]
    by (simp add: ParseCameraID_def CameraID_String_def parse_uint_format del: unat_of_nat)
qed

theorem camera_id_text_witness:
  "ParseCameraID (CameraID_String 17) = Inr 17 \<and> ParseCameraID (CameraID_String 4294967295) = Inr 4294967295"
  using camera_id_text [of "CameraID_String 17" 17] camera_id_text [of "CameraID_String 4294967295" 4294967295]
  by simp

end
