(* ===== verification/Device_Proto.thy ===== *)
theory Device_Proto
  imports Codec Stream_Proto
begin

section \<open>The camera protocol (tcp-camera-backend/internal/protocol, shared/imageutil)\<close>

text \<open>
  The frames that camera devices send: a 16-byte header, for the variant with a device ID four more
  bytes, and a JPEG payload. The device's firmware is not part of the repository; \<open>dev_bytes\<close> is
  the documented layout that the parser is proved against. The JPEG marker check of
  \<open>imageutil\<close> is here as well.
\<close>

subsection \<open>Headers\<close>

definition MagicLegacy :: u32 where "MagicLegacy = 0x4A504753"
definition MagicWithDevice :: u32 where "MagicWithDevice = 0x4A504744"
definition devHeaderSize :: nat where "devHeaderSize = 16"
definition CameraIDSize :: nat where "CameraIDSize = 4"
definition DefaultCameraID :: camera_id where "DefaultCameraID = 0"

lemmas dev_consts = MagicLegacy_def MagicWithDevice_def devHeaderSize_def CameraIDSize_def

record dev_header =
  hCameraID :: camera_id
  hSequence :: u32
  hPayloadSize :: u32
  hTimestampMs :: u32

datatype dev_error =
    BadHeaderSize nat
  | BadCameraIDSize nat
  | BadFrameMagic u32
  | ReadHeaderIO io_err
  | ReadCameraIDIO io_err

definition ParseLegacyHeader :: "bytes \<Rightarrow> dev_error + dev_header" where
  "ParseLegacyHeader header =
     (if length header \<noteq> devHeaderSize then Inl (BadHeaderSize (length header))
      else
        let magic = get_u32 (bslice 0 4 header)
        in if magic \<noteq> MagicLegacy then Inl (BadFrameMagic magic)
           else Inr \<lparr>hCameraID = DefaultCameraID, hSequence = get_u32 (bslice 4 8 header),
                     hPayloadSize = get_u32 (bslice 8 12 header), hTimestampMs = get_u32 (bslice 12 16 header)\<rparr>)"

definition ParseDeviceHeader :: "bytes \<Rightarrow> bytes \<Rightarrow> dev_error + dev_header" where
  "ParseDeviceHeader header cameraIDBytes =
     (if length header \<noteq> devHeaderSize then Inl (BadHeaderSize (length header))
      else if length cameraIDBytes \<noteq> CameraIDSize then Inl (BadCameraIDSize (length cameraIDBytes))
      else
        let magic = get_u32 (bslice 0 4 header)
        in if magic \<noteq> MagicWithDevice then Inl (BadFrameMagic magic)
           else Inr \<lparr>hCameraID = get_u32 cameraIDBytes, hSequence = get_u32 (bslice 4 8 header),
                     hPayloadSize = get_u32 (bslice 8 12 header), hTimestampMs = get_u32 (bslice 12 16 header)\<rparr>)"

definition ReadHeader :: "reader \<Rightarrow> (dev_error + dev_header) \<times> reader" where
  "ReadHeader r =
     (case read_full devHeaderSize r of
        (Inl e, r1) \<Rightarrow> (Inl (ReadHeaderIO e), r1)
      | (Inr header, r1) \<Rightarrow>
          let magic = get_u32 (bslice 0 4 header)
          in if magic = MagicLegacy then (ParseLegacyHeader header, r1)
             else if magic = MagicWithDevice then
               (case read_full CameraIDSize r1 of
                  (Inl e, r2) \<Rightarrow> (Inl (ReadCameraIDIO e), r2)
                | (Inr cameraIDBytes, r2) \<Rightarrow> (ParseDeviceHeader header cameraIDBytes, r2))
             else (Inl (BadFrameMagic magic), r1))"

definition LooksLikeJPEG :: "bytes \<Rightarrow> bool" where
  "LooksLikeJPEG payload =
     (if length payload < 4 then False
      else payload ! 0 = 0xFF \<and> payload ! 1 = 0xD8 \<and>
           payload ! (length payload - 2) = 0xFF \<and> payload ! (length payload - 1) = 0xD9)"

subsection \<open>The documented layout\<close>

definition fixed_header :: "u32 \<Rightarrow> dev_header \<Rightarrow> bytes" where
  "fixed_header magic h = put_u32 magic @ put_u32 (hSequence h) @ put_u32 (hPayloadSize h) @ put_u32 (hTimestampMs h)"

definition header_bytes :: "bool \<Rightarrow> dev_header \<Rightarrow> bytes" where
  "header_bytes legacy h =
     (if legacy then fixed_header MagicLegacy h
      else fixed_header MagicWithDevice h @ put_u32 (hCameraID h))"

lemma length_fixed_header [simp]: "length (fixed_header m h) = devHeaderSize"
  by (simp add: fixed_header_def dev_consts)

lemma fixed_header_fields [simp]:
  "get_u32 (bslice 0 4 (fixed_header m h)) = m"
  "get_u32 (bslice 4 8 (fixed_header m h)) = hSequence h"
  "get_u32 (bslice 8 12 (fixed_header m h)) = hPayloadSize h"
  "get_u32 (bslice 12 16 (fixed_header m h)) = hTimestampMs h"
  by (simp_all add: fixed_header_def bslice_def)

lemma magic_distinct [simp]: "MagicLegacy \<noteq> MagicWithDevice" "MagicWithDevice \<noteq> MagicLegacy"
  by (simp_all add: dev_consts)

lemma ReadHeader_header_bytes:
  "(legacy \<Longrightarrow> hCameraID h = DefaultCameraID) \<Longrightarrow>
     ReadHeader \<lparr>rbuf = header_bytes legacy h @ rest, rend = t\<rparr> = (Inr h, \<lparr>rbuf = rest, rend = t\<rparr>)"
  by (auto simp: ReadHeader_def header_bytes_def ParseLegacyHeader_def ParseDeviceHeader_def Let_def
      CameraIDSize_def intro: dev_header.equality)

lemma ReadHeader_cut:
  assumes "k < length (header_bytes legacy h)"
  shows "\<exists>e r. ReadHeader \<lparr>rbuf = take k (header_bytes legacy h), rend = t\<rparr> = (Inl e, r)"
proof (cases "k < devHeaderSize")
  case True
  with assms have "length (rbuf \<lparr>rbuf = take k (header_bytes legacy h), rend = t\<rparr>) < devHeaderSize" by simp
  from read_full_short [OF this] show ?thesis by (auto simp: ReadHeader_def)
next
  case False
  with assms have l: "\<not> legacy" by (auto simp: header_bytes_def split: if_splits)
  let ?p = "take (k - devHeaderSize) (put_u32 (hCameraID h))"
  from False l have "take k (header_bytes legacy h) = fixed_header MagicWithDevice h @ ?p"
    by (simp add: header_bytes_def)
  moreover from assms l False have "length (rbuf \<lparr>rbuf = ?p, rend = t\<rparr>) < CameraIDSize"
    by (simp add: header_bytes_def CameraIDSize_def)
  from read_full_short [OF this] obtain e where
    "read_full CameraIDSize \<lparr>rbuf = ?p, rend = t\<rparr> = (Inl e, \<lparr>rbuf = [], rend = t\<rparr>)" by auto
  ultimately show ?thesis by (simp add: ReadHeader_def Let_def)
qed

lemma ReadHeader_consumes:
  "ReadHeader r = (Inr h, r') \<Longrightarrow> devHeaderSize + length (rbuf r') \<le> length (rbuf r)"
  by (auto simp: ReadHeader_def res_iff Let_def split: prod.splits sum.splits if_splits)

lemma ReadHeader_end: "ReadHeader r = (x, r') \<Longrightarrow> rend r' = rend r"
  by (auto simp: ReadHeader_def read_full_def Let_def split: prod.splits sum.splits if_splits)

subsection \<open>Properties\<close>

text \<open>the header reader understands both variants of the documented layout and stops exactly at the
  payload: it recovers every field, takes the camera from the four extra bytes of a device frame, and
  reports the default camera for a legacy frame.\<close>

theorem device_header_roundtrip:
  "ReadHeader \<lparr>rbuf = header_bytes False h @ rest, rend = t\<rparr> = (Inr h, \<lparr>rbuf = rest, rend = t\<rparr>) \<and>
   ReadHeader \<lparr>rbuf = header_bytes True h @ rest, rend = t\<rparr> =
     (Inr (h\<lparr>hCameraID := DefaultCameraID\<rparr>), \<lparr>rbuf = rest, rend = t\<rparr>)"
proof
  show "ReadHeader \<lparr>rbuf = header_bytes False h @ rest, rend = t\<rparr> = (Inr h, \<lparr>rbuf = rest, rend = t\<rparr>)"
    by (rule ReadHeader_header_bytes) simp
  have "header_bytes True h = header_bytes True (h\<lparr>hCameraID := DefaultCameraID\<rparr>)"
    by (simp add: header_bytes_def fixed_header_def)
  with ReadHeader_header_bytes [of True "h\<lparr>hCameraID := DefaultCameraID\<rparr>" rest t]
  show "ReadHeader \<lparr>rbuf = header_bytes True h @ rest, rend = t\<rparr> =
     (Inr (h\<lparr>hCameraID := DefaultCameraID\<rparr>), \<lparr>rbuf = rest, rend = t\<rparr>)" by simp
qed

end
