(* ===== verification/Stream_Tcp.thy ===== *)
theory Stream_Tcp
  imports Stream_Proto
begin

section \<open>The restream transport (shared/streamproto/tcpserver.go, tcpupstream.go)\<close>

text \<open>
  The TCP server that streams frames to downstream proxies and the upstream client that reads
  them. The network, the clock and the scheduler are explicit: an \<open>attempt\<close> says how one
  dial ended and when the context was cancelled, a \<open>serve_event\<close> what the client's
  goroutine sees next, a \<open>srv_event\<close> what the accept loop or a finished client does. The
  server's client limit is an invariant of its step relation; what the upstream hands to its
  callback is related to what the server wrote through the codec.
\<close>

subsection \<open>TCPUpstream: configuration and backoff\<close>

record upstream_cfg =
  MinBackoff :: int
  MaxBackoff :: int

definition NewTCPUpstream :: "upstream_cfg \<Rightarrow> upstream_cfg" where
  "NewTCPUpstream cfg =
     \<lparr>MinBackoff = (if MinBackoff cfg = 0 then 500 * millisecond else MinBackoff cfg),
      MaxBackoff = (if MaxBackoff cfg = 0 then 10 * second else MaxBackoff cfg)\<rparr>"

definition next_backoff :: "upstream_cfg \<Rightarrow> nat \<Rightarrow> int \<Rightarrow> int" where
  "next_backoff cfg frames backoff =
     (if frames > 0 then MinBackoff cfg else min (i64 (backoff * 2)) (MaxBackoff cfg))"

subsection \<open>TCPUpstream.connect\<close>

text \<open>The callback state \<open>'s\<close> is whatever \<open>onFrame\<close> changes; the counter is
  \<open>frames\<close>. The loop ends because every frame read shortens the stream.\<close>

definition upstream_handle :: "(sframe \<Rightarrow> 's \<Rightarrow> 's) option \<Rightarrow> sframe \<Rightarrow> nat \<times> 's \<Rightarrow> nat \<times> 's" where
  "upstream_handle onFrame f st =
     (fst st + 1, case onFrame of None \<Rightarrow> snd st | Some h \<Rightarrow> h f (snd st))"

function upstream_loop ::
  "(sframe \<Rightarrow> 's \<Rightarrow> 's) option \<Rightarrow> reader \<Rightarrow> nat \<times> 's \<Rightarrow> (nat \<times> 's) \<times> sp_error" where
  "upstream_loop onFrame r st =
     (case ReadFrame r of
        (Inl e, r') \<Rightarrow> (st, e)
      | (Inr f, r') \<Rightarrow> upstream_loop onFrame r' (upstream_handle onFrame f st))"
  by pat_completeness auto
termination
  by (relation "measure (\<lambda>(h, r, st). length (rbuf r))")
    (auto dest!: ReadFrame_consumes [OF sym] simp: headerSize_def)

declare upstream_loop.simps [simp del]

datatype dial = DialErr nat | Dialed reader

datatype up_error = UpDial nat | UpRead sp_error

definition upstream_connect ::
  "(sframe \<Rightarrow> 's \<Rightarrow> 's) option \<Rightarrow> dial \<Rightarrow> bool \<Rightarrow> 's \<Rightarrow> (nat \<times> up_error option) \<times> 's" where
  "upstream_connect onFrame d cancelled s =
     (case d of
        DialErr e \<Rightarrow> ((0, Some (UpDial e)), s)
      | Dialed r \<Rightarrow>
          (case upstream_loop onFrame r (0, s) of
             ((frames, s'), e) \<Rightarrow>
               ((frames, if cancelled then None else Some (UpRead e)), s')))"

subsection \<open>TCPUpstream.Run\<close>

text \<open>
  \<open>at_head\<close>, \<open>at_read\<close> and \<open>at_wait\<close> say whether the context is cancelled at the top of
  the loop, by the time \<open>connect\<close> has returned, and during the wait. The result lists the
  waits and the errors logged with them, with the final callback state and whether \<open>Run\<close>
  returned; the list of attempts ends where the observation ends.
\<close>

record attempt =
  at_head :: bool
  at_dial :: dial
  at_read :: bool
  at_wait :: bool

fun upstream_run ::
  "upstream_cfg \<Rightarrow> (sframe \<Rightarrow> 's \<Rightarrow> 's) option \<Rightarrow> ('s \<Rightarrow> 's) option \<Rightarrow> int \<Rightarrow> attempt list \<Rightarrow> 's
     \<Rightarrow> int list \<times> 's \<times> bool" where
  "upstream_run cfg onFrame onOffline backoff [] s = ([], s, False)"
| "upstream_run cfg onFrame onOffline backoff (a # as) s =
     (if at_head a then ([], s, True)
      else
        let ((frames, err), s1) = upstream_connect onFrame (at_dial a) (at_read a) s
        in if at_read a then ([], s1, True)
           else
             let s2 = (case onOffline of None \<Rightarrow> s1 | Some h \<Rightarrow> h s1);
                 backoff' = next_backoff cfg frames backoff
             in if at_wait a then ([backoff'], s2, True)
                else let (ws, s3, done) = upstream_run cfg onFrame onOffline backoff' as s2
                     in (backoff' # ws, s3, done))"

subsection \<open>TCPServer.serve\<close>

text \<open>What one iteration of the client's \<open>select\<close> sees: the context is done, the channel is
  closed, or a frame arrives and the write deadline could or could not be set.\<close>

datatype serve_event = CtxDone | ChanClosed | NextFrame sframe bool

fun serve :: "serve_event list \<Rightarrow> writer \<Rightarrow> bool \<times> writer" where
  "serve [] w = (False, w)"
| "serve (CtxDone # es) w = (True, w)"
| "serve (ChanClosed # es) w = (True, w)"
| "serve (NextFrame f deadline_ok # es) w =
     (if \<not> deadline_ok then (True, w)
      else case WriteFrame f w of
             (Some e, w') \<Rightarrow> (True, w')
           | (None, w') \<Rightarrow> serve es w')"

fun frames_of :: "serve_event list \<Rightarrow> sframe list" where
  "frames_of [] = []"
| "frames_of (NextFrame f d # es) = f # frames_of es"
| "frames_of (e # es) = frames_of es"

subsection \<open>TCPServer.Run\<close>

text \<open>
  The accept loop and the goroutines it starts, as a step relation. \<open>clients\<close> is the atomic
  counter, \<open>serving\<close> the connections whose goroutine has not finished, \<open>rejected\<close> the
  connections closed at the limit, \<open>stopped\<close> what \<open>Run\<close> returned (\<open>Some None\<close> for \<open>nil\<close>).
\<close>

record tcpserver =
  maxClients :: int
  clients :: int
  serving :: "nat list"
  rejected :: "nat list"
  ctxDone :: bool
  stopped :: "nat option option"

definition tcpserver_init :: "int \<Rightarrow> tcpserver" where
  "tcpserver_init m = \<lparr>maxClients = m, clients = 0, serving = [], rejected = [], ctxDone = False, stopped = None\<rparr>"

definition at_limit :: "tcpserver \<Rightarrow> bool" where
  "at_limit s \<longleftrightarrow> maxClients s > 0 \<and> clients s \<ge> maxClients s"

definition accept_client :: "nat \<Rightarrow> tcpserver \<Rightarrow> tcpserver" where
  "accept_client c s =
     (if at_limit s then s\<lparr>rejected := c # rejected s\<rparr>
      else s\<lparr>clients := clients s + 1, serving := c # serving s\<rparr>)"

definition accept_error :: "nat \<Rightarrow> tcpserver \<Rightarrow> tcpserver" where
  "accept_error e s = s\<lparr>stopped := Some (if ctxDone s then None else Some e)\<rparr>"

definition client_done :: "nat \<Rightarrow> tcpserver \<Rightarrow> tcpserver" where
  "client_done c s = s\<lparr>clients := clients s - 1, serving := remove1 c (serving s)\<rparr>"

inductive srv_step :: "tcpserver \<Rightarrow> tcpserver \<Rightarrow> bool" where
  srv_accept: "stopped s = None \<Longrightarrow> c \<notin> set (serving s) \<Longrightarrow> srv_step s (accept_client c s)"
| srv_error: "stopped s = None \<Longrightarrow> srv_step s (accept_error e s)"
| srv_done: "c \<in> set (serving s) \<Longrightarrow> srv_step s (client_done c s)"
| srv_cancel: "srv_step s (s\<lparr>ctxDone := True\<rparr>)"

inductive_cases srv_stepE: "srv_step s t"

inductive srv_reach :: "int \<Rightarrow> tcpserver \<Rightarrow> bool" for m where
  srv_start: "srv_reach m (tcpserver_init m)"
| srv_more: "srv_reach m s \<Longrightarrow> srv_step s t \<Longrightarrow> srv_reach m t"

definition srv_inv :: "int \<Rightarrow> tcpserver \<Rightarrow> bool" where
  "srv_inv m s \<longleftrightarrow> maxClients s = m \<and> clients s = int (length (serving s)) \<and> distinct (serving s) \<and>
     (m > 0 \<longrightarrow> clients s \<le> m) \<and> (rejected s \<noteq> [] \<longrightarrow> m > 0)"

lemmas srv_ops = accept_client_def accept_error_def client_done_def at_limit_def

lemma srv_inv_init: "srv_inv m (tcpserver_init m)"
  by (simp add: srv_inv_def tcpserver_init_def)

lemma srv_inv_step: "srv_step s t \<Longrightarrow> srv_inv m s \<Longrightarrow> srv_inv m t"
  by (erule srv_stepE)
    (auto simp: srv_inv_def srv_ops int_length_remove1)

lemma srv_reach_inv: "srv_reach m s \<Longrightarrow> srv_inv m s"
  by (induction rule: srv_reach.induct) (auto intro: srv_inv_init srv_inv_step)

subsection \<open>The upstream loop over the server's bytes\<close>

interpretation upstream: message_loop frame_bytes ReadFrame frame_ok
    "upstream_handle onFrame" "upstream_loop onFrame" for onFrame
  by unfold_locales (rule upstream_loop.simps)

lemma fold_upstream_handle:
  "fold (upstream_handle (Some h)) fs (n, s) = (n + length fs, fold h fs s)"
  by (induction fs arbitrary: n s) (auto simp: upstream_handle_def)

lemma serve_bytes:
  "\<exists>k. wsent (snd (serve es w)) = wsent w @ take k (stream_of frame_bytes (frames_of es))"
proof (induction es w rule: serve.induct)
  case (4 f d es w)
  show ?case
  proof (cases "d \<and> fst (WriteFrame f w) = None")
    case True
    then obtain w' where w': "WriteFrame f w = (None, w')" by (cases "WriteFrame f w") auto
    with 4 True obtain k where "wsent (snd (serve es w')) = wsent w' @ take k (stream_of frame_bytes (frames_of es))"
      by auto
    with w' True WriteFrame_ok [OF w'] show ?thesis
      by (intro exI [of _ "length (frame_bytes f) + k"]) simp
  next
    case False
    obtain k where "wsent (snd (WriteFrame f w)) = wsent w @ take k (frame_bytes f)"
      using WriteFrame_prefix by blast
    then have "wsent (snd (WriteFrame f w)) = wsent w @ take (min k (length (frame_bytes f))) (stream_of frame_bytes (f # frames_of es))"
      by (simp add: min_def)
    moreover have "wsent w = wsent w @ take 0 (stream_of frame_bytes (f # frames_of es))" by simp
    moreover have "snd (serve (NextFrame f d # es) w) = w \<or>
        snd (serve (NextFrame f d # es) w) = snd (WriteFrame f w)"
      using False by (auto split: prod.splits option.splits)
    ultimately show ?thesis by (metis frames_of.simps(2))
  qed
qed (auto intro: exI [of _ 0])

lemma upstream_loop_cut:
  assumes "list_all frame_ok fs"
  shows "\<exists>n e. n \<le> length fs \<and>
    upstream_loop (Some h) \<lparr>rbuf = take k (stream_of frame_bytes fs), rend = t\<rparr> (0, s) =
      ((n, fold h (take n fs) s), e) \<and> (length (stream_of frame_bytes fs) \<le> k \<longrightarrow> n = length fs)"
proof (cases "k < length (stream_of frame_bytes fs)")
  case True
  from upstream.loop_cut [OF assms True, of "Some h" t "(0, s)"] obtain n e where
    "n < length fs" "upstream_loop (Some h) \<lparr>rbuf = take k (stream_of frame_bytes fs), rend = t\<rparr> (0, s) =
      (fold (upstream_handle (Some h)) (take n fs) (0, s), e)" by blast
  with True show ?thesis by (intro exI [of _ n] exI [of _ e]) (simp add: fold_upstream_handle)
next
  case False
  obtain e r where "ReadFrame \<lparr>rbuf = [], rend = t\<rparr> = (Inl e, r)"
    by (simp add: ReadFrame_def read_full_def headerSize_def)
  then have "upstream_loop (Some h) \<lparr>rbuf = [], rend = t\<rparr> st = (st, e)" for st
    by (simp add: upstream_loop.simps)
  with upstream.loop_stream [OF assms, of "Some h" "[]" t "(0, s)"] False show ?thesis
    by (intro exI [of _ "length fs"] exI [of _ e]) (simp add: fold_upstream_handle)
qed

subsection \<open>Properties\<close>

text \<open>C27: end-to-end delivery. When the frames a client's channel yields are streamed by
  \<open>serve\<close> over a connection that may break after any byte, the upstream on the other side calls
  \<open>onFrame\<close> with a prefix of those frames, in order and unchanged, counts exactly those, and
  reports a read error; if the connection carried everything, it is called with all of them.\<close>

theorem upstream_delivers_prefix:
  assumes "list_all frame_ok (frames_of es)"
  shows "\<exists>n e. n \<le> length (frames_of es) \<and>
    upstream_connect (Some h) (Dialed \<lparr>rbuf = wsent (snd (serve es \<lparr>wsent = [], wroom = room\<rparr>)), rend = t\<rparr>)
      False s = ((n, Some (UpRead e)), fold h (take n (frames_of es)) s) \<and>
    (wsent (snd (serve es \<lparr>wsent = [], wroom = room\<rparr>)) = stream_of frame_bytes (frames_of es) \<longrightarrow>
       n = length (frames_of es))"
proof -
  let ?fs = "frames_of es"
  let ?sent = "wsent (snd (serve es \<lparr>wsent = [], wroom = room\<rparr>))"
  from serve_bytes [of es "\<lparr>wsent = [], wroom = room\<rparr>"] obtain k where
    k: "?sent = take k (stream_of frame_bytes ?fs)" by auto
  from upstream_loop_cut [OF assms, of h k t s] obtain n e where
    "n \<le> length ?fs" "upstream_loop (Some h) \<lparr>rbuf = ?sent, rend = t\<rparr> (0, s) = ((n, fold h (take n ?fs) s), e)"
    "length (stream_of frame_bytes ?fs) \<le> k \<longrightarrow> n = length ?fs" unfolding k by blast
  moreover have "?sent = stream_of frame_bytes ?fs \<longrightarrow> length (stream_of frame_bytes ?fs) \<le> k"
    unfolding k by (metis take_all_iff)
  ultimately show ?thesis by (intro exI [of _ n] exI [of _ e]) (simp add: upstream_connect_def)
qed

definition sample_events :: "serve_event list" where
  "sample_events = [NextFrame sample_frame True, NextFrame sample_frame True, CtxDone]"

lemma sample_events_ok: "list_all frame_ok (frames_of sample_events)"
  by (simp add: sample_events_def frame_ok_sample)

theorem upstream_delivers_prefix_witness:
  "\<exists>n e. n \<le> length (frames_of sample_events) \<and>
    upstream_connect (Some (#)) (Dialed \<lparr>rbuf = wsent (snd (serve sample_events \<lparr>wsent = [], wroom = Some 50\<rparr>)), rend = EOF\<rparr>)
      False [] = ((n, Some (UpRead e)), fold (#) (take n (frames_of sample_events)) [])"
  using upstream_delivers_prefix [OF sample_events_ok, of "(#)" "Some 50" EOF "[]"] by blast


lemma srv_reach_two:
  "srv_reach 1 \<lparr>maxClients = 1, clients = 1, serving = [7], rejected = [8], ctxDone = False, stopped = None\<rparr>"
proof -
  have "srv_reach 1 (accept_client 7 (tcpserver_init 1))"
    by (rule srv_more [OF srv_start srv_accept]) (simp_all add: tcpserver_init_def)
  then have "srv_reach 1 (accept_client 8 (accept_client 7 (tcpserver_init 1)))"
    by (rule srv_more [OF _ srv_accept]) (simp_all add: srv_ops tcpserver_init_def)
  then show ?thesis by (simp add: srv_ops tcpserver_init_def)
qed


text \<open>reconnection backs off exponentially. With sane limits, \<open>k\<close> consecutive connections
  without a frame, starting from a fresh client, wait \<open>MinBackoff * 2 ^ i\<close> capped at
  \<open>MaxBackoff\<close> before attempt \<open>i\<close>, and a connection that delivered a frame resets the wait to
  \<open>MinBackoff\<close>.\<close>

theorem upstream_backoff:
  assumes "0 < MinBackoff cfg" and "MinBackoff cfg \<le> MaxBackoff cfg" and "MaxBackoff cfg < 2 ^ 62"
  shows "(next_backoff cfg 0 ^^ k) (MinBackoff cfg) = min (MinBackoff cfg * 2 ^ k) (MaxBackoff cfg) \<and>
    (n > 0 \<longrightarrow> next_backoff cfg n b = MinBackoff cfg)"
proof (induction k)
  case 0
  with assms show ?case by (simp add: next_backoff_def)
next
  case (Suc k)
  let ?b = "min (MinBackoff cfg * 2 ^ k) (MaxBackoff cfg)"
  from assms have b: "0 < ?b" "?b < 2 ^ 62" by auto
  then have "i64 (?b * 2) = ?b * 2" by (intro i64_id) (auto simp: in_i64_def)
  with Suc b assms(2) show ?case by (auto simp: next_backoff_def min_def)
qed

theorem upstream_backoff_witness:
  "(next_backoff (NewTCPUpstream \<lparr>MinBackoff = 0, MaxBackoff = 0\<rparr>) 0 ^^ 3) (500 * millisecond) = 4 * second"
  using upstream_backoff [of "NewTCPUpstream \<lparr>MinBackoff = 0, MaxBackoff = 0\<rparr>" 3 1]
  by (simp add: NewTCPUpstream_def time_units)

end
