(* ===== verification/Frame_Ipc.thy ===== *)
theory Frame_Ipc
  imports Stream_Tcp
begin

section \<open>The IPC protocol (shared/frameipc/frameipc.go, client.go)\<close>

text \<open>
  The binary messages between the camera backend and its local consumers, and the reconnecting
  client that decodes them and dispatches to a handler. \<open>ipcmsgs\<close> interprets \<open>codec\<close>,
  \<open>ipcclient\<close> interprets \<open>message_loop\<close> on the client's read loop.
\<close>

subsection \<open>Messages\<close>

definition Magic1 :: byte where "Magic1 = 0xAA"
definition Magic2 :: byte where "Magic2 = 0xBB"
definition ipcHeaderSize :: nat where "ipcHeaderSize = 11"
definition KindFrame :: byte where "KindFrame = 0x01"
definition KindOffline :: byte where "KindOffline = 0x02"

lemmas ipc_consts = Magic1_def Magic2_def ipcHeaderSize_def KindFrame_def KindOffline_def

record ipc_msg =
  mKind :: byte
  mCameraID :: camera_id
  mPayload :: bytes

datatype ipc_error = IpcIO io_err | IpcBadMagic byte byte | IpcPayloadIO camera_id io_err

definition ipc_header :: "ipc_msg \<Rightarrow> bytes" where
  "ipc_header m = [Magic1, Magic2, mKind m] @ put_u32 (mCameraID m) @
     put_u32 (of_nat (length (mPayload m)))"

definition ipc_Write :: "ipc_msg \<Rightarrow> writer \<Rightarrow> io_err option \<times> writer" where
  "ipc_Write m w =
     (case write_bytes (ipc_header m) w of
        (Some e, w1) \<Rightarrow> (Some e, w1)
      | (None, w1) \<Rightarrow>
          if mPayload m \<noteq> [] then write_bytes (mPayload m) w1 else (None, w1))"

definition ipc_Read :: "reader \<Rightarrow> (ipc_error + ipc_msg) \<times> reader" where
  "ipc_Read r =
     (case read_full ipcHeaderSize r of
        (Inl e, r1) \<Rightarrow> (Inl (IpcIO e), r1)
      | (Inr hdr, r1) \<Rightarrow>
          if hdr ! 0 \<noteq> Magic1 \<or> hdr ! 1 \<noteq> Magic2 then (Inl (IpcBadMagic (hdr ! 0) (hdr ! 1)), r1)
          else
            let kind = hdr ! 2;
                cameraID = get_u32 (bslice 3 7 hdr);
                payloadSize = get_u32 (bslice 7 11 hdr)
            in if payloadSize > 0
               then case read_full (unat payloadSize) r1 of
                      (Inl e, r2) \<Rightarrow> (Inl (IpcPayloadIO cameraID e), r2)
                    | (Inr payload, r2) \<Rightarrow>
                        (Inr \<lparr>mKind = kind, mCameraID = cameraID, mPayload = payload\<rparr>, r2)
               else (Inr \<lparr>mKind = kind, mCameraID = cameraID, mPayload = []\<rparr>, r1))"

subsection \<open>The codec contract\<close>

definition msg_bytes :: "ipc_msg \<Rightarrow> bytes" where
  "msg_bytes m = ipc_header m @ mPayload m"

definition msg_ok :: "ipc_msg \<Rightarrow> bool" where
  "msg_ok m \<longleftrightarrow> length (mPayload m) < 2 ^ 32"

lemma length_ipc_header [simp]: "length (ipc_header m) = ipcHeaderSize"
  by (simp add: ipc_header_def ipc_consts)

lemma ipc_header_fields:
  "ipc_header m ! 0 = Magic1" "ipc_header m ! Suc 0 = Magic2" "ipc_header m ! 2 = mKind m"
  "bslice 3 7 (ipc_header m) = put_u32 (mCameraID m)"
  "bslice 7 11 (ipc_header m) = put_u32 (of_nat (length (mPayload m)))"
  by (simp_all add: ipc_header_def bslice_def)

lemma msg_len: "msg_ok m \<Longrightarrow> unat (of_nat (length (mPayload m)) :: u32) = length (mPayload m)"
  by (simp add: msg_ok_def unat_of_nat)

lemma msg_len_0: "msg_ok m \<Longrightarrow> (of_nat (length (mPayload m)) :: u32) > 0 \<longleftrightarrow> mPayload m \<noteq> []"
  using msg_len [of m] by (auto simp: word_gt_0 simp flip: unat_eq_0)

lemma ipc_read_header:
  "msg_ok m \<Longrightarrow> ipc_Read \<lparr>rbuf = ipc_header m @ rest, rend = t\<rparr> =
     (if mPayload m \<noteq> []
      then case read_full (length (mPayload m)) \<lparr>rbuf = rest, rend = t\<rparr> of
             (Inl e, r2) \<Rightarrow> (Inl (IpcPayloadIO (mCameraID m) e), r2)
           | (Inr p, r2) \<Rightarrow> (Inr \<lparr>mKind = mKind m, mCameraID = mCameraID m, mPayload = p\<rparr>, r2)
      else (Inr m, \<lparr>rbuf = rest, rend = t\<rparr>))"
  by (auto simp: ipc_Read_def ipc_header_fields msg_len msg_len_0 Let_def intro: ipc_msg.equality)

lemma ipc_Read_msg_bytes:
  "msg_ok m \<Longrightarrow> ipc_Read \<lparr>rbuf = msg_bytes m @ rest, rend = t\<rparr> = (Inr m, \<lparr>rbuf = rest, rend = t\<rparr>)"
  using ipc_read_header [of m "mPayload m @ rest" t] by (simp add: msg_bytes_def)

lemma ipc_Read_cut:
  assumes "msg_ok m" and "k < length (msg_bytes m)"
  shows "\<exists>e r. ipc_Read \<lparr>rbuf = take k (msg_bytes m), rend = t\<rparr> = (Inl e, r)"
proof (cases "k < ipcHeaderSize")
  case True
  with assms have "length (rbuf \<lparr>rbuf = take k (msg_bytes m), rend = t\<rparr>) < ipcHeaderSize" by simp
  from read_full_short [OF this] show ?thesis by (auto simp: ipc_Read_def)
next
  case False
  let ?p = "take (k - ipcHeaderSize) (mPayload m)"
  from False have "take k (msg_bytes m) = ipc_header m @ ?p" by (simp add: msg_bytes_def)
  moreover from False assms have "length (rbuf \<lparr>rbuf = ?p, rend = t\<rparr>) < length (mPayload m)"
    by (simp add: msg_bytes_def)
  from read_full_short [OF this] obtain e where
    "read_full (length (mPayload m)) \<lparr>rbuf = ?p, rend = t\<rparr> = (Inl e, \<lparr>rbuf = [], rend = t\<rparr>)" by auto
  moreover from False assms(2) have "mPayload m \<noteq> []" by (auto simp: msg_bytes_def)
  ultimately show ?thesis using assms(1) by (simp add: ipc_read_header)
qed

interpretation ipcmsgs: codec msg_bytes ipc_Read msg_ok
  by unfold_locales (rule ipc_Read_msg_bytes, assumption, rule ipc_Read_cut)

lemma ipc_Write_ok: "ipc_Write m w = (None, w') \<Longrightarrow> wsent w' = wsent w @ msg_bytes m"
  using write_bytes_ok [of "ipc_header m" w]
    write_bytes_ok [of "mPayload m" "snd (write_bytes (ipc_header m) w)"]
  by (auto simp: ipc_Write_def msg_bytes_def split: if_splits prod.splits option.splits)

lemma ipc_Write_prefix: "\<exists>k. wsent (snd (ipc_Write m w)) = wsent w @ take k (msg_bytes m)"
proof -
  obtain j where j: "wsent (snd (write_bytes (ipc_header m) w)) = wsent w @ take j (ipc_header m)"
    and jl: "fst (write_bytes (ipc_header m) w) = None \<longrightarrow> j = length (ipc_header m)"
    using write_bytes_sent by blast
  obtain i where i: "wsent (snd (write_bytes (mPayload m) (snd (write_bytes (ipc_header m) w)))) =
      wsent (snd (write_bytes (ipc_header m) w)) @ take i (mPayload m)"
    using write_bytes_sent by blast
  have h: "wsent w @ take j (ipc_header m) = wsent w @ take (min j ipcHeaderSize) (msg_bytes m)"
    by (simp add: msg_bytes_def min_def)
  have p: "wsent w @ ipc_header m @ take i (mPayload m) = wsent w @ take (ipcHeaderSize + i) (msg_bytes m)"
    by (simp add: msg_bytes_def)
  show ?thesis using h p i j jl
    by (auto simp: ipc_Write_def split: prod.splits option.splits)
qed

lemma ipc_Read_consumes:
  "ipc_Read r = (Inr m, r') \<Longrightarrow> length (rbuf r) = ipcHeaderSize + length (mPayload m) + length (rbuf r')"
  by (auto simp: ipc_Read_def res_iff Let_def split: prod.splits sum.splits if_splits)

subsection \<open>The client\<close>

text \<open>A handler's callbacks act on a state \<open>'s\<close>; each may be absent (nil).\<close>

record 's ipc_handler =
  OnFrame :: "(camera_id \<Rightarrow> bytes \<Rightarrow> 's \<Rightarrow> 's) option"
  OnOffline :: "(camera_id \<Rightarrow> 's \<Rightarrow> 's) option"
  OnDisconnect :: "('s \<Rightarrow> 's) option"

definition reconnDelay :: int where "reconnDelay = second"

definition ipc_dispatch :: "'s ipc_handler \<Rightarrow> ipc_msg \<Rightarrow> 's \<Rightarrow> 's" where
  "ipc_dispatch h m s =
     (if mKind m = KindFrame
      then (case OnFrame h of None \<Rightarrow> s | Some f \<Rightarrow> f (mCameraID m) (mPayload m) s)
      else if mKind m = KindOffline
      then (case OnOffline h of None \<Rightarrow> s | Some f \<Rightarrow> f (mCameraID m) s)
      else s)"

function ipc_loop :: "'s ipc_handler \<Rightarrow> reader \<Rightarrow> 's \<Rightarrow> 's \<times> ipc_error" where
  "ipc_loop h r s =
     (case ipc_Read r of
        (Inl e, r') \<Rightarrow> (s, e)
      | (Inr m, r') \<Rightarrow> ipc_loop h r' (ipc_dispatch h m s))"
  by pat_completeness auto
termination
  by (relation "measure (\<lambda>(h, r, s). length (rbuf r))")
    (auto dest!: ipc_Read_consumes [OF sym] simp: ipcHeaderSize_def)

declare ipc_loop.simps [simp del]

datatype client_error = ClientDial nat | ClientRead ipc_error

definition client_connect :: "'s ipc_handler \<Rightarrow> dial \<Rightarrow> bool \<Rightarrow> 's \<Rightarrow> client_error option \<times> 's" where
  "client_connect h d cancelled s =
     (case d of
        DialErr e \<Rightarrow> (Some (ClientDial e), s)
      | Dialed r \<Rightarrow>
          (case ipc_loop h r s of
             (s', e) \<Rightarrow> (if cancelled then None else Some (ClientRead e), s')))"

text \<open>\<open>Run\<close> over the attempts that are observed; the flag says that it returned.\<close>

fun client_run :: "'s ipc_handler \<Rightarrow> attempt list \<Rightarrow> 's \<Rightarrow> 's \<times> bool" where
  "client_run h [] s = (s, False)"
| "client_run h (a # as) s =
     (if at_head a then (s, True)
      else
        let (err, s1) = client_connect h (at_dial a) (at_read a) s;
            s2 = (case OnDisconnect h of None \<Rightarrow> s1 | Some f \<Rightarrow> f s1)
        in if at_wait a then (s2, True) else client_run h as s2)"

interpretation ipcclient: message_loop msg_bytes ipc_Read msg_ok "ipc_dispatch h" "ipc_loop h" for h
  by unfold_locales (rule ipc_loop.simps)

lemma ipc_loop_cut:
  assumes "list_all msg_ok ms"
  shows "\<exists>n e. n \<le> length ms \<and>
    ipc_loop h \<lparr>rbuf = take k (stream_of msg_bytes ms), rend = t\<rparr> s = (fold (ipc_dispatch h) (take n ms) s, e) \<and>
    (length (stream_of msg_bytes ms) \<le> k \<longrightarrow> n = length ms)"
proof (cases "k < length (stream_of msg_bytes ms)")
  case True
  from ipcclient.loop_cut [OF assms True, of h t s] True show ?thesis
    by (metis less_imp_le linorder_not_le)
next
  case False
  obtain e r where "ipc_Read \<lparr>rbuf = [], rend = t\<rparr> = (Inl e, r)"
    by (simp add: ipc_Read_def read_full_def ipcHeaderSize_def)
  then have "ipc_loop h \<lparr>rbuf = [], rend = t\<rparr> st = (st, e)" for st
    by (simp add: ipc_loop.simps)
  with ipcclient.loop_stream [OF assms, of h "[]" t s] False show ?thesis
    by (intro exI [of _ "length ms"] exI [of _ e]) simp
qed

text \<open>After every attempt the disconnect callback has run last, so a condition that it
  establishes holds whenever the client is between connections or has returned from one.\<close>

lemma client_run_after_disconnect:
  assumes "OnDisconnect h = Some f" and "\<And>x. P (f x)" and "P s"
  shows "P (fst (client_run h as s))"
  using assms(3)
proof (induction as arbitrary: s)
  case Nil
  then show ?case by simp
next
  case (Cons a as)
  then show ?case by (auto simp: assms(1,2) Let_def split: prod.splits)
qed

subsection \<open>Properties\<close>

text \<open>C28: an IPC message written to a healthy socket is read back as the same kind, camera and
  payload, an empty payload included, leaving exactly the bytes behind it, so a sequence of messages
  stays in step.\<close>

theorem ipc_roundtrip:
  assumes "list_all msg_ok ms" and "msg_ok m" and "wroom w = None"
  shows "\<exists>w'. ipc_Write m w = (None, w') \<and> wsent w' = wsent w @ msg_bytes m \<and>
    ipc_Read \<lparr>rbuf = msg_bytes m @ rest, rend = t\<rparr> = (Inr m, \<lparr>rbuf = rest, rend = t\<rparr>) \<and>
    ipc_loop h \<lparr>rbuf = stream_of msg_bytes ms @ rest, rend = t\<rparr> s =
      ipc_loop h \<lparr>rbuf = rest, rend = t\<rparr> (fold (ipc_dispatch h) ms s)"
proof -
  from assms(3) have "\<exists>w'. ipc_Write m w = (None, w')" by (simp add: ipc_Write_def)
  then obtain w' where w': "ipc_Write m w = (None, w')" by blast
  show ?thesis
    by (intro exI [of _ w'] conjI w' ipc_Write_ok ipcmsgs.dec_enc assms ipcclient.loop_stream)
qed

definition sample_msg :: ipc_msg where
  "sample_msg = \<lparr>mKind = KindOffline, mCameraID = 3, mPayload = []\<rparr>"

lemma sample_msg_ok: "msg_ok sample_msg"
  by (simp add: msg_ok_def sample_msg_def)

lemma sample_msgs_ok: "list_all msg_ok [sample_msg, sample_msg]"
  by (simp add: sample_msg_ok)

definition offline_log :: "camera_id list ipc_handler" where
  "offline_log = \<lparr>OnFrame = None, OnOffline = Some (#), OnDisconnect = None\<rparr>"

theorem ipc_roundtrip_witness:
  "\<exists>w'. ipc_Write sample_msg \<lparr>wsent = [], wroom = None\<rparr> = (None, w') \<and> wsent w' = [] @ msg_bytes sample_msg \<and>
    ipc_Read \<lparr>rbuf = msg_bytes sample_msg @ [], rend = EOF\<rparr> = (Inr sample_msg, \<lparr>rbuf = [], rend = EOF\<rparr>) \<and>
    ipc_loop offline_log \<lparr>rbuf = stream_of msg_bytes [sample_msg, sample_msg] @ [], rend = EOF\<rparr> [] =
      ipc_loop offline_log \<lparr>rbuf = [], rend = EOF\<rparr> (fold (ipc_dispatch offline_log) [sample_msg, sample_msg] [])"
  using ipc_roundtrip [OF sample_msgs_ok sample_msg_ok,
      of "\<lparr>wsent = [], wroom = None\<rparr>" "[]" EOF offline_log "[]"]
  by simp

end
