(* ===== verification/Dropchan.thy ===== *)
theory Dropchan
  imports Prelude
begin

section \<open>Buffered channels and the drop-oldest send (shared/dropchan)\<close>

text \<open>
  A Go channel as its capacity, the values queued in it and whether it is closed. Non-blocking
  operations are the \<open>select ... default\<close> statements of the source; sending on, or closing, a
  closed channel panics (\<open>None\<close>). A receiver that is already waiting is a receive step right
  after the send, so an unbuffered channel, whose sends succeed only with a waiting receiver, never
  accepts a value here. \<open>Send_between\<close> is \<open>Send\<close> with what other goroutines do to the
  channel between its three selects; \<open>Send\<close> is the uncontended case.
\<close>

subsection \<open>Channels\<close>

record 'a chan =
  ccap :: nat
  cbuf :: "'a list"
  cclosed :: bool

definition make_chan :: "nat \<Rightarrow> 'a chan" where
  "make_chan n = \<lparr>ccap = n, cbuf = [], cclosed = False\<rparr>"

definition try_send :: "'a \<Rightarrow> 'a chan \<Rightarrow> (bool \<times> 'a chan) option" where
  "try_send v c =
     (if cclosed c then None
      else if length (cbuf c) < ccap c then Some (True, c\<lparr>cbuf := cbuf c @ [v]\<rparr>)
      else Some (False, c))"

definition try_recv :: "'a chan \<Rightarrow> bool \<times> 'a chan" where
  "try_recv c = (case cbuf c of [] \<Rightarrow> (cclosed c, c) | v # vs \<Rightarrow> (True, c\<lparr>cbuf := vs\<rparr>))"

definition close_chan :: "'a chan \<Rightarrow> 'a chan option" where
  "close_chan c = (if cclosed c then None else Some (c\<lparr>cclosed := True\<rparr>))"

lemmas chan_defs = make_chan_def try_send_def try_recv_def close_chan_def

subsection \<open>Send\<close>

datatype outcome = Delivered | ReplacedOldest | Dropped

definition Send_between ::
  "('a chan \<Rightarrow> 'a chan) \<Rightarrow> ('a chan \<Rightarrow> 'a chan) \<Rightarrow> 'a \<Rightarrow> 'a chan \<Rightarrow> (outcome \<times> 'a chan) option" where
  "Send_between others1 others2 v c =
     (case try_send v c of
        None \<Rightarrow> None
      | Some (True, c1) \<Rightarrow> Some (Delivered, c1)
      | Some (False, c1) \<Rightarrow>
          let (displaced, c2) = try_recv (others1 c1)
          in case try_send v (others2 c2) of
               None \<Rightarrow> None
             | Some (True, c3) \<Rightarrow> Some (if displaced then ReplacedOldest else Delivered, c3)
             | Some (False, c3) \<Rightarrow> Some (Dropped, c3))"

definition Send :: "'a \<Rightarrow> 'a chan \<Rightarrow> (outcome \<times> 'a chan) option" where
  "Send v c = Send_between id id v c"

definition Lost :: "outcome \<Rightarrow> bool" where
  "Lost r \<longleftrightarrow> r \<noteq> Delivered"

fun outcome_String :: "outcome \<Rightarrow> string" where
  "outcome_String Delivered = ''delivered''"
| "outcome_String ReplacedOldest = ''replaced-oldest''"
| "outcome_String Dropped = ''dropped''"

text \<open>A producer that sends a list of values and counts the losses, as \<open>Camera.Submit\<close> and
  \<open>Pool.Process\<close> do one value at a time.\<close>

fun send_all :: "'a list \<Rightarrow> 'a chan \<Rightarrow> (nat \<times> 'a chan) option" where
  "send_all [] c = Some (0, c)"
| "send_all (v # vs) c =
     (case Send v c of
        None \<Rightarrow> None
      | Some (r, c') \<Rightarrow>
          (case send_all vs c' of
             None \<Rightarrow> None
           | Some (n, c'') \<Rightarrow> Some ((if Lost r then 1 else 0) + n, c'')))"

definition lastn :: "nat \<Rightarrow> 'a list \<Rightarrow> 'a list" where
  "lastn n xs = drop (length xs - n) xs"

definition chan_ok :: "'a chan \<Rightarrow> bool" where
  "chan_ok c \<longleftrightarrow> \<not> cclosed c \<and> 0 < ccap c \<and> length (cbuf c) \<le> ccap c"

lemma Send_chan_ok:
  assumes "chan_ok c"
  shows "Send v c =
    Some (if length (cbuf c) < ccap c then Delivered else ReplacedOldest,
          c\<lparr>cbuf := lastn (ccap c) (cbuf c @ [v])\<rparr>)"
proof (cases "length (cbuf c) < ccap c")
  case True
  with assms show ?thesis by (simp add: Send_def Send_between_def try_send_def chan_ok_def lastn_def)
next
  case False
  with assms have l: "length (cbuf c) = ccap c" "cbuf c \<noteq> []" by (auto simp: chan_ok_def)
  then obtain x xs where x: "cbuf c = x # xs" by (cases "cbuf c") auto
  with l assms show ?thesis
    by (simp add: Send_def Send_between_def try_send_def try_recv_def chan_ok_def lastn_def)
qed

lemma chan_ok_Send: "chan_ok c \<Longrightarrow> chan_ok (c\<lparr>cbuf := lastn (ccap c) (cbuf c @ [v])\<rparr>)"
  by (simp add: chan_ok_def lastn_def) arith

lemma lastn_snoc_lastn: "lastn n (lastn n xs @ ys) = lastn n (xs @ ys)"
  by (cases "n \<le> length xs") (simp_all add: lastn_def add.commute)

lemma make_chan_sel [simp]:
  "ccap (make_chan n) = n" "cbuf (make_chan n) = []" "\<not> cclosed (make_chan n)"
  by (simp_all add: make_chan_def)

lemma chan_ok_make: "0 < n \<Longrightarrow> chan_ok (make_chan n)"
  by (simp add: chan_ok_def)

lemma send_all_chan_ok:
  "chan_ok c \<Longrightarrow> send_all vs c =
     Some (length (cbuf c) + length vs - length (lastn (ccap c) (cbuf c @ vs)),
           c\<lparr>cbuf := lastn (ccap c) (cbuf c @ vs)\<rparr>)"
proof (induction vs arbitrary: c)
  case Nil
  then show ?case by (cases c) (simp add: chan_ok_def lastn_def)
next
  case (Cons v vs)
  let ?c = "c\<lparr>cbuf := lastn (ccap c) (cbuf c @ [v])\<rparr>"
  from Cons.prems have "chan_ok ?c" by (rule chan_ok_Send)
  from Cons.IH [OF this] Cons.prems show ?case
    by (simp add: Send_chan_ok Lost_def lastn_snoc_lastn)
      (auto simp: lastn_def chan_ok_def)
qed

subsection \<open>Properties\<close>

text \<open>under any load, an uncontended drop-oldest queue of positive capacity never blocks or
  panics, ends up holding exactly the newest values in order, as many as fit, and the number of
  outcomes that \<open>Lost\<close> counts is exactly the number of values that are gone.\<close>

theorem drop_oldest_keeps_newest:
  assumes "chan_ok c"
  shows "\<exists>n c'. send_all vs c = Some (n, c') \<and> cbuf c' = lastn (ccap c) (cbuf c @ vs) \<and>
    n + length (cbuf c') = length (cbuf c) + length vs \<and> chan_ok c'"
  using assms send_all_chan_ok [OF assms, of vs] by (auto simp: lastn_def chan_ok_def)

theorem drop_oldest_keeps_newest_witness:
  "\<exists>n c'. send_all [1, 2, 3::nat] (make_chan 2) = Some (n, c') \<and>
     cbuf c' = lastn 2 [1, 2, 3] \<and> n + length (cbuf c') = Suc (Suc (Suc 0)) \<and> chan_ok c'"
  using drop_oldest_keeps_newest [OF chan_ok_make, of 2 "[1, 2, 3::nat]"]
  by (simp del: send_all.simps)

text \<open>with a single producer, where other goroutines only receive between the selects, the
  outcome is never \<open>Dropped\<close>: the new value is queued last, behind what the consumers left, and
  \<open>ReplacedOldest\<close> means that exactly one value, the oldest, was discarded, so counting outcomes
  counts losses exactly.\<close>

theorem single_producer_send:
  assumes "chan_ok c"
    and "others1 = (\<lambda>d. d\<lparr>cbuf := drop i (cbuf d)\<rparr>)" and "others2 = (\<lambda>d. d\<lparr>cbuf := drop j (cbuf d)\<rparr>)"
  shows "\<exists>r c'. Send_between others1 others2 v c = Some (r, c') \<and> r \<noteq> Dropped \<and> chan_ok c' \<and>
    (cbuf c' = cbuf c @ [v] \<and> r = Delivered \<or>
     cbuf c' = drop j (drop (if Lost r then 1 else 0) (drop i (cbuf c))) @ [v])"
proof (cases "length (cbuf c) < ccap c")
  case True
  with assms(1) show ?thesis by (simp add: Send_between_def try_send_def chan_ok_def)
next
  case False
  with assms show ?thesis
    by (cases "drop i (cbuf c)")
      (auto simp: Send_between_def try_send_def try_recv_def chan_ok_def Lost_def drop_Cons'
        dest!: arg_cong [of _ _ length])
qed

theorem single_producer_send_witness:
  "\<exists>r c'. Send_between (\<lambda>d. d\<lparr>cbuf := drop 0 (cbuf d)\<rparr>) (\<lambda>d. d\<lparr>cbuf := drop 1 (cbuf d)\<rparr>) (9::nat)
       \<lparr>ccap = 2, cbuf = [1, 2], cclosed = False\<rparr> = Some (r, c') \<and> r \<noteq> Dropped \<and> chan_ok c'"
  using single_producer_send [of "\<lparr>ccap = 2, cbuf = [1, 2], cclosed = False\<rparr>" _ 0 _ 1 "9::nat"]
  by (simp add: chan_ok_def) blast

text \<open>with concurrent producers \<open>Dropped\<close> can happen, and then the new value is not queued
  and the channel is full; and the oldest value may have been discarded as well, so that one counted
  loss stands for two values, the inaccuracy the source accepts.\<close>

theorem contended_send_may_lose_two:
  "(Send_between others1 others2 v c = Some (Dropped, c') \<longrightarrow>
      \<not> cclosed c' \<and> ccap c' \<le> length (cbuf c') \<and> c' = others2 (snd (try_recv (others1 c)))) \<and>
   Send_between id (\<lambda>d. d\<lparr>cbuf := cbuf d @ [8::nat]\<rparr>) 9 \<lparr>ccap = 1, cbuf = [7], cclosed = False\<rparr> =
     Some (Dropped, \<lparr>ccap = 1, cbuf = [8], cclosed = False\<rparr>)"
  by (auto simp: Send_between_def try_send_def try_recv_def split: if_splits option.splits prod.splits)

theorem contended_send_may_lose_two_witness:
  "\<not> cclosed \<lparr>ccap = 1, cbuf = [8::nat], cclosed = False\<rparr>"
  using contended_send_may_lose_two [of id "\<lambda>d. d\<lparr>cbuf := cbuf d @ [8]\<rparr>" 9
      "\<lparr>ccap = 1, cbuf = [7], cclosed = False\<rparr>" "\<lparr>ccap = 1, cbuf = [8], cclosed = False\<rparr>"]
  by simp

end
