(* ===== verification/Fanout.thy ===== *)
theory Fanout
  imports Dropchan
begin

section \<open>Fan-out to subscriber channels\<close>

text \<open>
  The part that \<open>livefeed.Broadcaster\<close>, \<open>livefeed.Hub\<close> and the IPC \<open>Publisher\<close>
  share: a set of subscriber channels under a mutex, the latest value, and a publish that offers a
  value to every subscriber. They differ in what they do with a full channel, which is the contract of
  the locale \<open>queue_policy\<close>: the source has two policies, dropping the newest value
  (\<open>select { case ch <- v: default: }\<close>) and dropping the oldest (\<open>dropchan.Send\<close>).
  The step relation \<open>fan_step\<close> interleaves publishers, new subscribers, receivers and
  unsubscribing goroutines at the points where the source takes its lock; the locale's lemmas give
  the safety of any such system.
\<close>

subsection \<open>Queue policies\<close>

definition offer_drop_newest :: "'a \<Rightarrow> 'a chan \<Rightarrow> 'a chan option" where
  "offer_drop_newest v c = (case try_send v c of None \<Rightarrow> None | Some (_, c') \<Rightarrow> Some c')"

definition offer_drop_oldest :: "'a \<Rightarrow> 'a chan \<Rightarrow> 'a chan option" where
  "offer_drop_oldest v c = (case Send v c of None \<Rightarrow> None | Some (_, c') \<Rightarrow> Some c')"

locale queue_policy =
  fixes offer :: "'a \<Rightarrow> 'a chan \<Rightarrow> 'a chan option"
  assumes offer_open: "\<not> cclosed c \<Longrightarrow> \<exists>c'. offer v c = Some c'"
    and offer_frame: "offer v c = Some c' \<Longrightarrow> ccap c' = ccap c \<and> cclosed c' = cclosed c"
    and offer_bounded: "offer v c = Some c' \<Longrightarrow> length (cbuf c) \<le> ccap c \<Longrightarrow> length (cbuf c') \<le> ccap c"
    and offer_subseq: "offer v c = Some c' \<Longrightarrow> subseq (cbuf c') (cbuf c @ [v])"

lemma subseq_snoc: "subseq xs (xs @ [v])"
  by (rule list_emb_prefix) simp

lemma subseq_tl: "subseq (drop k xs) xs"
  by (metis append_take_drop_id subseq_drop_many subseq_order.order_refl)

interpretation newest: queue_policy offer_drop_newest
  by unfold_locales (auto simp: offer_drop_newest_def try_send_def subseq_snoc split: if_splits option.splits)

interpretation oldest: queue_policy offer_drop_oldest
proof unfold_locales
  fix v :: 'a and c c' :: "'a chan"
  show "\<not> cclosed c \<Longrightarrow> \<exists>c'. offer_drop_oldest v c = Some c'"
    by (auto simp: offer_drop_oldest_def Send_def Send_between_def try_send_def try_recv_def Let_def split: list.splits)
  assume o: "offer_drop_oldest v c = Some c'"
  then show "ccap c' = ccap c \<and> cclosed c' = cclosed c"
    by (auto simp: offer_drop_oldest_def Send_def Send_between_def try_send_def try_recv_def Let_def
        split: if_splits option.splits prod.splits list.splits)
  from o show "length (cbuf c) \<le> ccap c \<Longrightarrow> length (cbuf c') \<le> ccap c"
    by (auto simp: offer_drop_oldest_def Send_def Send_between_def try_send_def try_recv_def Let_def
        split: if_splits option.splits prod.splits list.splits)
  from o show "subseq (cbuf c') (cbuf c @ [v])"
    by (auto simp: offer_drop_oldest_def Send_def Send_between_def try_send_def try_recv_def Let_def
        subseq_snoc split: if_splits option.splits prod.splits list.splits intro: subseq_Cons' subseq_rev_drop_many)
qed

lemma offer_drop_newest_cbuf:
  "offer_drop_newest v c = Some c' \<Longrightarrow>
     cbuf c' = cbuf c @ (if length (cbuf c) < ccap c then [v] else [])"
  by (auto simp: offer_drop_newest_def try_send_def split: if_splits)

subsection \<open>The shared state and its operations\<close>

text \<open>Channels are named by the order of their creation; \<open>subs\<close> is the map of registered
  ones, in the order one iteration over it visits them.\<close>

record 'a bcast =
  latest :: "'a option"
  chans :: "nat \<Rightarrow> 'a chan"
  subs :: "nat list"
  nextc :: nat

definition bcast_init :: "'a bcast" where
  "bcast_init = \<lparr>latest = None, chans = (\<lambda>_. make_chan 0), subs = [], nextc = 0\<rparr>"

definition store_latest :: "'a \<Rightarrow> ('a, 'z) bcast_scheme \<Rightarrow> ('a, 'z) bcast_scheme" where
  "store_latest v b = b\<lparr>latest := Some v\<rparr>"

fun fan_out :: "('a \<Rightarrow> 'a chan \<Rightarrow> 'a chan option) \<Rightarrow> 'a \<Rightarrow> nat list \<Rightarrow> (nat \<Rightarrow> 'a chan)
    \<Rightarrow> (nat \<Rightarrow> 'a chan) option" where
  "fan_out offer v [] h = Some h"
| "fan_out offer v (i # is) h =
     (case offer v (h i) of None \<Rightarrow> None | Some c \<Rightarrow> fan_out offer v is (h(i := c)))"

definition fan :: "('a \<Rightarrow> 'a chan \<Rightarrow> 'a chan option) \<Rightarrow> 'a \<Rightarrow> ('a, 'z) bcast_scheme
    \<Rightarrow> ('a, 'z) bcast_scheme option" where
  "fan offer v b = map_option (\<lambda>h. b\<lparr>chans := h\<rparr>) (fan_out offer v (subs b) (chans b))"

definition subscribe_with :: "nat \<Rightarrow> ('a, 'z) bcast_scheme \<Rightarrow> nat \<times> ('a, 'z) bcast_scheme" where
  "subscribe_with cap b =
     (let i = nextc b;
          c = (case latest b of
                 None \<Rightarrow> make_chan cap
               | Some v \<Rightarrow> (case try_send v (make_chan cap) of Some (_, c') \<Rightarrow> c' | None \<Rightarrow> make_chan cap))
      in (i, b\<lparr>chans := (chans b)(i := c), subs := i # subs b, nextc := Suc i\<rparr>))"

definition unregister :: "nat \<Rightarrow> ('a, 'z) bcast_scheme \<Rightarrow> ('a, 'z) bcast_scheme" where
  "unregister i b = b\<lparr>subs := removeAll i (subs b)\<rparr>"

definition close_sub :: "nat \<Rightarrow> ('a, 'z) bcast_scheme \<Rightarrow> ('a, 'z) bcast_scheme option" where
  "close_sub i b = map_option (\<lambda>c. b\<lparr>chans := (chans b)(i := c)\<rparr>) (close_chan (chans b i))"

definition unsubscribe :: "nat \<Rightarrow> ('a, 'z) bcast_scheme \<Rightarrow> ('a, 'z) bcast_scheme option" where
  "unsubscribe i b = close_sub i (unregister i b)"

definition recv :: "nat \<Rightarrow> ('a, 'z) bcast_scheme \<Rightarrow> ('a \<times> ('a, 'z) bcast_scheme) option" where
  "recv i b =
     (case cbuf (chans b i) of
        [] \<Rightarrow> None
      | v # vs \<Rightarrow> Some (v, b\<lparr>chans := (chans b)(i := (chans b i)\<lparr>cbuf := vs\<rparr>)\<rparr>))"

subsection \<open>Interleavings\<close>

text \<open>
  \<open>pending\<close> are the publishes that have not yet taken the lock to fan their value out (those
  that keep a latest value stored it first; the IPC publisher keeps none and only begins), \<open>leaving\<close> the subscribers removed from the map whose channel is not yet closed.
  \<open>offered\<close> and \<open>seen\<close> are history: what each subscriber was offered since it subscribed, and
  what it has received. A panic is recorded in \<open>panicked\<close>. \<open>fs_other\<close> stands for changes to
  the fields that an extension of the record adds.
\<close>

record ('a, 'z) fansys =
  core :: "('a, 'z) bcast_scheme"
  pending :: "'a list"
  leaving :: "nat list"
  offered :: "nat \<Rightarrow> 'a list"
  seen :: "nat \<Rightarrow> 'a list"
  panicked :: bool

definition fansys_init :: "('a, 'z) bcast_scheme \<Rightarrow> ('a, 'z) fansys" where
  "fansys_init b = \<lparr>core = b, pending = [], leaving = [], offered = (\<lambda>_. []), seen = (\<lambda>_. []), panicked = False\<rparr>"

inductive fan_step :: "('a \<Rightarrow> 'a chan \<Rightarrow> 'a chan option) \<Rightarrow> nat \<Rightarrow> ('a, 'z) fansys \<Rightarrow> ('a, 'z) fansys \<Rightarrow> bool"
  for offer cap where
  fs_store: "fan_step offer cap s (s\<lparr>core := store_latest v (core s), pending := v # pending s\<rparr>)"
| fs_begin: "fan_step offer cap s (s\<lparr>pending := v # pending s\<rparr>)"
| fs_fan: "v \<in> set (pending s) \<Longrightarrow> fan offer v (core s) = Some b \<Longrightarrow>
    fan_step offer cap s (s\<lparr>core := b, pending := remove1 v (pending s),
      offered := (\<lambda>i. if i \<in> set (subs (core s)) then offered s i @ [v] else offered s i)\<rparr>)"
| fs_fan_panic: "v \<in> set (pending s) \<Longrightarrow> fan offer v (core s) = None \<Longrightarrow>
    fan_step offer cap s (s\<lparr>panicked := True\<rparr>)"
| fs_subscribe: "subscribe_with cap (core s) = (i, b) \<Longrightarrow>
    fan_step offer cap s (s\<lparr>core := b, seen := (seen s)(i := []),
      offered := (offered s)(i := (case latest (core s) of None \<Rightarrow> [] | Some v \<Rightarrow> [v]))\<rparr>)"
| fs_leave: "i \<in> set (subs (core s)) \<Longrightarrow>
    fan_step offer cap s (s\<lparr>core := unregister i (core s), leaving := i # leaving s\<rparr>)"
| fs_close: "i \<in> set (leaving s) \<Longrightarrow> close_sub i (core s) = Some b \<Longrightarrow>
    fan_step offer cap s (s\<lparr>core := b, leaving := remove1 i (leaving s)\<rparr>)"
| fs_close_panic: "i \<in> set (leaving s) \<Longrightarrow> close_sub i (core s) = None \<Longrightarrow>
    fan_step offer cap s (s\<lparr>panicked := True\<rparr>)"
| fs_recv: "recv i (core s) = Some (v, b) \<Longrightarrow>
    fan_step offer cap s (s\<lparr>core := b, seen := (seen s)(i := seen s i @ [v])\<rparr>)"
| fs_other: "latest b = latest (core s) \<Longrightarrow> chans b = chans (core s) \<Longrightarrow> subs b = subs (core s) \<Longrightarrow>
    nextc b = nextc (core s) \<Longrightarrow> fan_step offer cap s (s\<lparr>core := b\<rparr>)"

inductive_cases fan_stepE: "fan_step offer cap s t"

inductive fan_reach :: "('a \<Rightarrow> 'a chan \<Rightarrow> 'a chan option) \<Rightarrow> nat \<Rightarrow> ('a, 'z) fansys \<Rightarrow> bool" for offer cap where
  fr_start: "latest b = None \<Longrightarrow> subs b = [] \<Longrightarrow> nextc b = 0 \<Longrightarrow> chans b = (\<lambda>_. make_chan 0) \<Longrightarrow>
    fan_reach offer cap (fansys_init b)"
| fr_step: "fan_reach offer cap s \<Longrightarrow> fan_step offer cap s t \<Longrightarrow> fan_reach offer cap t"

text \<open>One channel: open while registered or leaving, within its capacity, and holding, after what
  was received, part of what was offered, in order.\<close>

definition sub_ok :: "nat \<Rightarrow> ('a, 'z) fansys \<Rightarrow> nat \<Rightarrow> bool" where
  "sub_ok cap s i \<longleftrightarrow>
     (i \<in> set (subs (core s)) \<union> set (leaving s) \<longrightarrow>
        i < nextc (core s) \<and> \<not> cclosed (chans (core s) i) \<and> ccap (chans (core s) i) = cap) \<and>
     ccap (chans (core s) i) \<le> cap \<and>
     length (cbuf (chans (core s) i)) \<le> ccap (chans (core s) i) \<and>
     subseq (seen s i @ cbuf (chans (core s) i)) (offered s i)"

definition fan_inv :: "nat \<Rightarrow> ('a, 'z) fansys \<Rightarrow> bool" where
  "fan_inv cap s \<longleftrightarrow> \<not> panicked s \<and> distinct (subs (core s)) \<and> distinct (leaving s) \<and>
     set (subs (core s)) \<inter> set (leaving s) = {} \<and> (\<forall>i. sub_ok cap s i)"

lemma fan_inv_init:
  "latest b = None \<Longrightarrow> subs b = [] \<Longrightarrow> nextc b = 0 \<Longrightarrow> chans b = (\<lambda>_. make_chan 0) \<Longrightarrow>
     fan_inv cap (fansys_init b)"
  by (simp add: fan_inv_def sub_ok_def fansys_init_def)

lemmas fan_ops = store_latest_def fan_def subscribe_with_def unregister_def close_sub_def recv_def


lemma recv_Some:
  "recv i b = Some (v, b') \<longleftrightarrow>
     (\<exists>vs. cbuf (chans b i) = v # vs \<and> b' = b\<lparr>chans := (chans b)(i := (chans b i)\<lparr>cbuf := vs\<rparr>)\<rparr>)"
  by (auto simp: recv_def split: list.split)

lemma close_sub_Some:
  "close_sub i b = Some b' \<longleftrightarrow>
     \<not> cclosed (chans b i) \<and> b' = b\<lparr>chans := (chans b)(i := (chans b i)\<lparr>cclosed := True\<rparr>)\<rparr>"
  by (auto simp: close_sub_def close_chan_def)

lemma subscribe_with_eq:
  "subscribe_with cap b =
     (nextc b, b\<lparr>chans := (chans b)(nextc b := (make_chan cap)\<lparr>cbuf :=
        (case latest b of None \<Rightarrow> [] | Some v \<Rightarrow> if 0 < cap then [v] else [])\<rparr>),
        subs := nextc b # subs b, nextc := Suc (nextc b)\<rparr>)"
  by (simp add: subscribe_with_def Let_def try_send_def make_chan_def split: option.split)

lemmas sub_okD = sub_ok_def [THEN iffD1, rule_format]

context queue_policy
begin

lemma fan_out_open:
  assumes "\<And>i. i \<in> set is \<Longrightarrow> \<not> cclosed (h i)" "distinct is"
  shows "\<exists>h'. fan_out offer v is h = Some h' \<and>
    (\<forall>i. if i \<in> set is then offer v (h i) = Some (h' i) else h' i = h i)"
  using assms
proof (induction "is" arbitrary: h)
  case Nil
  then show ?case by simp
next
  case (Cons j js)
  from Cons.prems offer_open [of "h j" v] obtain c where c: "offer v (h j) = Some c" by auto
  from Cons.prems have "\<And>i. i \<in> set js \<Longrightarrow> \<not> cclosed ((h(j := c)) i)" "distinct js" by auto
  from Cons.IH [of "h(j := c)", OF this] obtain h' where
    "fan_out offer v js (h(j := c)) = Some h'"
    "\<forall>i. if i \<in> set js then offer v ((h(j := c)) i) = Some (h' i) else h' i = (h(j := c)) i" by blast
  with c Cons.prems(2) show ?case by (auto split: if_splits)
qed

lemma offer_grows:
  assumes "offer v c = Some c'" "subseq (xs @ cbuf c) ys"
  shows "subseq (xs @ cbuf c') (ys @ [v])"
proof -
  from offer_subseq [OF assms(1)] have "subseq (xs @ cbuf c') (xs @ cbuf c @ [v])"
    by (simp add: subseq_append')
  also have "subseq (xs @ cbuf c @ [v]) (ys @ [v])"
    using assms(2) by (metis append_assoc subseq_append)
  finally show ?thesis .
qed

lemma fan_inv_fan:
  assumes inv: "fan_inv cap s" and f: "fan offer v (core s) = Some b"
  shows "fan_inv cap (s\<lparr>core := b, pending := p,
      offered := (\<lambda>i. if i \<in> set (subs (core s)) then offered s i @ [v] else offered s i)\<rparr>)"
proof -
  from inv have o: "\<And>i. i \<in> set (subs (core s)) \<Longrightarrow> \<not> cclosed (chans (core s) i)"
    and d: "distinct (subs (core s))"
    by (auto simp: fan_inv_def sub_ok_def)
  from fan_out_open [of "subs (core s)" "chans (core s)" v, OF o d] f obtain h' where
    b: "b = (core s)\<lparr>chans := h'\<rparr>" and
    h: "\<And>i. if i \<in> set (subs (core s)) then offer v (chans (core s) i) = Some (h' i)
          else h' i = chans (core s) i"
    by (auto simp: fan_def)
  have "sub_ok cap (s\<lparr>core := b, pending := p,
      offered := (\<lambda>i. if i \<in> set (subs (core s)) then offered s i @ [v] else offered s i)\<rparr>) i" for i
  proof (cases "i \<in> set (subs (core s))")
    case True
    from inv have k: "sub_ok cap s i" by (simp add: fan_inv_def)
    from h [of i] True have of: "offer v (chans (core s) i) = Some (h' i)" by simp
    from offer_frame [OF of] offer_bounded [OF of] offer_grows [OF of, of "seen s i" "offered s i"] k True b
    show ?thesis by (simp add: sub_ok_def)
  next
    case False
    with h [of i] inv b show ?thesis by (simp add: fan_inv_def sub_ok_def)
  qed
  with inv b show ?thesis by (simp add: fan_inv_def)
qed

lemma fan_never_panics:
  assumes "fan_inv cap s"
  shows "fan offer v (core s) \<noteq> None"
  using fan_out_open [of "subs (core s)" "chans (core s)" v] assms
  by (auto simp: fan_inv_def sub_ok_def fan_def)

lemma fan_inv_subscribe:
  assumes inv: "fan_inv cap s" and f: "subscribe_with cap (core s) = (i, b)"
  shows "fan_inv cap (s\<lparr>core := b, seen := (seen s)(i := []),
      offered := (offered s)(i := (case latest (core s) of None \<Rightarrow> [] | Some v \<Rightarrow> [v]))\<rparr>)"
proof -
  from f have i: "i = nextc (core s)" by (simp add: subscribe_with_eq)
  from inv i have "i \<notin> set (subs (core s))" "i \<notin> set (leaving s)"
    by (auto simp: fan_inv_def sub_ok_def)
  with inv f i show ?thesis
    by (auto simp: fan_inv_def sub_ok_def subscribe_with_eq less_Suc_eq split: option.split)
qed

lemma fan_inv_step:
  assumes inv: "fan_inv cap s" and step: "fan_step offer cap s t"
  shows "fan_inv cap t"
  using step
proof cases
  case (fs_store v)
  with inv show ?thesis by (simp add: fan_inv_def sub_ok_def store_latest_def)
next
  case (fs_begin v)
  with inv show ?thesis by (simp add: fan_inv_def sub_ok_def)
next
  case (fs_fan v b)
  with fan_inv_fan [OF inv] show ?thesis by simp
next
  case (fs_fan_panic v)
  with fan_never_panics [OF inv] show ?thesis by blast
next
  case (fs_subscribe i b)
  with fan_inv_subscribe [OF inv] show ?thesis by simp
next
  case (fs_leave i)
  with inv show ?thesis by (auto simp: fan_inv_def sub_ok_def unregister_def distinct_removeAll)
next
  case (fs_close i b)
  with inv show ?thesis by (auto simp: fan_inv_def sub_ok_def close_sub_Some)
next
  case (fs_close_panic i)
  with inv show ?thesis by (auto simp: fan_inv_def sub_ok_def close_sub_def close_chan_def)
next
  case (fs_recv i v b)
  then obtain vs where vs: "cbuf (chans (core s) i) = v # vs"
    "b = (core s)\<lparr>chans := (chans (core s))(i := (chans (core s) i)\<lparr>cbuf := vs\<rparr>)\<rparr>"
    by (auto simp: recv_Some)
  from inv have "sub_ok cap s i" by (simp add: fan_inv_def)
  with vs(1) have "length vs \<le> ccap (chans (core s) i)"
    "subseq (seen s i @ v # vs) (offered s i)" by (simp_all add: sub_ok_def)
  with inv fs_recv(1) vs(2) show ?thesis by (auto simp: fan_inv_def sub_ok_def)
next
  case (fs_other b)
  with inv show ?thesis by (simp add: fan_inv_def sub_ok_def)
qed

lemma fan_reach_inv:
  assumes "fan_reach offer cap s"
  shows "fan_inv cap s"
  using assms
proof (induction rule: fan_reach.induct)
  case (fr_start b)
  then show ?case by (rule fan_inv_init)
next
  case (fr_step s t)
  from fr_step.IH fr_step.hyps(2) show ?case by (rule fan_inv_step)
qed

lemma fan_reach_safe:
  assumes "fan_reach offer cap s"
  shows "\<not> panicked s" "length (cbuf (chans (core s) i)) \<le> cap"
    "subseq (seen s i @ cbuf (chans (core s) i)) (offered s i)"
    "i \<in> set (subs (core s)) \<Longrightarrow> \<not> cclosed (chans (core s) i)"
  using fan_reach_inv [OF assms] by (auto simp: fan_inv_def sub_ok_def intro: order_trans)

end

end
