(* ===== verification/Backend_Publisher.thy ===== *)
theory Backend_Publisher
  imports Frame_Ipc Fanout
begin

section \<open>The IPC publisher (tcp-camera-backend/internal/publisher)\<close>

text \<open>
  The camera backend's fan-out to its local consumers: \<open>Publish\<close> and \<open>PublishOffline\<close> offer a
  message to every consumer's channel of 64 places and drop it where there is no room;
  \<open>serveConsumer\<close> writes a consumer's queue to its socket. The consumers map is the \<open>subs\<close> of a
  \<open>bcast\<close> that never has a latest value, and a consumer's channel is never closed. The locale
  \<open>camera_publisher\<close> is the interface that the frame server uses.
\<close>

subsection \<open>The interface of the frame server\<close>

text \<open>What the server calls, and what it relies on: each call reaches the publisher's log of messages
  once, in order.\<close>

locale camera_publisher =
  fixes publish :: "camera_id \<Rightarrow> bytes \<Rightarrow> 's \<Rightarrow> 's"
    and publish_offline :: "camera_id \<Rightarrow> 's \<Rightarrow> 's"
    and sent :: "'s \<Rightarrow> ipc_msg list"
    and good :: "'s \<Rightarrow> bool"
  assumes publish_sent: "good s \<Longrightarrow>
      good (publish c j s) \<and> sent (publish c j s) = sent s @ [\<lparr>mKind = KindFrame, mCameraID = c, mPayload = j\<rparr>]"
    and offline_sent: "good s \<Longrightarrow>
      good (publish_offline c s) \<and> sent (publish_offline c s) = sent s @ [\<lparr>mKind = KindOffline, mCameraID = c, mPayload = []\<rparr>]"
begin

lemma publish_all:
  "good s \<Longrightarrow> good (fold (\<lambda>(c, j). publish c j) cjs s) \<and>
     sent (fold (\<lambda>(c, j). publish c j) cjs s) =
       sent s @ map (\<lambda>(c, j). \<lparr>mKind = KindFrame, mCameraID = c, mPayload = j\<rparr>) cjs"
  by (induction cjs arbitrary: s) (auto simp: publish_sent)

lemma offline_all:
  "good s \<Longrightarrow> good (fold publish_offline cs s) \<and>
     sent (fold publish_offline cs s) =
       sent s @ map (\<lambda>c. \<lparr>mKind = KindOffline, mCameraID = c, mPayload = []\<rparr>) cs"
  by (induction cs arbitrary: s) (auto simp: offline_sent)

end

subsection \<open>Publisher\<close>

definition ipcChannelSize :: nat where "ipcChannelSize = 64"

type_synonym publisher = "ipc_msg bcast"

definition Publisher_New :: publisher where
  "Publisher_New = bcast_init"

definition add_consumer :: "publisher \<Rightarrow> nat \<times> publisher" where
  "add_consumer p = subscribe_with ipcChannelSize p"

definition remove_consumer :: "nat \<Rightarrow> publisher \<Rightarrow> publisher" where
  "remove_consumer c p = unregister c p"

definition fanOut :: "ipc_msg \<Rightarrow> publisher \<Rightarrow> publisher option" where
  "fanOut msg p = fan offer_drop_newest msg p"

definition Publish :: "camera_id \<Rightarrow> bytes \<Rightarrow> publisher \<Rightarrow> publisher option" where
  "Publish cameraID jpeg p = fanOut \<lparr>mKind = KindFrame, mCameraID = cameraID, mPayload = jpeg\<rparr> p"

definition PublishOffline :: "camera_id \<Rightarrow> publisher \<Rightarrow> publisher option" where
  "PublishOffline cameraID p = fanOut \<lparr>mKind = KindOffline, mCameraID = cameraID, mPayload = []\<rparr> p"

text \<open>The loop of \<open>serveConsumer\<close>, over what its \<open>select\<close> sees; the flag says that it ended, and the
  consumer is then removed by the deferred call.\<close>

datatype consumer_event = ConsumerCtxDone | ConsumerMsg ipc_msg

fun serveConsumer :: "consumer_event list \<Rightarrow> writer \<Rightarrow> bool \<times> writer" where
  "serveConsumer [] w = (False, w)"
| "serveConsumer (ConsumerCtxDone # es) w = (True, w)"
| "serveConsumer (ConsumerMsg m # es) w =
     (case ipc_Write m w of
        (Some e, w') \<Rightarrow> (True, w')
      | (None, w') \<Rightarrow> serveConsumer es w')"

text \<open>The accept loop of \<open>Listen\<close>: it returns only when the context is done, and retries every other
  accept error at once.\<close>

datatype listen_event = ListenConn | ListenErr bool

fun Listen_loop :: "listen_event list \<Rightarrow> publisher \<Rightarrow> bool \<times> publisher" where
  "Listen_loop [] p = (False, p)"
| "Listen_loop (ListenErr ctx_done # es) p = (if ctx_done then (True, p) else Listen_loop es p)"
| "Listen_loop (ListenConn # es) p = Listen_loop es (snd (add_consumer p))"

subsection \<open>The publisher as the server's interface\<close>

text \<open>The publisher with the messages published so far; \<open>None\<close> would be a panic.\<close>

type_synonym pub_state = "ipc_msg list \<times> publisher option"

definition pub_publish :: "camera_id \<Rightarrow> bytes \<Rightarrow> pub_state \<Rightarrow> pub_state" where
  "pub_publish c j s = (fst s @ [\<lparr>mKind = KindFrame, mCameraID = c, mPayload = j\<rparr>], Option.bind (snd s) (Publish c j))"

definition pub_offline :: "camera_id \<Rightarrow> pub_state \<Rightarrow> pub_state" where
  "pub_offline c s = (fst s @ [\<lparr>mKind = KindOffline, mCameraID = c, mPayload = []\<rparr>], Option.bind (snd s) (PublishOffline c))"

definition consumers_ok :: "publisher \<Rightarrow> bool" where
  "consumers_ok p \<longleftrightarrow> latest p = None \<and> distinct (subs p) \<and> list_all (\<lambda>i. \<not> cclosed (chans p i)) (subs p)"

definition pub_good :: "pub_state \<Rightarrow> bool" where
  "pub_good s \<longleftrightarrow> (case snd s of None \<Rightarrow> False | Some p \<Rightarrow> consumers_ok p)"

lemma fanOut_ok:
  assumes "consumers_ok p"
  shows "\<exists>p'. fanOut m p = Some p' \<and> consumers_ok p' \<and> subs p' = subs p \<and>
    (\<forall>i. if i \<in> set (subs p) then offer_drop_newest m (chans p i) = Some (chans p' i) else chans p' i = chans p i)"
proof -
  from assms have o: "\<And>i. i \<in> set (subs p) \<Longrightarrow> \<not> cclosed (chans p i)" "distinct (subs p)"
    by (auto simp: consumers_ok_def list_all_iff)
  from newest.fan_out_open [of "subs p" "chans p" m, OF o] obtain h where
    f: "fan_out offer_drop_newest m (subs p) (chans p) = Some h" and
    h: "\<And>i. if i \<in> set (subs p) then offer_drop_newest m (chans p i) = Some (h i) else h i = chans p i" by blast
  from h o(1) have "\<not> cclosed (h i)" if "i \<in> set (subs p)" for i
    using newest.offer_frame that by metis
  with f h assms show ?thesis
    by (intro exI [of _ "p\<lparr>chans := h\<rparr>"]) (auto simp: fanOut_def fan_def consumers_ok_def list_all_iff)
qed

interpretation ipcpub: camera_publisher pub_publish pub_offline fst pub_good
proof unfold_locales
  fix s c j
  assume g: "pub_good s"
  then obtain p where p: "snd s = Some p" "consumers_ok p" by (auto simp: pub_good_def split: option.splits)
  from fanOut_ok [OF p(2)] have "\<exists>q. fanOut m p = Some q \<and> consumers_ok q" for m by blast
  then show
    "pub_good (pub_publish c j s) \<and> fst (pub_publish c j s) = fst s @ [\<lparr>mKind = KindFrame, mCameraID = c, mPayload = j\<rparr>]"
    "pub_good (pub_offline c s) \<and> fst (pub_offline c s) = fst s @ [\<lparr>mKind = KindOffline, mCameraID = c, mPayload = []\<rparr>]"
    using p(1) by (auto simp: pub_publish_def Publish_def pub_offline_def PublishOffline_def pub_good_def
        split: option.split) (metis option.inject)+
qed

subsection \<open>Lemmas\<close>

fun consumer_msgs :: "consumer_event list \<Rightarrow> ipc_msg list" where
  "consumer_msgs [] = []"
| "consumer_msgs (ConsumerMsg m # es) = m # consumer_msgs es"
| "consumer_msgs (_ # es) = consumer_msgs es"

lemma serveConsumer_prefix:
  "serveConsumer es w = (d, w') \<Longrightarrow>
     \<exists>k. wsent w' = wsent w @ take k (stream_of msg_bytes (consumer_msgs es))"
proof (induction es w rule: serveConsumer.induct)
  case (3 m es w)
  obtain e w1 where m: "ipc_Write m w = (e, w1)" by fastforce
  show ?case
  proof (cases e)
    case None
    with m have o: "wsent w1 = wsent w @ msg_bytes m" by (simp add: ipc_Write_ok)
    from 3(2) m None have "serveConsumer es w1 = (d, w')" by simp
    from 3(1) [OF m [symmetric] None this] obtain k where
      "wsent w' = wsent w1 @ take k (stream_of msg_bytes (consumer_msgs es))" by blast
    with o show ?thesis by (intro exI [of _ "length (msg_bytes m) + k"]) simp
  next
    case (Some x)
    with 3(2) m have "w' = w1" by simp
    moreover from ipc_Write_prefix [of m w] m obtain k where "wsent w1 = wsent w @ take k (msg_bytes m)" by auto
    ultimately show ?thesis by (intro exI [of _ "min k (length (msg_bytes m))"]) (simp add: min_def)
  qed
qed (auto intro: exI [of _ 0])

text \<open>The recorder of what a consumer decodes.\<close>

definition log_frames :: "ipc_msg list ipc_handler" where
  "log_frames =
     \<lparr>OnFrame = Some (\<lambda>c j s. s @ [\<lparr>mKind = KindFrame, mCameraID = c, mPayload = j\<rparr>]),
      OnOffline = Some (\<lambda>c s. s @ [\<lparr>mKind = KindOffline, mCameraID = c, mPayload = []\<rparr>]),
      OnDisconnect = None\<rparr>"

definition published_form :: "ipc_msg \<Rightarrow> bool" where
  "published_form m \<longleftrightarrow> msg_ok m \<and> (mKind m = KindFrame \<or> mKind m = KindOffline \<and> mPayload m = [])"

lemma published_form_ok: "list_all published_form ms \<Longrightarrow> list_all msg_ok ms"
  by (auto simp: published_form_def list_all_iff)

lemma dispatch_log_frames: "list_all published_form ms \<Longrightarrow> fold (ipc_dispatch log_frames) ms s = s @ ms"
proof (induction ms arbitrary: s)
  case Nil
  then show ?case by simp
next
  case (Cons m ms)
  have "KindFrame \<noteq> KindOffline" by (simp add: ipc_consts)
  with Cons show ?case
    by (cases m) (auto simp: published_form_def ipc_dispatch_def log_frames_def)
qed

lemma subseq_take: "subseq (take n xs) xs"
  by (metis append_take_drop_id list_emb_prefix subseq_order.order_refl)

subsection \<open>Properties\<close>

text \<open>publishing never blocks and never panics: it leaves the set of consumers as it is, a consumer
  whose channel has room gets the message queued last, and one whose channel is full keeps its backlog
  and loses the new message, whatever it is: a full consumer loses an offline notice like any frame.\<close>

theorem publish_never_blocks:
  assumes "consumers_ok p"
  shows "\<exists>p'. fanOut m p = Some p' \<and> consumers_ok p' \<and> subs p' = subs p \<and>
    (\<forall>i. cbuf (chans p' i) = cbuf (chans p i) @
       (if i \<in> set (subs p) \<and> length (cbuf (chans p i)) < ccap (chans p i) then [m] else []))"
proof -
  from fanOut_ok [OF assms] obtain p' where p': "fanOut m p = Some p'" "consumers_ok p'" "subs p' = subs p"
    "\<And>i. if i \<in> set (subs p) then offer_drop_newest m (chans p i) = Some (chans p' i) else chans p' i = chans p i"
    by blast
  have "cbuf (chans p' i) = cbuf (chans p i) @
       (if i \<in> set (subs p) \<and> length (cbuf (chans p i)) < ccap (chans p i) then [m] else [])" for i
    using p'(4) [of i] offer_drop_newest_cbuf [of m "chans p i" "chans p' i"] by (auto split: if_splits)
  with p' show ?thesis by blast
qed

definition one_consumer :: publisher where
  "one_consumer = snd (add_consumer Publisher_New)"

lemma one_consumer_ok: "consumers_ok one_consumer"
  by (simp add: consumers_ok_def one_consumer_def add_consumer_def subscribe_with_eq Publisher_New_def bcast_init_def)

theorem publish_never_blocks_witness:
  "\<exists>p'. fanOut sample_msg one_consumer = Some p' \<and> cbuf (chans p' 0) = [sample_msg]"
  using publish_never_blocks [OF one_consumer_ok, of sample_msg]
  by (auto simp: one_consumer_def add_consumer_def subscribe_with_eq Publisher_New_def bcast_init_def ipcChannelSize_def)

text \<open>C1: end to end over the IPC socket: in any interleaving of publishers and consumers, what a
  consumer's client decodes, even from a socket that breaks in the middle of a message, is a
  subsequence of the messages published since it connected, each one intact and in order.\<close>

theorem ipc_end_to_end:
  fixes s :: "(ipc_msg, unit) fansys"
  assumes reach: "fan_reach offer_drop_newest ipcChannelSize s"
    and served: "consumer_msgs es = take n (seen s i)" "serveConsumer es \<lparr>wsent = [], wroom = room\<rparr> = (d, w')"
    and form: "list_all published_form (seen s i)"
  shows "\<exists>got e. ipc_loop log_frames \<lparr>rbuf = wsent w', rend = t\<rparr> [] = (got, e) \<and> subseq got (offered s i) \<and>
    length (cbuf (chans (core s) i)) \<le> 64"
proof -
  let ?ms = "take n (seen s i)"
  from form have ok: "list_all published_form ?ms" by (rule list_all_take)
  from serveConsumer_prefix [OF served(2)] served(1) obtain k where
    w: "wsent w' = take k (stream_of msg_bytes ?ms)" by auto
  from ipc_loop_cut [OF published_form_ok [OF ok], of log_frames k t "[]"] obtain j e where
    l: "ipc_loop log_frames \<lparr>rbuf = wsent w', rend = t\<rparr> [] = (fold (ipc_dispatch log_frames) (take j ?ms) [], e)"
    unfolding w by blast
  from ok have "list_all published_form (take j ?ms)" by (rule list_all_take)
  from dispatch_log_frames [OF this, of "[]"] l have
    g: "ipc_loop log_frames \<lparr>rbuf = wsent w', rend = t\<rparr> [] = (take (min j n) (seen s i), e)" by simp
  have "subseq (seen s i) (offered s i)"
    using newest.fan_reach_safe(3) [OF reach, of i] list_emb_append_mono subseq_order.order_trans
      list_emb_prefix [OF subseq_order.order_refl] by metis
  with subseq_take have "subseq (take (min j n) (seen s i)) (offered s i)" by (rule subseq_order.order_trans)
  with g newest.fan_reach_safe(2) [OF reach, of i] show ?thesis by (auto simp: ipcChannelSize_def)
qed


definition consumer_sys :: "(ipc_msg, unit) fansys" where
  "consumer_sys = fansys_init Publisher_New"

definition consumer_sys_1 :: "(ipc_msg, unit) fansys" where
  "consumer_sys_1 = consumer_sys\<lparr>core := one_consumer, seen := (seen consumer_sys)(0 := []),
     offered := (offered consumer_sys)(0 := []), pending := [sample_msg]\<rparr>"

lemma consumer_sys_1_reach: "fan_reach offer_drop_newest ipcChannelSize consumer_sys_1"
proof -
  have 0: "fan_reach offer_drop_newest ipcChannelSize consumer_sys"
    unfolding consumer_sys_def by (rule fr_start) (simp_all add: Publisher_New_def bcast_init_def)
  have "subscribe_with ipcChannelSize (core consumer_sys) = (0, one_consumer)"
    by (simp add: consumer_sys_def fansys_init_def one_consumer_def add_consumer_def subscribe_with_eq
        Publisher_New_def bcast_init_def)
  from fr_step [OF fr_step [OF 0 fs_subscribe [OF this]] fs_begin [where v = sample_msg]]
  show ?thesis
    by (simp add: consumer_sys_1_def consumer_sys_def fansys_init_def Publisher_New_def bcast_init_def)
qed

lemma consumer_sees_sample:
  "\<exists>s :: (ipc_msg, unit) fansys. fan_reach offer_drop_newest ipcChannelSize s \<and> seen s 0 = [sample_msg]"
proof -
  let ?s = consumer_sys_1
  from fanOut_ok [OF one_consumer_ok, of sample_msg] obtain p where p: "fan offer_drop_newest sample_msg (core ?s) = Some p"
    "offer_drop_newest sample_msg (chans one_consumer 0) = Some (chans p 0)"
    by (auto simp: fanOut_def consumer_sys_1_def one_consumer_def add_consumer_def subscribe_with_eq
        Publisher_New_def bcast_init_def split: if_splits)
  have m: "sample_msg \<in> set (pending ?s)" by (simp add: consumer_sys_1_def)
  have c: "cbuf (chans p 0) = [sample_msg]"
    using offer_drop_newest_cbuf [OF p(2)]
    by (simp add: one_consumer_def add_consumer_def subscribe_with_eq Publisher_New_def bcast_init_def ipcChannelSize_def)
  from fr_step [OF consumer_sys_1_reach fs_fan [OF m p(1)]] obtain t where
    t: "fan_reach offer_drop_newest ipcChannelSize t" "core t = p" "seen t = seen ?s" by simp
  from c t(2) obtain q where "recv 0 (core t) = Some (sample_msg, q)" by (auto simp: recv_Some)
  note r = fr_step [OF t(1) fs_recv [OF this]]
  show ?thesis by (rule exI, rule conjI, rule r) (simp add: t(3) consumer_sys_1_def)
qed

theorem ipc_end_to_end_witness:
  "\<exists>got e. \<exists>s :: (ipc_msg, unit) fansys. ipc_loop log_frames \<lparr>rbuf = msg_bytes sample_msg, rend = EOF\<rparr> [] = (got, e) \<and> subseq got (offered s (0::nat))"
proof -
  from consumer_sees_sample obtain s :: "(ipc_msg, unit) fansys" where
    s: "fan_reach offer_drop_newest ipcChannelSize s" "seen s 0 = [sample_msg]" by blast
  have served: "serveConsumer [ConsumerMsg sample_msg] \<lparr>wsent = [], wroom = None\<rparr> =
      (False, \<lparr>wsent = msg_bytes sample_msg, wroom = None\<rparr>)"
    by (simp add: ipc_Write_def msg_bytes_def sample_msg_def)
  have form: "list_all published_form (seen s 0)"
    using s(2) sample_msg_ok by (simp add: published_form_def sample_msg_def)
  from ipc_end_to_end [OF s(1) _ served form, of 1 EOF] s(2) show ?thesis by auto
qed

end
