(* ===== verification/Backend_Server.thy ===== *)
theory Backend_Server
  imports Device_Proto Backend_Publisher "HOL-Library.Multiset"
begin

section \<open>The camera frame server (tcp-camera-backend/internal/server)\<close>

text \<open>
  One connection of a camera device: reading frames, dropping payloads that are not JPEGs, publishing
  the others, and announcing every camera of the connection as offline when it ends; the per-connection
  statistics; the accept loop with its backoff; and the shutdown of the open connections as a step
  relation. \<open>camconn\<close> interprets \<open>message_loop\<close> on the connection's loop. The iteration order of
  the map of seen cameras is a parameter.
\<close>

subsection \<open>Statistics\<close>

text \<open>The map \<open>byCamera\<close> as an association list with distinct keys.\<close>

type_synonym counts = "(camera_id \<times> u64) list"

fun stats_Record :: "camera_id \<Rightarrow> counts \<Rightarrow> counts" where
  "stats_Record c [] = [(c, 1)]"
| "stats_Record c ((d, n) # cs) = (if c = d then (d, n + 1) # cs else (d, n) # stats_Record c cs)"

definition join_parts :: "string \<Rightarrow> string list \<Rightarrow> string" where
  "join_parts sep ps = (case ps of [] \<Rightarrow> [] | p # qs \<Rightarrow> p @ concat (map (\<lambda>q. sep @ q) qs))"

definition formatCameraCounts :: "counts \<Rightarrow> string" where
  "formatCameraCounts cs =
     join_parts '', ''
       (map (\<lambda>c. ''camera='' @ format_uint (unat c) @ '' frames='' @
               format_uint (case map_of cs c of None \<Rightarrow> 0 | Some n \<Rightarrow> unat n))
         (sort (map fst cs)))"

definition logAndReset :: "counts \<Rightarrow> (u64 \<times> string) option \<times> counts" where
  "logAndReset cs =
     (if cs = [] then (None, cs)
      else (Some (sum_list (map snd cs), formatCameraCounts cs), []))"

datatype stats_op = StatRecord camera_id | StatTick

text \<open>\<open>frameStats.Run\<close> next to the connection's \<open>Record\<close> calls: the totals it logs.\<close>

fun stats_run :: "stats_op list \<Rightarrow> counts \<Rightarrow> u64 list \<times> counts" where
  "stats_run [] cs = ([], cs)"
| "stats_run (StatRecord c # ops) cs = stats_run ops (stats_Record c cs)"
| "stats_run (StatTick # ops) cs =
     (case logAndReset cs of
        (None, cs') \<Rightarrow> stats_run ops cs'
      | (Some (tot, line), cs') \<Rightarrow> (let (ts, cs'') = stats_run ops cs' in (tot # ts, cs'')))"

subsection \<open>Reading frames\<close>

datatype rf_error = RfHeader dev_error | RfPayloadSize dev_header | RfPayloadIO dev_header io_err

definition readFrame :: "u32 \<Rightarrow> reader \<Rightarrow> (rf_error + dev_header \<times> bytes) \<times> reader" where
  "readFrame maxFrameBytes r =
     (case ReadHeader r of
        (Inl e, r1) \<Rightarrow> (Inl (RfHeader e), r1)
      | (Inr header, r1) \<Rightarrow>
          if hPayloadSize header = 0 \<or> hPayloadSize header > maxFrameBytes
          then (Inl (RfPayloadSize header), r1)
          else case read_full (unat (hPayloadSize header)) r1 of
                 (Inl e, r2) \<Rightarrow> (Inl (RfPayloadIO header e), r2)
               | (Inr payload, r2) \<Rightarrow> (Inr (header, payload), r2))"

text \<open>\<open>errors.Is(err, io.EOF) || errors.Is(err, io.ErrUnexpectedEOF)\<close>\<close>

fun is_disconnect :: "rf_error \<Rightarrow> bool" where
  "is_disconnect (RfHeader (ReadHeaderIO e)) = (e = EOF \<or> e = UnexpectedEOF)"
| "is_disconnect (RfHeader (ReadCameraIDIO e)) = (e = EOF \<or> e = UnexpectedEOF)"
| "is_disconnect (RfPayloadIO h e) = (e = EOF \<or> e = UnexpectedEOF)"
| "is_disconnect _ = False"

subsection \<open>A connection\<close>

record 's pub_ops =
  opPublish :: "camera_id \<Rightarrow> bytes \<Rightarrow> 's \<Rightarrow> 's"
  opOffline :: "camera_id \<Rightarrow> 's \<Rightarrow> 's"

record 's conn_state =
  seenCameraIDs :: "camera_id list"
  connStats :: counts
  pubState :: 's

definition handle_frame :: "'s pub_ops option \<Rightarrow> dev_header \<times> bytes \<Rightarrow> 's conn_state \<Rightarrow> 's conn_state" where
  "handle_frame pub m st =
     (let (header, payload) = m
      in if \<not> LooksLikeJPEG payload then st
         else
           let st1 = st\<lparr>seenCameraIDs := List.insert (hCameraID header) (seenCameraIDs st)\<rparr>;
               st2 = (case pub of None \<Rightarrow> st1
                      | Some p \<Rightarrow> st1\<lparr>pubState := opPublish p (hCameraID header) payload (pubState st1)\<rparr>)
           in st2\<lparr>connStats := stats_Record (hCameraID header) (connStats st2)\<rparr>)"

lemma readFrame_consumes:
  "readFrame mx r = (Inr m, r') \<Longrightarrow> devHeaderSize + length (snd m) + length (rbuf r') \<le> length (rbuf r)"
  by (auto simp: readFrame_def res_iff split: prod.splits sum.splits if_splits dest!: ReadHeader_consumes)

function conn_loop :: "u32 \<Rightarrow> 's pub_ops option \<Rightarrow> reader \<Rightarrow> 's conn_state \<Rightarrow> 's conn_state \<times> rf_error" where
  "conn_loop mx pub r st =
     (case readFrame mx r of
        (Inl e, r') \<Rightarrow> (st, e)
      | (Inr m, r') \<Rightarrow> conn_loop mx pub r' (handle_frame pub m st))"
  by pat_completeness auto
termination
  by (relation "measure (\<lambda>(mx, p, r, st). length (rbuf r))")
    (auto dest!: readFrame_consumes [OF sym] simp: devHeaderSize_def)

declare conn_loop.simps [simp del]

text \<open>The whole handler: its loop and the deferred offline notices. The result also tells whether
  the error was logged.\<close>

definition handleConnection ::
  "u32 \<Rightarrow> 's pub_ops option \<Rightarrow> (camera_id list \<Rightarrow> camera_id list) \<Rightarrow> reader \<Rightarrow> 's \<Rightarrow> 's \<times> bool" where
  "handleConnection mx pub order r s =
     (let (st, e) = conn_loop mx pub r \<lparr>seenCameraIDs = [], connStats = [], pubState = s\<rparr>
      in (case pub of None \<Rightarrow> pubState st | Some p \<Rightarrow> fold (opOffline p) (order (seenCameraIDs st)) (pubState st),
          \<not> is_disconnect e))"

subsection \<open>The accept loop\<close>

definition minAcceptBackoff :: int where "minAcceptBackoff = 5 * millisecond"
definition maxAcceptBackoff :: int where "maxAcceptBackoff = second"
definition maxConsecutiveAcceptFailures :: nat where "maxConsecutiveAcceptFailures = 64"

text \<open>\<open>AcceptFail err ctx_done cancelled\<close>: the context was done when the accept failed, and
  whether it was cancelled during the wait.\<close>

datatype accept_event = AcceptConn | AcceptFail nat bool bool
datatype accept_result = StillAccepting | ReturnedNil | GaveUp nat nat

fun accept_loop :: "accept_event list \<Rightarrow> nat \<Rightarrow> int \<Rightarrow> int list \<times> nat \<times> accept_result" where
  "accept_loop [] failures backoff = ([], 0, StillAccepting)"
| "accept_loop (AcceptFail err ctx_done cancelled # es) failures backoff =
     (if ctx_done then ([], 0, ReturnedNil)
      else
        let failures' = failures + 1
        in if failures' \<ge> maxConsecutiveAcceptFailures then ([], 0, GaveUp failures' err)
           else if cancelled then ([backoff], 0, ReturnedNil)
           else let (waits, conns, res) = accept_loop es failures' (min (i64 (backoff * 2)) maxAcceptBackoff)
                in (backoff # waits, conns, res))"
| "accept_loop (AcceptConn # es) failures backoff =
     (let (waits, conns, res) = accept_loop es 0 minAcceptBackoff in (waits, conns + 1, res))"

subsection \<open>Shutdown\<close>

text \<open>
  \<open>accepted\<close> is a connection that \<open>Accept\<close> returned and the loop has not yet registered,
  \<open>conns\<close> the registered ones whose handler runs, \<open>sclosed\<close> the ones that the shutdown
  goroutine closed, after it closed the listener.
\<close>

record srv_life =
  ctx_done :: bool
  swept :: bool
  accepted :: "nat option"
  conns :: "nat list"
  sclosed :: "nat list"
  nextconn :: nat

definition life_init :: srv_life where
  "life_init = \<lparr>ctx_done = False, swept = False, accepted = None, conns = [], sclosed = [], nextconn = 0\<rparr>"

inductive life_step :: "srv_life \<Rightarrow> srv_life \<Rightarrow> bool" where
  ls_accept: "\<not> swept s \<Longrightarrow> accepted s = None \<Longrightarrow>
    life_step s (s\<lparr>accepted := Some (nextconn s), nextconn := Suc (nextconn s)\<rparr>)"
| ls_register: "accepted s = Some c \<Longrightarrow> life_step s (s\<lparr>accepted := None, conns := c # conns s\<rparr>)"
| ls_cancel: "life_step s (s\<lparr>ctx_done := True\<rparr>)"
| ls_sweep: "ctx_done s \<Longrightarrow> \<not> swept s \<Longrightarrow> life_step s (s\<lparr>swept := True, sclosed := conns s\<rparr>)"
| ls_finish: "c \<in> set (conns s) \<Longrightarrow> life_step s (s\<lparr>conns := remove1 c (conns s)\<rparr>)"

inductive_cases life_stepE: "life_step s t"

inductive life_reach :: "srv_life \<Rightarrow> bool" where
  lr_init: "life_reach life_init"
| lr_step: "life_reach s \<Longrightarrow> life_step s t \<Longrightarrow> life_reach t"

definition left_open :: "srv_life \<Rightarrow> nat list" where
  "left_open s = filter (\<lambda>c. c \<notin> set (sclosed s)) (conns s)"

definition life_inv :: "srv_life \<Rightarrow> bool" where
  "life_inv s \<longleftrightarrow> (swept s \<longrightarrow> length (left_open s) + (if accepted s = None then 0 else 1) \<le> 1)"

lemma length_filter_remove1: "length (filter P (remove1 c xs)) \<le> length (filter P xs)"
  by (induction xs) auto

lemma life_inv_step: "life_step s t \<Longrightarrow> life_inv s \<Longrightarrow> life_inv t"
proof (induction rule: life_step.induct)
  case (ls_finish c s)
  with length_filter_remove1 [of "\<lambda>c. c \<notin> set (sclosed s)" c "conns s"]
  show ?case by (cases "accepted s") (auto simp: life_inv_def left_open_def simp del: filter_remove1)
qed (auto simp: life_inv_def left_open_def)

lemma life_reach_inv: "life_reach s \<Longrightarrow> life_inv s"
proof (induction rule: life_reach.induct)
  case lr_init
  then show ?case by (simp add: life_inv_def life_init_def)
next
  case (lr_step s t)
  with life_inv_step show ?case by blast
qed

subsection \<open>The codec contract\<close>

definition dev_frame_bytes :: "(dev_header \<times> bytes \<Rightarrow> bool) \<Rightarrow> dev_header \<times> bytes \<Rightarrow> bytes" where
  "dev_frame_bytes legacy m = header_bytes (legacy m) (fst m) @ snd m"

definition dev_frame_ok :: "(dev_header \<times> bytes \<Rightarrow> bool) \<Rightarrow> u32 \<Rightarrow> dev_header \<times> bytes \<Rightarrow> bool" where
  "dev_frame_ok legacy mx m \<longleftrightarrow> (legacy m \<longrightarrow> hCameraID (fst m) = DefaultCameraID) \<and>
     snd m \<noteq> [] \<and> unat (hPayloadSize (fst m)) = length (snd m) \<and> length (snd m) \<le> unat mx"

lemma readFrame_header:
  "dev_frame_ok legacy mx m \<Longrightarrow>
     readFrame mx \<lparr>rbuf = header_bytes (legacy m) (fst m) @ rest, rend = t\<rparr> =
       (case read_full (length (snd m)) \<lparr>rbuf = rest, rend = t\<rparr> of
          (Inl e, r2) \<Rightarrow> (Inl (RfPayloadIO (fst m) e), r2)
        | (Inr payload, r2) \<Rightarrow> (Inr (fst m, payload), r2))"
  using ReadHeader_header_bytes [of "legacy m" "fst m" rest t]
  by (auto simp: readFrame_def dev_frame_ok_def word_less_nat_alt simp flip: unat_eq_0)

interpretation devframes: codec "dev_frame_bytes legacy" "readFrame mx" "dev_frame_ok legacy mx" for legacy mx
proof unfold_locales
  fix m rest t
  assume "dev_frame_ok legacy mx m"
  then show "readFrame mx \<lparr>rbuf = dev_frame_bytes legacy m @ rest, rend = t\<rparr> = (Inr m, \<lparr>rbuf = rest, rend = t\<rparr>)"
    using readFrame_header [of legacy mx m "snd m @ rest" t] by (simp add: dev_frame_bytes_def)
next
  fix m k t
  assume ok: "dev_frame_ok legacy mx m" and k: "k < length (dev_frame_bytes legacy m)"
  show "\<exists>e r. readFrame mx \<lparr>rbuf = take k (dev_frame_bytes legacy m), rend = t\<rparr> = (Inl e, r)"
  proof (cases "k < length (header_bytes (legacy m) (fst m))")
    case True
    with ReadHeader_cut [OF True, of t] show ?thesis by (auto simp: readFrame_def dev_frame_bytes_def)
  next
    case False
    let ?h = "header_bytes (legacy m) (fst m)"
    let ?p = "take (k - length ?h) (snd m)"
    from False have "take k (dev_frame_bytes legacy m) = ?h @ ?p" by (simp add: dev_frame_bytes_def)
    moreover from k False have "length (rbuf \<lparr>rbuf = ?p, rend = t\<rparr>) < length (snd m)"
      by (simp add: dev_frame_bytes_def)
    from read_full_short [OF this] obtain e where
      "read_full (length (snd m)) \<lparr>rbuf = ?p, rend = t\<rparr> = (Inl e, \<lparr>rbuf = [], rend = t\<rparr>)" by auto
    ultimately show ?thesis using readFrame_header [OF ok, of ?p t] by simp
  qed
qed

interpretation camconn: message_loop "dev_frame_bytes legacy" "readFrame mx" "dev_frame_ok legacy mx"
    "handle_frame pub" "conn_loop mx pub" for legacy mx pub
  by unfold_locales (rule conn_loop.simps)


subsection \<open>Lemmas\<close>

definition jpegs :: "(dev_header \<times> bytes) list \<Rightarrow> (camera_id \<times> bytes) list" where
  "jpegs ms = map (\<lambda>(h, p). (hCameraID h, p)) (filter (\<lambda>(h, p). LooksLikeJPEG p) ms)"

lemma fold_handle_frame:
  "pubState (fold (handle_frame (Some p)) ms st) = fold (\<lambda>(c, j). opPublish p c j) (jpegs ms) (pubState st) \<and>
   set (seenCameraIDs (fold (handle_frame pub) ms st)) = set (seenCameraIDs st) \<union> fst ` set (jpegs ms) \<and>
   (distinct (seenCameraIDs st) \<longrightarrow> distinct (seenCameraIDs (fold (handle_frame pub) ms st)))"
proof (induction ms arbitrary: st)
  case Nil
  then show ?case by (simp add: jpegs_def)
next
  case (Cons m ms)
  obtain h q where m: "m = (h, q)" by (cases m)
  have i: "set (seenCameraIDs (handle_frame pub m st)) = set (seenCameraIDs st) \<union> fst ` set (jpegs [m])"
    "distinct (seenCameraIDs st) \<Longrightarrow> distinct (seenCameraIDs (handle_frame pub m st))"
    by (auto simp: handle_frame_def jpegs_def m Let_def split: option.split)
  have j: "jpegs (m # ms) = jpegs [m] @ jpegs ms" by (simp add: jpegs_def)
  have p: "pubState (handle_frame (Some p) m st) = fold (\<lambda>(c, j). opPublish p c j) (jpegs [m]) (pubState st)"
    by (simp add: handle_frame_def jpegs_def m Let_def)
  from Cons.IH [of "handle_frame (Some p) m st"] Cons.IH [of "handle_frame pub m st"] i p j show ?case by auto
qed

lemma conn_loop_cut:
  assumes "list_all (dev_frame_ok legacy mx) ms"
  shows "\<exists>n e. n \<le> length ms \<and>
    conn_loop mx pub \<lparr>rbuf = take k (stream_of (dev_frame_bytes legacy) ms), rend = t\<rparr> st =
      (fold (handle_frame pub) (take n ms) st, e) \<and>
    (length (stream_of (dev_frame_bytes legacy) ms) \<le> k \<longrightarrow> n = length ms)"
proof (cases "k < length (stream_of (dev_frame_bytes legacy) ms)")
  case True
  from camconn.loop_cut [OF assms True, of pub t st] True show ?thesis
    by (metis less_imp_le linorder_not_le)
next
  case False
  obtain e r where "readFrame mx \<lparr>rbuf = [], rend = t\<rparr> = (Inl e, r)"
    by (simp add: readFrame_def ReadHeader_def read_full_def devHeaderSize_def)
  then have "conn_loop mx pub \<lparr>rbuf = [], rend = t\<rparr> u = (u, e)" for u by (simp add: conn_loop.simps)
  with camconn.loop_stream [OF assms, of pub "[]" t st] False show ?thesis
    by (intro exI [of _ "length ms"] exI [of _ e]) simp
qed

definition frame_msg :: "camera_id \<times> bytes \<Rightarrow> ipc_msg" where
  "frame_msg cj = \<lparr>mKind = KindFrame, mCameraID = fst cj, mPayload = snd cj\<rparr>"

definition offline_msg :: "camera_id \<Rightarrow> ipc_msg" where
  "offline_msg c = \<lparr>mKind = KindOffline, mCameraID = c, mPayload = []\<rparr>"

definition real_publisher :: "pub_state pub_ops" where
  "real_publisher = \<lparr>opPublish = pub_publish, opOffline = pub_offline\<rparr>"

lemma sum_stats_Record: "sum_list (map snd (stats_Record c cs)) = sum_list (map snd cs) + 1"
  by (induction c cs rule: stats_Record.induct) (auto simp: algebra_simps)

lemma distinct_stats_Record:
  "fst ` set (stats_Record c cs) = insert c (fst ` set cs) \<and>
     (distinct (map fst cs) \<longrightarrow> distinct (map fst (stats_Record c cs)))"
  by (induction c cs rule: stats_Record.induct) auto

lemma doubling_cap:
  assumes "0 < (b::int)" "b \<le> m"
  shows "min (min (b * 2) m * 2 ^ i) m = min (b * 2 ^ Suc i) m"
proof (cases "b * 2 \<le> m")
  case True
  then show ?thesis by (simp add: mult.assoc)
next
  case False
  have one: "1 \<le> (2::int) ^ i" by simp
  from mult_left_mono [OF one, of m] assms have "m \<le> m * 2 ^ i" by simp
  moreover have "m \<le> b * 2 ^ Suc i"
  proof -
    from assms have "0 \<le> b * 2" by simp
    from mult_left_mono [OF one this] have "b * 2 \<le> b * 2 * 2 ^ i" by simp
    moreover have "b * 2 ^ Suc i = b * 2 * 2 ^ i" by simp
    ultimately show ?thesis using False by linarith
  qed
  ultimately have "m \<le> m * 2 ^ i" "m \<le> b * 2 ^ Suc i" .
  with False show ?thesis by simp
qed

lemma accept_fails:
  "f + length es < maxConsecutiveAcceptFailures \<Longrightarrow> 0 < b \<Longrightarrow> b \<le> maxAcceptBackoff \<Longrightarrow>
   accept_loop (map (\<lambda>e. AcceptFail e False False) es @ evs) f b =
     (let (w, c, r) = accept_loop evs (f + length es) (min (b * 2 ^ length es) maxAcceptBackoff)
      in (map (\<lambda>i. min (b * 2 ^ i) maxAcceptBackoff) [0..<length es] @ w, c, r))"
proof (induction es arbitrary: f b)
  case Nil
  then show ?case by simp
next
  case (Cons e es)
  let ?b = "min (b * 2) maxAcceptBackoff"
  from Cons.prems have i: "i64 (b * 2) = b * 2"
    by (intro i64_id) (simp add: in_i64_def maxAcceptBackoff_def second_def)
  from Cons.prems have b: "Suc f + length es < maxConsecutiveAcceptFailures" "0 < ?b" "?b \<le> maxAcceptBackoff"
    by (auto simp: maxAcceptBackoff_def second_def)
  note m = doubling_cap [OF Cons.prems(2,3)]
  have u: "[0..<Suc (length es)] = 0 # map Suc [0..<length es]"
    by (simp only: map_Suc_upt upt_conv_Cons [of 0] zero_less_Suc)
  have step: "accept_loop (AcceptFail e False False # es') f b =
      (let (w, c, r) = accept_loop es' (Suc f) ?b in (b # w, c, r))" for es'
    using Cons.prems(1) by (simp add: i)
  have p: "min (?b * 2 ^ length es) maxAcceptBackoff = min (b * 2 ^ length (e # es)) maxAcceptBackoff"
    by (simp only: m list.size add_Suc_right add_0_right)
  have l: "map (\<lambda>i. min (b * 2 ^ i) maxAcceptBackoff) [0..<length (e # es)] =
      b # map (\<lambda>i. min (?b * 2 ^ i) maxAcceptBackoff) [0..<length es]"
    using Cons.prems(3) by (simp only: u m list.size add_Suc_right add_0_right list.map map_map comp_def) simp
  show ?case
    unfolding list.map append_Cons step Cons.IH [OF b] p l by (simp add: split_beta Let_def)
qed

subsection \<open>Properties\<close>

lemma connection_result:
  assumes "list_all (dev_frame_ok legacy mx) ms" and "\<And>xs. mset (order xs) = mset xs"
  shows "\<exists>n offs logged. n \<le> length ms \<and>
    (length (stream_of (dev_frame_bytes legacy) ms) \<le> k \<longrightarrow> n = length ms) \<and>
    handleConnection mx (Some real_publisher) order
      \<lparr>rbuf = take k (stream_of (dev_frame_bytes legacy) ms), rend = t\<rparr> s =
      (fold pub_offline offs (fold (\<lambda>(c, j). pub_publish c j) (jpegs (take n ms)) s), logged) \<and>
    distinct offs \<and> set offs = fst ` set (jpegs (take n ms))"
proof -
  let ?st0 = "\<lparr>seenCameraIDs = [], connStats = [], pubState = s\<rparr>"
  note cut = conn_loop_cut [OF assms(1), of "Some real_publisher" k t ?st0]
  note fh = fold_handle_frame [where p = real_publisher and pub = "Some real_publisher"]
  from cut obtain n e where n: "n \<le> length ms"
    "length (stream_of (dev_frame_bytes legacy) ms) \<le> k \<longrightarrow> n = length ms"
    "conn_loop mx (Some real_publisher) \<lparr>rbuf = take k (stream_of (dev_frame_bytes legacy) ms), rend = t\<rparr> ?st0 =
      (fold (handle_frame (Some real_publisher)) (take n ms) ?st0, e)" by blast
  define fin where "fin = fold (handle_frame (Some real_publisher)) (take n ms) ?st0"
  from fh [of "take n ms" ?st0] have fin: "distinct (seenCameraIDs fin)"
    "set (seenCameraIDs fin) = fst ` set (jpegs (take n ms))"
    "pubState fin = fold (\<lambda>(c, j). pub_publish c j) (jpegs (take n ms)) s"
    by (auto simp: fin_def real_publisher_def)
  let ?offs = "order (seenCameraIDs fin)"
  from fin assms(2) [of "seenCameraIDs fin"] have offs: "distinct ?offs" "set ?offs = fst ` set (jpegs (take n ms))"
    by (metis mset_eq_imp_distinct_iff, metis mset_eq_setD)
  have "handleConnection mx (Some real_publisher) order
      \<lparr>rbuf = take k (stream_of (dev_frame_bytes legacy) ms), rend = t\<rparr> s =
      (fold pub_offline ?offs (pubState fin), \<not> is_disconnect e)"
    using n(3) by (simp add: handleConnection_def real_publisher_def fin_def)
  with n(1,2) offs fin(3) show ?thesis
    by (intro exI [of _ n] exI [of _ ?offs] exI [of _ "\<not> is_disconnect e"]) simp
qed


text \<open>a frame that announces an empty or oversized payload ends the connection before any of its
  payload is read or allocated, whatever the bytes are; and every accepted frame is within the limit.\<close>

theorem payload_size_enforced:
  "(ReadHeader r = (Inr h, r1) \<longrightarrow> hPayloadSize h = 0 \<or> hPayloadSize h > mx \<longrightarrow>
      readFrame mx r = (Inl (RfPayloadSize h), r1)) \<and>
   (readFrame mx r = (Inr (h, p), r2) \<longrightarrow> p \<noteq> [] \<and> length p = unat (hPayloadSize h) \<and> length p \<le> unat mx)"
  by (auto simp: readFrame_def res_iff word_less_nat_alt not_less unat_eq_0
      split: prod.splits sum.splits if_splits)

text \<open>accepting connections survives failures with exponential backoff: fewer than 64 consecutive
  failures never end the server, their waits double from 5 ms up to a second, and a success starts over;
  the 64th gives up, after waits of 56.275 seconds in total.\<close>

theorem accept_backoff:
  assumes "length es < maxConsecutiveAcceptFailures"
  shows "accept_loop (map (\<lambda>e. AcceptFail e False False) es) 0 minAcceptBackoff =
      (map (\<lambda>i. min (minAcceptBackoff * 2 ^ i) second) [0..<length es], 0, StillAccepting) \<and>
    accept_loop (AcceptConn # evs) f b = (let (w, c, r) = accept_loop evs 0 minAcceptBackoff in (w, c + 1, r)) \<and>
    (length es = 63 \<longrightarrow>
      fst (accept_loop (map (\<lambda>e. AcceptFail e False False) (es @ [e'])) 0 minAcceptBackoff) =
        map (\<lambda>i. min (minAcceptBackoff * 2 ^ i) second) [0..<63] \<and>
      snd (snd (accept_loop (map (\<lambda>e. AcceptFail e False False) (es @ [e'])) 0 minAcceptBackoff)) = GaveUp 64 e') \<and>
    sum_list (map (\<lambda>i. min (minAcceptBackoff * 2 ^ i) second) [0..<63]) = 56275 * millisecond"
proof (intro conjI impI)
  have b: "0 < minAcceptBackoff" "minAcceptBackoff \<le> maxAcceptBackoff"
    by (simp_all add: minAcceptBackoff_def maxAcceptBackoff_def time_units)
  note run = accept_fails [of 0, OF _ b]
  from run [of es "[]"] assms show "accept_loop (map (\<lambda>e. AcceptFail e False False) es) 0 minAcceptBackoff =
      (map (\<lambda>i. min (minAcceptBackoff * 2 ^ i) second) [0..<length es], 0, StillAccepting)"
    by (simp add: maxAcceptBackoff_def)
  show "accept_loop (AcceptConn # evs) f b = (let (w, c, r) = accept_loop evs 0 minAcceptBackoff in (w, c + 1, r))"
    by simp
  assume l: "length es = 63"
  from run [of es "[AcceptFail e' False False]"] assms l
  show "fst (accept_loop (map (\<lambda>e. AcceptFail e False False) (es @ [e'])) 0 minAcceptBackoff) =
        map (\<lambda>i. min (minAcceptBackoff * 2 ^ i) second) [0..<63]"
    "snd (snd (accept_loop (map (\<lambda>e. AcceptFail e False False) (es @ [e'])) 0 minAcceptBackoff)) = GaveUp 64 e'"
    by (simp_all add: maxAcceptBackoff_def maxConsecutiveAcceptFailures_def del: upt_Suc)
next
  have "[0..<63] = [0..<8] @ [8..<(63::nat)]" using upt_add_eq_append [of 0 8 55] by (simp del: upt_Suc upt_rec_numeral)
  moreover have "sum_list (map (\<lambda>i. min (minAcceptBackoff * 2 ^ i) second) [0..<8]) = 1275 * millisecond"
    by (simp add: upt_conv_Cons minAcceptBackoff_def time_units)
  moreover have "map (\<lambda>i. min (minAcceptBackoff * 2 ^ i) second) [8..<63] = map (\<lambda>i. second) [8..<63]"
  proof (rule map_cong [OF refl])
    fix i :: nat
    assume "i \<in> set [8..<63]"
    then have "(2::int) ^ 8 \<le> 2 ^ i" by (intro power_increasing) auto
    then show "min (minAcceptBackoff * 2 ^ i) second = second"
      by (simp add: minAcceptBackoff_def time_units)
  qed
  ultimately show "sum_list (map (\<lambda>i. min (minAcceptBackoff * 2 ^ i) second) [0..<63]) = 56275 * millisecond"
    by (simp add: sum_list_triv time_units map_replicate_const del: upt_Suc)
qed


theorem accept_backoff_witness:
  "accept_loop (map (\<lambda>e. AcceptFail e False False) [7, 7]) 0 minAcceptBackoff =
     ([5 * millisecond, 10 * millisecond], 0, StillAccepting)"
  using accept_backoff [of "[7, 7]"]
  by (simp add: maxConsecutiveAcceptFailures_def minAcceptBackoff_def time_units upt_conv_Cons)

definition sample_dev :: "dev_header \<times> bytes" where
  "sample_dev = (\<lparr>hCameraID = 17, hSequence = 1, hPayloadSize = 5, hTimestampMs = 9\<rparr>, [0xFF, 0xD8, 0xAA, 0xFF, 0xD9])"

definition sample_devs :: "(dev_header \<times> bytes) list" where
  "sample_devs = [sample_dev, sample_dev]"

lemma sample_devs_ok: "list_all (dev_frame_ok (\<lambda>_. False) 1000) sample_devs"
  by (simp add: dev_frame_ok_def sample_dev_def sample_devs_def)

lemma pub_good_new: "pub_good ([], Some Publisher_New)"
  by (simp add: pub_good_def consumers_ok_def Publisher_New_def bcast_init_def)

lemma distinct_singleton: "distinct xs \<Longrightarrow> set xs = {a} \<Longrightarrow> xs = [a]"
proof (cases xs)
  case (Cons y ys)
  assume d: "distinct xs" and s: "set xs = {a}"
  with Cons have "y = a" "a \<notin> set ys" "set ys \<subseteq> {a}" by auto
  then have "set ys = {}" by (metis subset_singletonD insertI1)
  with Cons \<open>y = a\<close> show ?thesis by simp
qed simp


theorem payload_size_enforced_witness:
  "readFrame 4 \<lparr>rbuf = header_bytes False (fst sample_dev) @ [1, 2], rend = EOF\<rparr> =
     (Inl (RfPayloadSize (fst sample_dev)), \<lparr>rbuf = [1, 2], rend = EOF\<rparr>)"
  using payload_size_enforced [of "\<lparr>rbuf = header_bytes False (fst sample_dev) @ [1, 2], rend = EOF\<rparr>"
      "fst sample_dev" "\<lparr>rbuf = [1, 2], rend = EOF\<rparr>" 4]
    ReadHeader_header_bytes [of False "fst sample_dev" "[1, 2]" EOF]
  by (simp add: sample_dev_def)

definition life_leak :: srv_life where
  "life_leak = \<lparr>ctx_done = True, swept = True, accepted = None, conns = [0], sclosed = [], nextconn = 1\<rparr>"

lemma life_leak_reach: "life_reach life_leak"
proof -
  let ?s1 = "life_init\<lparr>accepted := Some 0, nextconn := 1\<rparr>"
  have "life_step life_init ?s1" using ls_accept [of life_init] by (simp add: life_init_def)
  with lr_init have 1: "life_reach ?s1" by (rule lr_step)
  have 2: "life_reach (?s1\<lparr>ctx_done := True\<rparr>)" by (rule lr_step [OF 1 ls_cancel])
  have "life_step (?s1\<lparr>ctx_done := True\<rparr>) (?s1\<lparr>ctx_done := True, swept := True\<rparr>)"
    using ls_sweep [of "?s1\<lparr>ctx_done := True\<rparr>"] by (simp add: life_init_def)
  with 2 have 3: "life_reach (?s1\<lparr>ctx_done := True, swept := True\<rparr>)" by (rule lr_step)
  have "life_step (?s1\<lparr>ctx_done := True, swept := True\<rparr>) life_leak"
    using ls_register [of "?s1\<lparr>ctx_done := True, swept := True\<rparr>" 0] by (simp add: life_init_def life_leak_def)
  with 3 show ?thesis by (rule lr_step)
qed



text \<open>the per-connection statistics lose and invent nothing: what the ticks logged and what is still
  counted add up to the number of frames recorded (counters are 64 bits wide), and one tick's line names
  each camera once.\<close>

theorem stats_conserve:
  assumes "stats_run ops cs = (totals, cs')" and "distinct (map fst cs)"
  shows "sum_list totals + sum_list (map snd cs') =
      sum_list (map snd cs) + of_nat (length (filter (\<lambda>op. op \<noteq> StatTick) ops)) \<and> distinct (map fst cs')"
  using assms
proof (induction ops cs arbitrary: totals rule: stats_run.induct)
  case (2 c ops cs)
  from 2 distinct_stats_Record [of c cs] sum_stats_Record [of c cs] show ?case by (simp add: algebra_simps)
next
  case (3 ops cs)
  then show ?case
    by (auto simp: logAndReset_def algebra_simps split: if_splits prod.splits)
qed auto

theorem stats_conserve_witness:
  "\<exists>totals cs'. stats_run [StatRecord 3, StatRecord 1, StatTick, StatRecord 3] [] = (totals, cs') \<and>
     sum_list totals + sum_list (map snd cs') = 3"
proof -
  obtain totals cs' where r: "stats_run [StatRecord 3, StatRecord 1, StatTick, StatRecord 3] [] = (totals, cs')"
    by fastforce
  from stats_conserve [OF r] r show ?thesis by auto
qed

end
