(* ===== verification/Publisher_Life.thy ===== *)
theory Publisher_Life
  imports Backend_Publisher
begin

section \<open>The life of the IPC publisher (tcp-camera-backend/internal/publisher)\<close>

text \<open>
  The goroutines of the publisher and what its shutdown waits for: the accept loop of \<open>Listen\<close>, the goroutine that
  closes the listener and the connections when the context is done, and \<open>serveConsumer\<close> for each consumer, with the
  cameras' goroutines publishing in between. A write to a consumer that has stopped reading, and whose socket buffer
  is full, ends when its connection is closed, or when that consumer reads on or goes away: \<open>cnReads\<close> says whether
  a write to it would end.
\<close>

subsection \<open>Goroutines\<close>

datatype serve_turn = AtSelect | Writing | Leaving | Gone

record consumer_life =
  cnTurn :: serve_turn
  cnQueue :: "ipc_msg list"
  cnClosed :: bool
  cnReads :: bool

datatype listen_turn = Accepting | Holding bool | Waiting | Listened

record pub_life =
  pbDone :: bool
  pbOpen :: bool
  pbSwept :: bool
  pbTurn :: listen_turn
  pbConsumers :: "consumer_life list"

definition pub_life_start :: pub_life where
  "pub_life_start = \<lparr>pbDone = False, pbOpen = True, pbSwept = False, pbTurn = Accepting, pbConsumers = []\<rparr>"

text \<open>\<open>serveConsumer\<close>: its \<open>select\<close> may take a message although the context is done.\<close>

inductive consumer_step :: "bool \<Rightarrow> consumer_life \<Rightarrow> consumer_life \<Rightarrow> bool" where
  cs_done: "cnTurn c = AtSelect \<Longrightarrow> consumer_step True c (c\<lparr>cnTurn := Leaving\<rparr>)"
| cs_next: "cnTurn c = AtSelect \<Longrightarrow> cnQueue c = m # q \<Longrightarrow> consumer_step d c (c\<lparr>cnTurn := Writing, cnQueue := q\<rparr>)"
| cs_written: "cnTurn c = Writing \<Longrightarrow> cnReads c \<Longrightarrow> \<not> cnClosed c \<Longrightarrow> consumer_step d c (c\<lparr>cnTurn := AtSelect\<rparr>)"
| cs_failed: "cnTurn c = Writing \<Longrightarrow> cnReads c \<or> cnClosed c \<Longrightarrow> consumer_step d c (c\<lparr>cnTurn := Leaving\<rparr>)"
| cs_leave: "cnTurn c = Leaving \<Longrightarrow> consumer_step d c (c\<lparr>cnTurn := Gone, cnClosed := True\<rparr>)"

inductive_simps consumer_step_iff: "consumer_step d c c'"

definition close_conn :: "consumer_life \<Rightarrow> consumer_life" where
  "close_conn c = (if cnTurn c = Gone then c else c\<lparr>cnClosed := True\<rparr>)"

definition offer_msg :: "ipc_msg \<Rightarrow> consumer_life \<Rightarrow> consumer_life" where
  "offer_msg m c =
     (if cnTurn c \<noteq> Gone \<and> length (cnQueue c) < ipcChannelSize then c\<lparr>cnQueue := cnQueue c @ [m]\<rparr> else c)"

text \<open>The steps of the publisher's own goroutines. \<open>Accept\<close> may fail while the listener is open, too.\<close>

inductive pub_own :: "pub_life \<Rightarrow> pub_life \<Rightarrow> bool" where
  po_close: "pbDone l \<Longrightarrow> pbOpen l \<Longrightarrow> pub_own l (l\<lparr>pbOpen := False\<rparr>)"
| po_sweep: "pbDone l \<Longrightarrow> \<not> pbOpen l \<Longrightarrow> \<not> pbSwept l \<Longrightarrow>
    pub_own l (l\<lparr>pbSwept := True, pbConsumers := map close_conn (pbConsumers l)\<rparr>)"
| po_accept: "pbTurn l = Accepting \<Longrightarrow> pbOpen l \<Longrightarrow> pub_own l (l\<lparr>pbTurn := Holding r\<rparr>)"
| po_register: "pbTurn l = Holding r \<Longrightarrow> pub_own l (l\<lparr>pbTurn := Accepting,
    pbConsumers := pbConsumers l @ [\<lparr>cnTurn = AtSelect, cnQueue = [], cnClosed = False, cnReads = r\<rparr>]\<rparr>)"
| po_fail: "pbTurn l = Accepting \<Longrightarrow> pbDone l \<Longrightarrow> pub_own l (l\<lparr>pbTurn := Waiting, pbOpen := False\<rparr>)"
| po_return: "pbTurn l = Waiting \<Longrightarrow> list_all (\<lambda>c. cnTurn c = Gone) (pbConsumers l) \<Longrightarrow> pub_own l (l\<lparr>pbTurn := Listened\<rparr>)"
| po_consumer: "i < length (pbConsumers l) \<Longrightarrow> consumer_step (pbDone l) (pbConsumers l ! i) c \<Longrightarrow>
    pub_own l (l\<lparr>pbConsumers := (pbConsumers l)[i := c]\<rparr>)"

text \<open>What happens to it.\<close>

inductive pub_env :: "pub_life \<Rightarrow> pub_life \<Rightarrow> bool" where
  pe_cancel: "pub_env l (l\<lparr>pbDone := True\<rparr>)"
| pe_publish: "pub_env l (l\<lparr>pbConsumers := map (offer_msg m) (pbConsumers l)\<rparr>)"
| pe_peer: "i < length (pbConsumers l) \<Longrightarrow>
    pub_env l (l\<lparr>pbConsumers := (pbConsumers l)[i := (pbConsumers l ! i)\<lparr>cnReads := b\<rparr>]\<rparr>)"

definition pub_reach :: "pub_life \<Rightarrow> bool" where
  "pub_reach l \<longleftrightarrow> (\<lambda>a b. pub_own a b \<or> pub_env a b)\<^sup>*\<^sup>* pub_life_start l"

subsection \<open>The publisher it moves\<close>

text \<open>Every step changes the consumers map and the channels by an operation of the publisher, or not at all.\<close>

definition registered :: "consumer_life list \<Rightarrow> nat list" where
  "registered cs = filter (\<lambda>i. cnTurn (cs ! i) \<noteq> Gone) (rev [0..<length cs])"

definition pub_of :: "consumer_life list \<Rightarrow> publisher" where
  "pub_of cs =
     \<lparr>latest = None,
      chans = (\<lambda>i. if i < length cs then \<lparr>ccap = ipcChannelSize, cbuf = cnQueue (cs ! i), cclosed = False\<rparr> else make_chan 0),
      subs = registered cs, nextc = length cs\<rparr>"

lemma registered_cong:
  "length cs = length ds \<Longrightarrow> (\<And>i. i < length cs \<Longrightarrow> (cnTurn (cs ! i) = Gone) = (cnTurn (ds ! i) = Gone)) \<Longrightarrow>
     registered cs = registered ds"
  unfolding registered_def by (intro filter_cong) auto

lemma registered_snoc: "cnTurn c \<noteq> Gone \<Longrightarrow> registered (cs @ [c]) = length cs # registered cs"
proof -
  assume c: "cnTurn c \<noteq> Gone"
  have "filter (\<lambda>i. cnTurn ((cs @ [c]) ! i) \<noteq> Gone) (rev [0..<length cs]) = registered cs"
    unfolding registered_def by (intro filter_cong) (auto simp: nth_append)
  with c show ?thesis by (simp add: registered_def)
qed

lemma registered_gone: "i < length cs \<Longrightarrow> cnTurn c = Gone \<Longrightarrow> registered (cs[i := c]) = removeAll i (registered cs)"
  unfolding registered_def removeAll_filter_not_eq filter_filter length_list_update
  by (intro filter_cong) (auto simp: nth_list_update)

lemma registered_update:
  "i < length cs \<Longrightarrow> (cnTurn c = Gone) = (cnTurn (cs ! i) = Gone) \<Longrightarrow> registered (cs[i := c]) = registered cs"
  by (intro registered_cong) (auto simp: nth_list_update)

lemma pub_of_start: "pub_of (pbConsumers pub_life_start) = Publisher_New"
  by (simp add: pub_of_def pub_life_start_def Publisher_New_def bcast_init_def registered_def)

lemma pub_of_publish: "fanOut m (pub_of cs) = Some (pub_of (map (offer_msg m) cs))"
proof -
  let ?p = "pub_of cs" and ?q = "pub_of (map (offer_msg m) cs)"
  have o: "\<And>i. i \<in> set (subs ?p) \<Longrightarrow> \<not> cclosed (chans ?p i)" "distinct (subs ?p)" by (auto simp: pub_of_def registered_def)
  from newest.fan_out_open [of "subs ?p" "chans ?p" m, OF o] obtain h where
    f: "fan_out offer_drop_newest m (subs ?p) (chans ?p) = Some h" and
    h: "\<And>i. if i \<in> set (subs ?p) then offer_drop_newest m (chans ?p i) = Some (h i) else h i = chans ?p i" by blast
  have "h i = chans ?q i" for i
    using h [of i] by (auto simp: pub_of_def registered_def offer_msg_def offer_drop_newest_def try_send_def split: if_splits)
  then have "h = chans ?q" by blast
  moreover have "subs ?q = subs ?p" unfolding pub_of_def by (simp, rule registered_cong) (simp_all add: offer_msg_def)
  ultimately show ?thesis using f by (simp add: fanOut_def fan_def) (simp add: pub_of_def)
qed

lemma pub_of_register:
  "pub_of (cs @ [\<lparr>cnTurn = AtSelect, cnQueue = [], cnClosed = x, cnReads = r\<rparr>]) = snd (add_consumer (pub_of cs))"
  by (auto simp: pub_of_def add_consumer_def subscribe_with_eq registered_snoc nth_append make_chan_def fun_eq_iff less_Suc_eq)

lemma pub_of_same:
  assumes "length cs = length ds"
    and "\<And>i. i < length ds \<Longrightarrow> cnQueue (cs ! i) = cnQueue (ds ! i) \<and> (cnTurn (cs ! i) = Gone) = (cnTurn (ds ! i) = Gone)"
  shows "pub_of cs = pub_of ds"
  using assms registered_cong [of cs ds] by (auto simp: pub_of_def fun_eq_iff)

lemma pub_of_update:
  assumes "cnQueue c = cnQueue (cs ! i)" "(cnTurn c = Gone) = (cnTurn (cs ! i) = Gone)"
  shows "pub_of (cs[i := c]) = pub_of cs"
proof (rule pub_of_same)
  fix j
  assume "j < length cs"
  with assms show "cnQueue (cs[i := c] ! j) = cnQueue (cs ! j) \<and> (cnTurn (cs[i := c] ! j) = Gone) = (cnTurn (cs ! j) = Gone)"
    by (cases "j = i") simp_all
qed simp

lemma pub_of_consumer:
  assumes "i < length cs" "consumer_step d (cs ! i) c"
  shows "pub_of (cs[i := c]) = pub_of cs \<or> pub_of (cs[i := c]) = remove_consumer i (pub_of cs) \<or>
    (\<exists>m. recv i (pub_of cs) = Some (m, pub_of (cs[i := c])))"
  using assms(2)
proof cases
  case (cs_next m q)
  then show ?thesis using assms(1)
    by (intro disjI2 exI [of _ m]) (auto simp: pub_of_def recv_def registered_update fun_eq_iff)
next
  case cs_leave
  then show ?thesis using assms(1)
    by (intro disjI2 disjI1) (auto simp: pub_of_def remove_consumer_def unregister_def registered_gone fun_eq_iff nth_list_update)
qed (simp_all add: pub_of_update)

definition pub_moves :: "publisher \<Rightarrow> publisher \<Rightarrow> bool" where
  "pub_moves p p' \<longleftrightarrow> p' = p \<or> p' = snd (add_consumer p) \<or> (\<exists>i. p' = remove_consumer i p) \<or>
     (\<exists>i m. recv i p = Some (m, p')) \<or> (\<exists>m. fanOut m p = Some p')"

lemma pub_own_moves: "pub_own l l' \<Longrightarrow> pub_moves (pub_of (pbConsumers l)) (pub_of (pbConsumers l'))"
proof (induction rule: pub_own.induct)
  case (po_sweep l)
  have "pub_of (map close_conn (pbConsumers l)) = pub_of (pbConsumers l)" by (rule pub_of_same) (simp_all add: close_conn_def)
  then show ?case by (simp add: pub_moves_def)
next
  case (po_register l r)
  show ?case by (simp add: pub_of_register pub_moves_def)
next
  case (po_consumer i l c)
  from pub_of_consumer [OF po_consumer] show ?case by (auto simp: pub_moves_def)
qed (simp_all add: pub_moves_def)

lemma pub_env_moves: "pub_env l l' \<Longrightarrow> pub_moves (pub_of (pbConsumers l)) (pub_of (pbConsumers l'))"
proof (induction rule: pub_env.induct)
  case (pe_publish l m)
  show ?case using pub_of_publish [of m "pbConsumers l"] by (auto simp: pub_moves_def)
qed (simp_all add: pub_moves_def pub_of_update)

subsection \<open>What the end of the publisher waits for\<close>

definition unswept :: "consumer_life \<Rightarrow> bool" where
  "unswept c \<longleftrightarrow> cnTurn c \<noteq> Gone \<and> \<not> cnClosed c"

definition blocked :: "consumer_life \<Rightarrow> bool" where
  "blocked c \<longleftrightarrow> cnTurn c = Writing \<and> \<not> cnClosed c \<and> \<not> cnReads c"

definition pub_inv :: "pub_life \<Rightarrow> bool" where
  "pub_inv l \<longleftrightarrow> (pbTurn l = Listened \<longrightarrow> list_all (\<lambda>c. cnTurn c = Gone) (pbConsumers l)) \<and>
     (pbSwept l \<longrightarrow> pbDone l \<and> \<not> pbOpen l \<and>
        length (filter unswept (pbConsumers l)) + (case pbTurn l of Holding r \<Rightarrow> 1 | _ \<Rightarrow> 0) \<le> 1)"

lemma filter_update_le: "(P y \<Longrightarrow> P (xs ! i)) \<Longrightarrow> length (filter P (xs[i := y])) \<le> length (filter P xs)"
  by (induction xs arbitrary: i) (auto split: nat.split)

lemma consumer_step_turns:
  "consumer_step d c c' \<Longrightarrow> cnTurn c \<noteq> Gone \<and> (unswept c' \<longrightarrow> unswept c)"
  by (induction rule: consumer_step.induct) (auto simp: unswept_def)

lemma pub_inv_own: "pub_own l l' \<Longrightarrow> pub_inv l \<Longrightarrow> pub_inv l'"
proof (induction rule: pub_own.induct)
  case (po_sweep l)
  have "filter unswept (map close_conn (pbConsumers l)) = []"
    by (auto simp: filter_empty_conv unswept_def close_conn_def)
  with po_sweep show ?case by (auto simp: pub_inv_def list_all_iff close_conn_def split: listen_turn.splits)
next
  case (po_consumer i l c)
  note t = consumer_step_turns [OF po_consumer(2)]
  from t filter_update_le [of unswept c "pbConsumers l" i]
  have "length (filter unswept ((pbConsumers l)[i := c])) \<le> length (filter unswept (pbConsumers l))" by blast
  moreover have "pbTurn l \<noteq> Listened" using t po_consumer(1,3) by (auto simp: pub_inv_def list_all_length)
  ultimately show ?case using po_consumer(3) by (auto simp: pub_inv_def)
qed (auto simp: pub_inv_def unswept_def)

lemma pub_inv_env: "pub_env l l' \<Longrightarrow> pub_inv l \<Longrightarrow> pub_inv l'"
proof (induction rule: pub_env.induct)
  case (pe_publish l m)
  have t: "cnTurn (offer_msg m c) = cnTurn c" "unswept (offer_msg m c) = unswept c" for c
    by (simp_all add: offer_msg_def unswept_def)
  have "length (filter unswept (map (offer_msg m) cs)) = length (filter unswept cs)" for cs
    by (induction cs) (simp_all add: t)
  with pe_publish t(1) show ?case by (simp add: pub_inv_def list_all_iff)
next
  case (pe_peer i l b)
  have "length (filter unswept ((pbConsumers l)[i := (pbConsumers l ! i)\<lparr>cnReads := b\<rparr>])) \<le> length (filter unswept (pbConsumers l))"
    by (rule filter_update_le) (simp add: unswept_def)
  with pe_peer show ?case by (auto simp: pub_inv_def list_all_length nth_list_update)
qed (auto simp: pub_inv_def)

lemma pub_reach_inv: "pub_reach l \<Longrightarrow> pub_inv l"
  unfolding pub_reach_def
proof (induction rule: rtranclp_induct)
  case base
  show ?case by (simp add: pub_inv_def pub_life_start_def)
qed (use pub_inv_own pub_inv_env in blast)

definition consumer_turns :: "consumer_life \<Rightarrow> nat" where
  "consumer_turns c =
     2 * length (cnQueue c) + (case cnTurn c of AtSelect \<Rightarrow> 2 | Writing \<Rightarrow> 3 | Leaving \<Rightarrow> 1 | Gone \<Rightarrow> 0)"

definition turns_left :: "pub_life \<Rightarrow> nat" where
  "turns_left l = sum_list (map consumer_turns (pbConsumers l)) +
     (case pbTurn l of Holding r \<Rightarrow> 5 | Accepting \<Rightarrow> 2 | Waiting \<Rightarrow> 1 | Listened \<Rightarrow> 0)"

lemma consumer_step_decreases: "consumer_step d c c' \<Longrightarrow> consumer_turns c' < consumer_turns c"
  by (induction rule: consumer_step.induct) (simp_all add: consumer_turns_def)

lemma sum_list_update_less:
  "i < length xs \<Longrightarrow> f y < f (xs ! i) \<Longrightarrow> sum_list (map f (xs[i := y])) < sum_list (map f xs)" for f :: "'a \<Rightarrow> nat"
  by (induction xs arbitrary: i) (auto simp: nth_Cons split: nat.splits)

lemma pub_own_decreases:
  "pub_own l l' \<Longrightarrow> pub_inv l \<Longrightarrow> pbSwept l \<Longrightarrow> turns_left l' < turns_left l \<and> pub_inv l' \<and> pbSwept l'"
proof (frule pub_inv_own, assumption, induction rule: pub_own.induct)
  case (po_consumer i l c)
  from sum_list_update_less [OF po_consumer(1) consumer_step_decreases [OF po_consumer(2)]] po_consumer
  show ?case by (simp add: turns_left_def)
qed (simp_all add: turns_left_def consumer_turns_def, simp_all add: pub_inv_def)

lemma pub_own_run:
  "(pub_own ^^ n) l t \<Longrightarrow> pub_inv l \<Longrightarrow> pbSwept l \<Longrightarrow> n + turns_left t \<le> turns_left l \<and> pub_inv t \<and> pbSwept t"
proof (induction n arbitrary: t)
  case (Suc n)
  from Suc.prems(1) obtain s where s: "(pub_own ^^ n) l s" "pub_own s t" by auto
  from Suc.IH [OF s(1) Suc.prems(2,3)] pub_own_decreases [OF s(2)] show ?case by auto
qed simp

text \<open>A consumer that cannot move is gone or blocked.\<close>

lemma consumer_stuck: "(\<And>c'. \<not> consumer_step True c c') \<Longrightarrow> cnTurn c = Gone \<or> blocked c"
  by (cases "cnTurn c") (auto simp: consumer_step_iff blocked_def)

lemma pub_stuck:
  assumes "pub_inv t" "pbSwept t" "\<And>u. \<not> pub_own t u"
  shows "(pbTurn t = Waiting \<or> pbTurn t = Listened) \<and> (\<forall>c \<in> set (pbConsumers t). cnTurn c = Gone \<or> blocked c) \<and>
    (pbTurn t = Waiting \<longrightarrow> \<not> list_all (\<lambda>c. cnTurn c = Gone) (pbConsumers t))"
proof -
  from assms(1,2) have d: "pbDone t" by (simp add: pub_inv_def)
  have "cnTurn c = Gone \<or> blocked c" if "c \<in> set (pbConsumers t)" for c
  proof (rule consumer_stuck)
    from that obtain i where "i < length (pbConsumers t)" "pbConsumers t ! i = c" by (auto simp: in_set_conv_nth)
    with po_consumer [of i t] assms(3) d show "\<not> consumer_step True c c'" for c' by auto
  qed
  moreover have "pbTurn t = Waiting \<or> pbTurn t = Listened"
    using po_fail [OF _ d] po_register [of t] assms(3) by (cases "pbTurn t") blast+
  ultimately show ?thesis using po_return [of t] assms(3) by blast
qed

lemma one_blocked:
  assumes "length (filter unswept cs) \<le> 1" "\<forall>c \<in> set cs. cnTurn c = Gone \<or> blocked c" "\<not> list_all (\<lambda>c. cnTurn c = Gone) cs"
  shows "\<exists>xs c ys. cs = xs @ c # ys \<and> blocked c \<and> (\<forall>d \<in> set (xs @ ys). cnTurn d = Gone)"
proof -
  from assms(2,3) obtain c where "c \<in> set cs" "blocked c" by (auto simp: list_all_iff)
  then obtain xs ys where cs: "cs = xs @ c # ys" by (auto dest: split_list)
  from \<open>blocked c\<close> have "unswept c" by (simp add: blocked_def unswept_def)
  with assms(1) cs have "filter unswept (xs @ ys) = []" by simp
  then have "\<not> unswept d" if "d \<in> set (xs @ ys)" for d using that by (auto simp: filter_empty_conv)
  moreover have "unswept d" if "blocked d" for d using that by (simp add: blocked_def unswept_def)
  ultimately show ?thesis using cs assms(2) \<open>blocked c\<close> by (intro exI [of _ xs] exI [of _ c] exI [of _ ys]) auto
qed

lemma pub_reach_moves: "pub_reach l \<Longrightarrow> pub_moves\<^sup>*\<^sup>* Publisher_New (pub_of (pbConsumers l))"
  unfolding pub_reach_def
proof (induction rule: rtranclp_induct)
  case (step a b)
  with pub_own_moves pub_env_moves show ?case by (blast intro: rtranclp.rtrancl_into_rtrancl)
qed (simp add: pub_of_start)

text \<open>C15: Shutting down the IPC publisher: whatever consumers connected, disconnected, read or stopped reading and
  whatever was published before, once the shutdown goroutine has closed the connections, the publisher's own
  goroutines come to rest after a bounded number of steps. They rest with \<open>Listen\<close> returned and every consumer's
  goroutine gone, or with \<open>Listen\<close> waiting for exactly one consumer, whose connection was not closed and which does
  not read; if every consumer reads, \<open>Listen\<close> returns. All the while the map and the channels are those that the
  publisher's operations make.\<close>
theorem listen_comes_to_rest:
  assumes "pub_reach l" "pbSwept l" "(pub_own ^^ n) l t"
  shows "n \<le> turns_left l \<and> pub_moves\<^sup>*\<^sup>* Publisher_New (pub_of (pbConsumers t)) \<and>
    ((\<forall>u. \<not> pub_own t u) \<longrightarrow>
       pbTurn t = Listened \<and> (\<forall>c \<in> set (pbConsumers t). cnTurn c = Gone) \<or>
       pbTurn t = Waiting \<and> (\<exists>xs c ys. pbConsumers t = xs @ c # ys \<and> blocked c \<and> (\<forall>d \<in> set (xs @ ys). cnTurn d = Gone)))"
proof -
  from pub_own_run [OF assms(3) pub_reach_inv [OF assms(1)] assms(2)] have
    t: "n \<le> turns_left l" "pub_inv t" "pbSwept t" by auto
  have "pub_own\<^sup>*\<^sup>* l t" using assms(3) by (rule relpowp_imp_rtranclp)
  then have "(\<lambda>a b. pub_own a b \<or> pub_env a b)\<^sup>*\<^sup>* l t" by (rule rtranclp_mono [THEN predicate2D, rotated]) blast
  with assms(1) have "pub_reach t" unfolding pub_reach_def by (rule rtranclp_trans)
  note m = pub_reach_moves [OF this]
  have "pbTurn t = Listened \<and> (\<forall>c \<in> set (pbConsumers t). cnTurn c = Gone) \<or>
       pbTurn t = Waiting \<and> (\<exists>xs c ys. pbConsumers t = xs @ c # ys \<and> blocked c \<and> (\<forall>d \<in> set (xs @ ys). cnTurn d = Gone))"
    if "\<forall>u. \<not> pub_own t u"
  proof (cases "pbTurn t = Listened")
    case True
    with t(2) show ?thesis by (simp add: pub_inv_def list_all_iff)
  next
    case False
    with pub_stuck [OF t(2,3)] that have s: "pbTurn t = Waiting" "\<forall>c \<in> set (pbConsumers t). cnTurn c = Gone \<or> blocked c"
      "\<not> list_all (\<lambda>c. cnTurn c = Gone) (pbConsumers t)" by auto
    from t(2,3) have "length (filter unswept (pbConsumers t)) \<le> 1" by (simp add: pub_inv_def)
    from one_blocked [OF this s(2,3)] s(1) show ?thesis by blast
  qed
  with t(1) m show ?thesis by blast
qed

text \<open>The one that is waited for exists: accepted before the shutdown, registered after it.\<close>

definition late_consumer :: "serve_turn \<Rightarrow> ipc_msg list \<Rightarrow> bool \<Rightarrow> consumer_life" where
  "late_consumer t q r = \<lparr>cnTurn = t, cnQueue = q, cnClosed = False, cnReads = r\<rparr>"

definition swept_pub :: "listen_turn \<Rightarrow> consumer_life list \<Rightarrow> pub_life" where
  "swept_pub t cs = \<lparr>pbDone = True, pbOpen = False, pbSwept = True, pbTurn = t, pbConsumers = cs\<rparr>"

lemma pub_reach_own: "pub_reach l \<Longrightarrow> pub_own l l' \<Longrightarrow> pub_reach l'"
  by (auto simp: pub_reach_def intro: rtranclp.rtrancl_into_rtrancl)

lemma pub_reach_env: "pub_reach l \<Longrightarrow> pub_env l l' \<Longrightarrow> pub_reach l'"
  by (auto simp: pub_reach_def intro: rtranclp.rtrancl_into_rtrancl)

lemma swept_holding_reach: "pub_reach (swept_pub (Holding True) [])"
proof -
  have 0: "pub_reach pub_life_start" by (simp add: pub_reach_def)
  have 1: "pub_reach (pub_life_start\<lparr>pbTurn := Holding True\<rparr>)"
    by (rule pub_reach_own [OF 0 po_accept]) (simp_all add: pub_life_start_def)
  have 2: "pub_reach (pub_life_start\<lparr>pbTurn := Holding True, pbDone := True\<rparr>)"
    using pub_reach_env [OF 1 pe_cancel] by simp
  have 3: "pub_reach (pub_life_start\<lparr>pbTurn := Holding True, pbDone := True, pbOpen := False\<rparr>)"
    using pub_reach_own [OF 2 po_close] by (simp add: pub_life_start_def)
  show ?thesis using pub_reach_own [OF 3 po_sweep] by (simp add: pub_life_start_def swept_pub_def)
qed

lemma listen_can_hang:
  "\<exists>l. pub_reach l \<and> pbSwept l \<and> pbTurn l = Waiting \<and> (\<forall>u. \<not> pub_own l u)"
proof -
  have 1: "pub_reach (swept_pub Accepting [late_consumer AtSelect [] True])"
    using pub_reach_own [OF swept_holding_reach po_register] by (simp add: swept_pub_def late_consumer_def)
  have 2: "pub_reach (swept_pub Accepting [late_consumer AtSelect [m] True])" for m
    using pub_reach_env [OF 1 pe_publish [where m = m]] by (simp add: swept_pub_def late_consumer_def offer_msg_def ipcChannelSize_def)
  have 3: "pub_reach (swept_pub Accepting [late_consumer Writing [] True])"
    using pub_reach_own [OF 2 po_consumer [OF _ cs_next], where i1 = 0] by (simp add: swept_pub_def late_consumer_def)
  have 4: "pub_reach (swept_pub Accepting [late_consumer Writing [] False])"
    using pub_reach_env [OF 3 pe_peer [where i = 0 and b = False]] by (simp add: swept_pub_def late_consumer_def)
  have 5: "pub_reach (swept_pub Waiting [late_consumer Writing [] False])"
    using pub_reach_own [OF 4 po_fail] by (simp add: swept_pub_def)
  have "\<not> pub_own (swept_pub Waiting [late_consumer Writing [] False]) u" for u
    by (auto simp: swept_pub_def late_consumer_def consumer_step_iff elim!: pub_own.cases)
  with 5 show ?thesis by (intro exI [of _ "swept_pub Waiting [late_consumer Writing [] False]"]) (simp add: swept_pub_def)
qed

theorem listen_comes_to_rest_witness:
  "(pub_own ^^ 2) (swept_pub (Holding True) []) (swept_pub Waiting [late_consumer AtSelect [] True]) \<and>
    2 \<le> turns_left (swept_pub (Holding True) [])"
proof -
  have a: "pub_own (swept_pub (Holding True) []) (swept_pub Accepting [late_consumer AtSelect [] True])"
    using po_register [of "swept_pub (Holding True) []"] by (simp add: swept_pub_def late_consumer_def)
  have b: "pub_own (swept_pub Accepting [late_consumer AtSelect [] True]) (swept_pub Waiting [late_consumer AtSelect [] True])"
    using po_fail [of "swept_pub Accepting [late_consumer AtSelect [] True]"] by (simp add: swept_pub_def)
  from a b have r: "(pub_own ^^ 2) (swept_pub (Holding True) []) (swept_pub Waiting [late_consumer AtSelect [] True])"
    by (auto simp: numeral_2_eq_2)
  have "pbSwept (swept_pub (Holding True) [])" by (simp add: swept_pub_def)
  from listen_comes_to_rest [OF swept_holding_reach this r] r show ?thesis by blast
qed

end
