(* ===== verification/Rotation.thy ===== *)
theory Rotation
  imports Prelude
begin

section \<open>Frame rotation (camera-web-api/internal/rotation)\<close>

text \<open>
  Normalising angles, the configuration that a JSON file fills, and rotating a frame. The JPEG codec,
  the JSON parser and the file are parameters: \<open>decode\<close>, \<open>encode\<close>, \<open>parse\<close> and the result of
  reading the file. Pixel copying is the source's loops, writing one pixel at a time into an image
  that ignores writes outside its bounds; \<open>conv\<close> is the colour conversion of \<open>image.RGBA\<close>.
\<close>

subsection \<open>Angles\<close>

type_synonym angle = int

definition Angle0 :: angle where "Angle0 = 0"
definition Angle90 :: angle where "Angle90 = 90"
definition Angle180 :: angle where "Angle180 = 180"
definition Angle270 :: angle where "Angle270 = 270"

lemmas angle_defs = Angle0_def Angle90_def Angle180_def Angle270_def

definition IsZero :: "angle \<Rightarrow> bool" where
  "IsZero a \<longleftrightarrow> a = Angle0"

definition Normalize :: "int \<Rightarrow> angle" where
  "Normalize deg =
     (let n = go_mod (go_mod deg 360 + 360) 360
      in if n < 45 \<or> n \<ge> 315 then Angle0
         else if n < 135 then Angle90
         else if n < 225 then Angle180
         else Angle270)"

lemma go_mod_turn: "go_mod (go_mod deg 360 + 360) 360 = deg mod 360"
proof (cases "deg < 0")
  case True
  have "0 \<le> - ((- deg) mod 360) + 360" using pos_mod_bound [of 360 "- deg"] by linarith
  then have "go_mod (go_mod deg 360 + 360) 360 = (- ((- deg) mod 360) + 360) mod 360"
    using True by (simp add: go_mod_neg)
  also have "\<dots> = deg mod 360" by (simp add: mod_simps)
  finally show ?thesis .
next
  case False
  then show ?thesis by simp
qed

subsection \<open>Configuration\<close>

datatype file_read = FileMissing | FileFailed nat | FileData bytes

datatype config_error = ConfigRead nat | ConfigParse

record rot_config =
  angles :: "string \<rightharpoonup> angle"

definition Reload :: "(bytes \<Rightarrow> (string \<times> int) list option) \<Rightarrow> file_read \<Rightarrow> rot_config
    \<Rightarrow> (config_error + nat) \<times> rot_config" where
  "Reload parse file rc =
     (case file of
        FileMissing \<Rightarrow> (Inr 0, rc)
      | FileFailed e \<Rightarrow> (Inl (ConfigRead e), rc)
      | FileData d \<Rightarrow>
          (case parse d of
             None \<Rightarrow> (Inl ConfigParse, rc)
           | Some raw \<Rightarrow>
               let m = map_of (map (\<lambda>(cid, deg). (cid, Normalize deg)) raw)
               in (Inr (length raw), rc\<lparr>angles := m\<rparr>)))"

definition Load :: "(bytes \<Rightarrow> (string \<times> int) list option) \<Rightarrow> file_read \<Rightarrow> config_error + rot_config \<times> nat" where
  "Load parse file =
     (case Reload parse file \<lparr>angles = (\<lambda>_. None)\<rparr> of
        (Inl e, rc) \<Rightarrow> Inl e
      | (Inr n, rc) \<Rightarrow> Inr (rc, n))"

definition Get :: "rot_config \<Rightarrow> string \<Rightarrow> angle" where
  "Get rc cid = (case angles rc cid of None \<Rightarrow> Angle0 | Some a \<Rightarrow> a)"

definition Degrees :: "rot_config \<Rightarrow> string \<Rightarrow> int" where
  "Degrees rc cid = Get rc cid"

subsection \<open>Images\<close>

record 'c img =
  minX :: int
  minY :: int
  dx :: int
  dy :: int
  pix :: "int \<times> int \<Rightarrow> 'c"

definition NewRGBA :: "'c \<Rightarrow> int \<Rightarrow> int \<Rightarrow> 'c img" where
  "NewRGBA blank w h = \<lparr>minX = 0, minY = 0, dx = w, dy = h, pix = (\<lambda>_. blank)\<rparr>"

definition set_pixel :: "('c \<Rightarrow> 'c) \<Rightarrow> int \<times> int \<Rightarrow> 'c \<Rightarrow> 'c img \<Rightarrow> 'c img" where
  "set_pixel conv p c d =
     (if 0 \<le> fst p \<and> fst p < dx d \<and> 0 \<le> snd p \<and> snd p < dy d
      then d\<lparr>pix := (pix d)(p := conv c)\<rparr> else d)"

definition at_pixel :: "'c img \<Rightarrow> int \<Rightarrow> int \<Rightarrow> 'c" where
  "at_pixel src x y = pix src (minX src + x, minY src + y)"

text \<open>The two nested loops, with the target of pixel \<open>(x, y)\<close>.\<close>

definition copy_pixels :: "('c \<Rightarrow> 'c) \<Rightarrow> (int \<Rightarrow> int \<Rightarrow> int \<times> int) \<Rightarrow> 'c img \<Rightarrow> 'c img \<Rightarrow> 'c img" where
  "copy_pixels conv target src dst =
     fold (\<lambda>y. fold (\<lambda>x. set_pixel conv (target (int x) (int y)) (at_pixel src (int x) (int y)))
        [0..<nat (dx src)]) [0..<nat (dy src)] dst"

definition rotate90 :: "('c \<Rightarrow> 'c) \<Rightarrow> 'c \<Rightarrow> 'c img \<Rightarrow> 'c img" where
  "rotate90 conv blank src =
     copy_pixels conv (\<lambda>x y. (dy src - 1 - y, x)) src (NewRGBA blank (dy src) (dx src))"

definition rotate180 :: "('c \<Rightarrow> 'c) \<Rightarrow> 'c \<Rightarrow> 'c img \<Rightarrow> 'c img" where
  "rotate180 conv blank src =
     copy_pixels conv (\<lambda>x y. (dx src - 1 - x, dy src - 1 - y)) src (NewRGBA blank (dx src) (dy src))"

definition rotate270 :: "('c \<Rightarrow> 'c) \<Rightarrow> 'c \<Rightarrow> 'c img \<Rightarrow> 'c img" where
  "rotate270 conv blank src =
     copy_pixels conv (\<lambda>x y. (y, dx src - 1 - x)) src (NewRGBA blank (dy src) (dx src))"

definition Apply :: "('c \<Rightarrow> 'c) \<Rightarrow> 'c \<Rightarrow> (bytes \<Rightarrow> 'c img option) \<Rightarrow> ('c img \<Rightarrow> bytes option)
    \<Rightarrow> bytes \<Rightarrow> angle \<Rightarrow> bytes" where
  "Apply conv blank decode encode data a =
     (if IsZero a then data
      else case decode data of
             None \<Rightarrow> data
           | Some im \<Rightarrow>
               (let finish = (\<lambda>rotated. case encode rotated of None \<Rightarrow> data | Some out \<Rightarrow> out)
                in if a = Angle90 then finish (rotate90 conv blank im)
                   else if a = Angle180 then finish (rotate180 conv blank im)
                   else if a = Angle270 then finish (rotate270 conv blank im)
                   else data))"

subsection \<open>Lemmas\<close>

lemma set_pixel_sel [simp]:
  "minX (set_pixel conv p c d) = minX d" "minY (set_pixel conv p c d) = minY d"
  "dx (set_pixel conv p c d) = dx d" "dy (set_pixel conv p c d) = dy d"
  by (simp_all add: set_pixel_def)

lemma inner_loop:
  assumes "\<And>x. x < n \<Longrightarrow> 0 \<le> fst (t x) \<and> fst (t x) < dx d \<and> 0 \<le> snd (t x) \<and> snd (t x) < dy d"
    and "\<And>x x'. x < n \<Longrightarrow> x' < n \<Longrightarrow> t x = t x' \<Longrightarrow> x = x'"
  shows "\<exists>f. fold (\<lambda>x. set_pixel conv (t x) (v x)) [0..<n] d = d\<lparr>pix := f\<rparr> \<and>
    (\<forall>x < n. f (t x) = conv (v x)) \<and> (\<forall>p. (\<forall>x < n. p \<noteq> t x) \<longrightarrow> f p = pix d p)"
  using assms
proof (induction n)
  case 0
  then show ?case by (intro exI [of _ "pix d"]) simp
next
  case (Suc n)
  have "\<exists>f. fold (\<lambda>x. set_pixel conv (t x) (v x)) [0..<n] d = d\<lparr>pix := f\<rparr> \<and>
    (\<forall>x < n. f (t x) = conv (v x)) \<and> (\<forall>p. (\<forall>x < n. p \<noteq> t x) \<longrightarrow> f p = pix d p)"
  proof (rule Suc.IH)
    show "0 \<le> fst (t x) \<and> fst (t x) < dx d \<and> 0 \<le> snd (t x) \<and> snd (t x) < dy d" if "x < n" for x
      using Suc.prems(1) [of x] that by simp
    show "x = x'" if "x < n" "x' < n" "t x = t x'" for x x'
      using Suc.prems(2) [of x x'] that by simp
  qed
  then obtain f where f: "fold (\<lambda>x. set_pixel conv (t x) (v x)) [0..<n] d = d\<lparr>pix := f\<rparr>"
    "\<forall>x < n. f (t x) = conv (v x)" "\<forall>p. (\<forall>x < n. p \<noteq> t x) \<longrightarrow> f p = pix d p" by blast
  have ne: "t x \<noteq> t n" if "x < n" for x using Suc.prems(2) [of x n] that by auto
  have "fold (\<lambda>x. set_pixel conv (t x) (v x)) [0..<Suc n] d = d\<lparr>pix := f(t n := conv (v n))\<rparr>"
    using f(1) Suc.prems(1) [of n] by (simp add: set_pixel_def)
  moreover have "\<forall>x < Suc n. (f(t n := conv (v n))) (t x) = conv (v x)"
    using f(2) ne by (auto simp: less_Suc_eq)
  moreover have "\<forall>p. (\<forall>x < Suc n. p \<noteq> t x) \<longrightarrow> (f(t n := conv (v n))) p = pix d p"
    using f(3) by (auto simp: less_Suc_eq)
  ultimately show ?case by blast
qed

lemma outer_loop:
  assumes "\<And>x y. x < n \<Longrightarrow> y < m \<Longrightarrow> 0 \<le> fst (t x y) \<and> fst (t x y) < dx d \<and> 0 \<le> snd (t x y) \<and> snd (t x y) < dy d"
    and "\<And>x y x' y'. x < n \<Longrightarrow> y < m \<Longrightarrow> x' < n \<Longrightarrow> y' < m \<Longrightarrow> t x y = t x' y' \<Longrightarrow> x = x' \<and> y = y'"
  shows "\<exists>f. fold (\<lambda>y. fold (\<lambda>x. set_pixel conv (t x y) (v x y)) [0..<n]) [0..<m] d = d\<lparr>pix := f\<rparr> \<and>
    (\<forall>x < n. \<forall>y < m. f (t x y) = conv (v x y)) \<and> (\<forall>p. (\<forall>x < n. \<forall>y < m. p \<noteq> t x y) \<longrightarrow> f p = pix d p)"
  using assms
proof (induction m)
  case 0
  then show ?case by (intro exI [of _ "pix d"]) simp
next
  case (Suc m)
  have "\<exists>f. fold (\<lambda>y. fold (\<lambda>x. set_pixel conv (t x y) (v x y)) [0..<n]) [0..<m] d = d\<lparr>pix := f\<rparr> \<and>
    (\<forall>x < n. \<forall>y < m. f (t x y) = conv (v x y)) \<and> (\<forall>p. (\<forall>x < n. \<forall>y < m. p \<noteq> t x y) \<longrightarrow> f p = pix d p)"
  proof (rule Suc.IH)
    show "0 \<le> fst (t x y) \<and> fst (t x y) < dx d \<and> 0 \<le> snd (t x y) \<and> snd (t x y) < dy d" if "x < n" "y < m" for x y
      using Suc.prems(1) [of x y] that by simp
    show "x = x' \<and> y = y'" if "x < n" "y < m" "x' < n" "y' < m" "t x y = t x' y'" for x y x' y'
      using Suc.prems(2) [of x y x' y'] that by simp
  qed
  then obtain f where
    f: "fold (\<lambda>y. fold (\<lambda>x. set_pixel conv (t x y) (v x y)) [0..<n]) [0..<m] d = d\<lparr>pix := f\<rparr>"
      "\<forall>x < n. \<forall>y < m. f (t x y) = conv (v x y)" "\<forall>p. (\<forall>x < n. \<forall>y < m. p \<noteq> t x y) \<longrightarrow> f p = pix d p" by blast
  have "\<exists>g. fold (\<lambda>x. set_pixel conv (t x m) (v x m)) [0..<n] (d\<lparr>pix := f\<rparr>) = d\<lparr>pix := f\<rparr>\<lparr>pix := g\<rparr> \<and>
    (\<forall>x < n. g (t x m) = conv (v x m)) \<and> (\<forall>p. (\<forall>x < n. p \<noteq> t x m) \<longrightarrow> g p = pix (d\<lparr>pix := f\<rparr>) p)"
  proof (rule inner_loop)
    show "0 \<le> fst (t x m) \<and> fst (t x m) < dx (d\<lparr>pix := f\<rparr>) \<and> 0 \<le> snd (t x m) \<and> snd (t x m) < dy (d\<lparr>pix := f\<rparr>)"
      if "x < n" for x using Suc.prems(1) [of x m] that by simp
    show "x = x'" if "x < n" "x' < n" "t x m = t x' m" for x x'
      using Suc.prems(2) [of x m x' m] that by simp
  qed
  then obtain g where g: "fold (\<lambda>x. set_pixel conv (t x m) (v x m)) [0..<n] (d\<lparr>pix := f\<rparr>) = d\<lparr>pix := g\<rparr>"
    "\<forall>x < n. g (t x m) = conv (v x m)" "\<forall>p. (\<forall>x < n. p \<noteq> t x m) \<longrightarrow> g p = f p" by auto
  have ne: "t x y \<noteq> t x' m" if "x < n" "y < m" "x' < n" for x y x'
    using Suc.prems(2) [of x y x' m] that by auto
  have "fold (\<lambda>y. fold (\<lambda>x. set_pixel conv (t x y) (v x y)) [0..<n]) [0..<Suc m] d = d\<lparr>pix := g\<rparr>"
    using f(1) g(1) by simp
  moreover have "\<forall>x < n. \<forall>y < Suc m. g (t x y) = conv (v x y)"
  proof (intro allI impI)
    fix x y
    assume x: "x < n" and "y < Suc m"
    then consider "y = m" | "y < m" by linarith
    then show "g (t x y) = conv (v x y)"
    proof cases
      case 1
      with g(2) x show ?thesis by simp
    next
      case 2
      with ne x have "\<forall>x' < n. t x y \<noteq> t x' m" by simp
      with g(3) have "g (t x y) = f (t x y)" by blast
      with f(2) x 2 show ?thesis by simp
    qed
  qed
  moreover have "\<forall>p. (\<forall>x < n. \<forall>y < Suc m. p \<noteq> t x y) \<longrightarrow> g p = pix d p"
    using f(3) g(3) by (simp add: less_Suc_eq)
  ultimately show ?case by blast
qed


lemma copy_pixels_spec:
  assumes dims: "minX dst = 0" "minY dst = 0"
    and inr: "\<And>x y. 0 \<le> x \<Longrightarrow> x < dx src \<Longrightarrow> 0 \<le> y \<Longrightarrow> y < dy src \<Longrightarrow>
      0 \<le> fst (t x y) \<and> fst (t x y) < dx dst \<and> 0 \<le> snd (t x y) \<and> snd (t x y) < dy dst"
    and inj: "\<And>x y x' y'. t x y = t x' y' \<Longrightarrow> x = x' \<and> y = y'"
  shows "dx (copy_pixels conv t src dst) = dx dst \<and> dy (copy_pixels conv t src dst) = dy dst \<and>
    minX (copy_pixels conv t src dst) = 0 \<and> minY (copy_pixels conv t src dst) = 0 \<and>
    (0 \<le> x \<longrightarrow> x < dx src \<longrightarrow> 0 \<le> y \<longrightarrow> y < dy src \<longrightarrow>
      at_pixel (copy_pixels conv t src dst) (fst (t x y)) (snd (t x y)) = conv (at_pixel src x y))"
proof -
  have "\<exists>f. fold (\<lambda>y. fold (\<lambda>x. set_pixel conv (t (int x) (int y)) (at_pixel src (int x) (int y)))
        [0..<nat (dx src)]) [0..<nat (dy src)] dst = dst\<lparr>pix := f\<rparr> \<and>
    (\<forall>x < nat (dx src). \<forall>y < nat (dy src). f (t (int x) (int y)) = conv (at_pixel src (int x) (int y))) \<and>
    (\<forall>p. (\<forall>x < nat (dx src). \<forall>y < nat (dy src). p \<noteq> t (int x) (int y)) \<longrightarrow> f p = pix dst p)"
  proof (rule outer_loop)
    show "0 \<le> fst (t (int x) (int y)) \<and> fst (t (int x) (int y)) < dx dst \<and>
        0 \<le> snd (t (int x) (int y)) \<and> snd (t (int x) (int y)) < dy dst"
      if "x < nat (dx src)" "y < nat (dy src)" for x y
      using inr [of "int x" "int y"] that by simp
    show "x = x' \<and> y = y'" if "t (int x) (int y) = t (int x') (int y')" for x y x' y'
      using inj [OF that] by simp
  qed
  then obtain f where f: "copy_pixels conv t src dst = dst\<lparr>pix := f\<rparr>"
    "\<And>x y. x < nat (dx src) \<Longrightarrow> y < nat (dy src) \<Longrightarrow> f (t (int x) (int y)) = conv (at_pixel src (int x) (int y))"
    unfolding copy_pixels_def by blast
  have "f (t x y) = conv (at_pixel src x y)" if "0 \<le> x" "x < dx src" "0 \<le> y" "y < dy src"
    using f(2) [of "nat x" "nat y"] that by simp
  with f(1) dims show ?thesis by (auto simp: at_pixel_def)
qed

lemma rotate90_spec:
  "dx (rotate90 conv blank src) = dy src \<and> dy (rotate90 conv blank src) = dx src \<and>
   minX (rotate90 conv blank src) = 0 \<and> minY (rotate90 conv blank src) = 0 \<and>
   (0 \<le> x \<longrightarrow> x < dx src \<longrightarrow> 0 \<le> y \<longrightarrow> y < dy src \<longrightarrow>
     at_pixel (rotate90 conv blank src) (dy src - 1 - y) x = conv (at_pixel src x y))"
  using copy_pixels_spec [of "NewRGBA blank (dy src) (dx src)" src "\<lambda>x y. (dy src - 1 - y, x)" conv x y]
  by (auto simp: rotate90_def NewRGBA_def)

lemma rotate180_spec:
  "dx (rotate180 conv blank src) = dx src \<and> dy (rotate180 conv blank src) = dy src \<and>
   minX (rotate180 conv blank src) = 0 \<and> minY (rotate180 conv blank src) = 0 \<and>
   (0 \<le> x \<longrightarrow> x < dx src \<longrightarrow> 0 \<le> y \<longrightarrow> y < dy src \<longrightarrow>
     at_pixel (rotate180 conv blank src) (dx src - 1 - x) (dy src - 1 - y) = conv (at_pixel src x y))"
  using copy_pixels_spec [of "NewRGBA blank (dx src) (dy src)" src "\<lambda>x y. (dx src - 1 - x, dy src - 1 - y)" conv x y]
  by (auto simp: rotate180_def NewRGBA_def)

lemma rotate270_spec:
  "dx (rotate270 conv blank src) = dy src \<and> dy (rotate270 conv blank src) = dx src \<and>
   minX (rotate270 conv blank src) = 0 \<and> minY (rotate270 conv blank src) = 0 \<and>
   (0 \<le> x \<longrightarrow> x < dx src \<longrightarrow> 0 \<le> y \<longrightarrow> y < dy src \<longrightarrow>
     at_pixel (rotate270 conv blank src) y (dx src - 1 - x) = conv (at_pixel src x y))"
  using copy_pixels_spec [of "NewRGBA blank (dy src) (dx src)" src "\<lambda>x y. (y, dx src - 1 - x)" conv x y]
  by (auto simp: rotate270_def NewRGBA_def)

lemma Apply_total:
  "Apply conv blank decode encode data a =
     (case decode data of
        None \<Rightarrow> data
      | Some im \<Rightarrow>
          if a \<in> {Angle90, Angle180, Angle270} then
            (case encode ((if a = Angle90 then rotate90 else if a = Angle180 then rotate180 else rotate270) conv blank im) of
               None \<Rightarrow> data | Some out \<Rightarrow> out)
          else data)"
  by (auto simp: Apply_def IsZero_def angle_defs Let_def split: option.split)

subsection \<open>Properties\<close>

text \<open>\<open>Normalize\<close> gives one of the four rotations for every integer, the nearest one: the angle
  differs from it by less than 45 degrees, or by exactly 45 upwards, up to full turns.\<close>

theorem normalize_nearest:
  "Normalize deg \<in> {Angle0, Angle90, Angle180, Angle270} \<and>
   (\<exists>k. - 45 \<le> deg - (Normalize deg + 360 * k) \<and> deg - (Normalize deg + 360 * k) < 45)"
proof -
  obtain n q where n: "n = deg mod 360" and d: "deg = n + 360 * q"
    using mult_div_mod_eq [of 360 deg] by (metis add.commute)
  then have r: "0 \<le> n" "n < 360" by simp_all
  have N: "Normalize deg = (if n < 45 \<or> n \<ge> 315 then 0 else if n < 135 then 90 else if n < 225 then 180 else 270)"
    by (simp add: Normalize_def go_mod_turn angle_defs n)
  let ?k = "q + (if n \<ge> 315 then 1 else 0)"
  have "- 45 \<le> deg - (Normalize deg + 360 * ?k) \<and> deg - (Normalize deg + 360 * ?k) < 45"
    using r N d by (simp split: if_splits)
  moreover have "Normalize deg \<in> {Angle0, Angle90, Angle180, Angle270}" using N by (simp add: angle_defs)
  ultimately show ?thesis by blast
qed

text \<open>C35: rotation moves every pixel of an image to its place in the turned image and loses none: a
  quarter turn swaps the sides and puts column \<open>x\<close> of row \<open>y\<close> into column \<open>h - 1 - y\<close> of row \<open>x\<close>, and so on
  for the other two, for any position of the source's bounds.\<close>

theorem rotation_places_pixels:
  assumes "0 \<le> x" and "x < dx src" and "0 \<le> y" and "y < dy src"
  shows "at_pixel (rotate90 conv blank src) (dy src - 1 - y) x = conv (at_pixel src x y) \<and>
    at_pixel (rotate180 conv blank src) (dx src - 1 - x) (dy src - 1 - y) = conv (at_pixel src x y) \<and>
    at_pixel (rotate270 conv blank src) y (dx src - 1 - x) = conv (at_pixel src x y) \<and>
    dx (rotate90 conv blank src) = dy src \<and> dy (rotate90 conv blank src) = dx src"
  using rotate90_spec [of conv blank src x y] rotate180_spec [of conv blank src x y]
    rotate270_spec [of conv blank src x y] assms by blast

definition sample_img :: "int img" where
  "sample_img = \<lparr>minX = 10, minY = 20, dx = 3, dy = 2, pix = (\<lambda>(x, y). 100 * x + y)\<rparr>"

theorem rotation_places_pixels_witness:
  "at_pixel (rotate90 id 0 sample_img) 1 2 = 1220 \<and> at_pixel (rotate270 id 0 sample_img) 0 0 = 1220"
  using rotation_places_pixels [of 2 sample_img 0 id 0] by (simp add: sample_img_def at_pixel_def)

text \<open>C38: the rotations compose as turns: a quarter turn back undoes a quarter turn, half a turn undoes
  itself, and two quarter turns are half a turn, on every pixel, where the stored colours are fixed by
  the colour conversion.\<close>

theorem rotations_compose:
  assumes "\<And>c. conv (conv c) = conv c" and "0 \<le> x" and "x < dx src" and "0 \<le> y" and "y < dy src"
  shows "at_pixel (rotate270 conv blank (rotate90 conv blank src)) x y = conv (at_pixel src x y) \<and>
    at_pixel (rotate180 conv blank (rotate180 conv blank src)) x y = conv (at_pixel src x y) \<and>
    at_pixel (rotate90 conv blank (rotate90 conv blank src)) x y = at_pixel (rotate180 conv blank src) x y"
proof (intro conjI)
  let ?r = "rotate90 conv blank src"
  note r = rotate90_spec [of conv blank src]
  from rotate270_spec [of conv blank ?r "dy src - 1 - y" x] r [of x y] assms
  show "at_pixel (rotate270 conv blank ?r) x y = conv (at_pixel src x y)" by simp
  from rotate180_spec [of conv blank "rotate180 conv blank src" "dx src - 1 - x" "dy src - 1 - y"]
    rotate180_spec [of conv blank src x y] assms
  show "at_pixel (rotate180 conv blank (rotate180 conv blank src)) x y = conv (at_pixel src x y)" by simp
  from rotate90_spec [of conv blank ?r y "dx src - 1 - x"] r [of "dx src - 1 - x" "dy src - 1 - y"]
    rotate180_spec [of conv blank src "dx src - 1 - x" "dy src - 1 - y"] assms
  show "at_pixel (rotate90 conv blank ?r) x y = at_pixel (rotate180 conv blank src) x y" by simp
qed

theorem rotations_compose_witness:
  "at_pixel (rotate270 id 0 (rotate90 id 0 sample_img)) 2 1 = 1221"
  using rotations_compose [of id 2 sample_img 1 0] by (simp add: sample_img_def at_pixel_def)

text \<open>reloading the configuration is all or nothing: a file that parses replaces every camera's
  angle, with its normalised entry or none; a file that is missing or damaged changes nothing. The
  returned count is the number of entries in effect after a successful parse, but a missing file reports
  zero entries while the previous ones stay in effect.\<close>

theorem reload_all_or_nothing:
  "(\<forall>d raw. file = FileData d \<longrightarrow> parse d = Some raw \<longrightarrow>
      fst (Reload parse file rc) = Inr (length raw) \<and>
      Get (snd (Reload parse file rc)) cid =
        (case map_of raw cid of None \<Rightarrow> Angle0 | Some deg \<Rightarrow> Normalize deg)) \<and>
   ((\<forall>d raw. file = FileData d \<longrightarrow> parse d \<noteq> Some raw) \<longrightarrow> snd (Reload parse file rc) = rc) \<and>
   (file = FileMissing \<longrightarrow> fst (Reload parse file rc) = Inr 0) \<and>
   (\<forall>e. file = FileFailed e \<longrightarrow> fst (Reload parse file rc) = Inl (ConfigRead e))"
proof -
  have "map_of (map (\<lambda>(cid, deg). (cid, Normalize deg)) raw) cid = map_option Normalize (map_of raw cid)" for raw
    by (induction raw) auto
  then show ?thesis
    by (auto simp: Reload_def Get_def Let_def split: file_read.splits option.splits)
qed

theorem reload_all_or_nothing_witness:
  "Get (snd (Reload (\<lambda>_. Some [(''0'', 90), (''1'', - 90)]) (FileData []) \<lparr>angles = (\<lambda>_. None)\<rparr>)) ''1'' = 270"
proof -
  have "Normalize (- 90) = 270" by (simp add: Normalize_def go_mod_turn angle_defs)
  with reload_all_or_nothing [of "FileData []" "\<lambda>_. Some [(''0'', 90), (''1'', - 90)]" "\<lparr>angles = (\<lambda>_. None)\<rparr>" "''1''"]
  show ?thesis by simp
qed

end
