(* ===== verification/Livefeed_Hub.thy ===== *)
theory Livefeed_Hub
  imports Fanout Stream_Proto
begin

section \<open>Broadcaster and Hub (shared/livefeed/broadcaster.go, hub.go)\<close>

text \<open>
  The two fan-out objects of a restream proxy: the \<open>Broadcaster\<close> for downstream TCP clients
  (frames, two places per subscriber, the oldest gives way) and the \<open>Hub\<close> of one camera for HTTP
  viewers (JPEG bytes, eight places, the newest gives way) with its liveness state. Both extend or
  instantiate the record \<open>bcast\<close>, and their safety under interleaving is that of the locale
  \<open>queue_policy\<close>, through its interpretations. Frames are non-nil slices, as every caller in the
  repository passes them.
\<close>

subsection \<open>Broadcaster\<close>

type_synonym broadcaster = "sframe bcast"

definition NewBroadcaster :: broadcaster where
  "NewBroadcaster = bcast_init"

definition bc_cap :: nat where "bc_cap = 2"

definition Broadcaster_Publish :: "sframe \<Rightarrow> broadcaster \<Rightarrow> broadcaster option" where
  "Broadcaster_Publish f b = fan offer_drop_oldest f (store_latest f b)"

definition Broadcaster_Subscribe :: "broadcaster \<Rightarrow> nat \<times> broadcaster" where
  "Broadcaster_Subscribe b = subscribe_with bc_cap b"

definition Broadcaster_unsubscribe :: "nat \<Rightarrow> broadcaster \<Rightarrow> broadcaster option" where
  "Broadcaster_unsubscribe i b = unsubscribe i b"

subsection \<open>Hub\<close>

definition offlineThreshold :: int where "offlineThreshold = 5 * second"
definition subBufSize :: nat where "subBufSize = 8"

record hub = "bytes bcast" +
  hub_id :: string
  lastSeen :: int
  online :: bool

definition newHub :: "string \<Rightarrow> hub" where
  "newHub hid = \<lparr>latest = None, chans = (\<lambda>_. make_chan 0), subs = [], nextc = 0,
     hub_id = hid, lastSeen = 0, online = False\<rparr>"

definition Hub_Subscribe :: "hub \<Rightarrow> nat \<times> hub" where
  "Hub_Subscribe h = subscribe_with subBufSize h"

definition Hub_Unsubscribe :: "nat \<Rightarrow> hub \<Rightarrow> hub option" where
  "Hub_Unsubscribe i h = unsubscribe i h"

definition Hub_store :: "gotime \<Rightarrow> bytes \<Rightarrow> hub \<Rightarrow> hub" where
  "Hub_store now jpeg h = (store_latest jpeg h)\<lparr>lastSeen := i64 now, online := True\<rparr>"

definition Hub_Push :: "gotime \<Rightarrow> bytes \<Rightarrow> hub \<Rightarrow> hub option" where
  "Hub_Push now jpeg h = fan offer_drop_newest jpeg (Hub_store now jpeg h)"

definition Hub_MarkOffline :: "hub \<Rightarrow> hub" where
  "Hub_MarkOffline h = h\<lparr>online := False\<rparr>"

definition Hub_Online :: "hub \<Rightarrow> bool" where
  "Hub_Online h = online h"

definition Hub_IsStale :: "gotime \<Rightarrow> hub \<Rightarrow> bool" where
  "Hub_IsStale now h =
     (if \<not> online h then False
      else (let ls = lastSeen h in ls \<noteq> 0 \<and> time_sub now ls > offlineThreshold))"

record cam_info =
  ID :: string
  Index :: int
  Online :: bool
  Rotation :: int

definition Hub_info :: "hub \<Rightarrow> int \<Rightarrow> int \<Rightarrow> cam_info" where
  "Hub_info h index rotation = \<lparr>ID = hub_id h, Index = index, Online = online h, Rotation = rotation\<rparr>"

definition LatestFrame :: "hub \<Rightarrow> bytes option" where
  "LatestFrame h = latest h"

lemmas hub_ops = Hub_store_def Hub_Push_def Hub_MarkOffline_def Hub_IsStale_def Hub_info_def
  LatestFrame_def Hub_Subscribe_def Hub_Unsubscribe_def

subsection \<open>Well-formed objects\<close>

definition bcast_ok :: "nat \<Rightarrow> ('a, 'z) bcast_scheme \<Rightarrow> bool" where
  "bcast_ok cap b \<longleftrightarrow> distinct (subs b) \<and>
     list_all (\<lambda>i. i < nextc b \<and> chan_ok (chans b i) \<and> ccap (chans b i) = cap) (subs b)"

lemma bcast_ok_open: "bcast_ok cap b \<Longrightarrow> i \<in> set (subs b) \<Longrightarrow> \<not> cclosed (chans b i)"
  by (auto simp: bcast_ok_def list_all_iff chan_ok_def)

lemma bcast_ok_subscribe:
  "bcast_ok cap b \<Longrightarrow> 0 < cap \<Longrightarrow> bcast_ok cap (snd (subscribe_with cap b))"
  by (auto simp: bcast_ok_def list_all_iff subscribe_with_eq chan_ok_def split: option.split)

lemma bcast_ok_unsubscribe:
  "bcast_ok cap b \<Longrightarrow> unsubscribe i b = Some b' \<Longrightarrow> bcast_ok cap b'"
  by (auto simp: bcast_ok_def list_all_iff unsubscribe_def close_sub_Some unregister_def distinct_removeAll)

context queue_policy
begin

lemma bcast_ok_fan:
  assumes "bcast_ok cap b"
  shows "\<exists>b'. fan offer v b = Some b' \<and> bcast_ok cap b' \<and> b' = b\<lparr>chans := chans b'\<rparr> \<and>
    (\<forall>i. if i \<in> set (subs b) then offer v (chans b i) = Some (chans b' i) else chans b' i = chans b i)"
proof -
  from assms have o: "\<And>i. i \<in> set (subs b) \<Longrightarrow> \<not> cclosed (chans b i)" and d: "distinct (subs b)"
    by (auto simp: bcast_ok_open) (simp add: bcast_ok_def)
  from fan_out_open [of "subs b" "chans b" v, OF o d] obtain h' where
    f: "fan_out offer v (subs b) (chans b) = Some h'" and
    h: "\<And>i. if i \<in> set (subs b) then offer v (chans b i) = Some (h' i) else h' i = chans b i" by blast
  have "chan_ok (h' i) \<and> ccap (h' i) = cap" if "i \<in> set (subs b)" for i
  proof -
    from h [of i] that have of: "offer v (chans b i) = Some (h' i)" by simp
    from assms that have "chan_ok (chans b i)" "ccap (chans b i) = cap"
      by (auto simp: bcast_ok_def list_all_iff)
    with offer_frame [OF of] offer_bounded [OF of] show ?thesis by (simp add: chan_ok_def)
  qed
  with assms have "bcast_ok cap (b\<lparr>chans := h'\<rparr>)" by (simp add: bcast_ok_def list_all_iff)
  with f h show ?thesis by (intro exI [of _ "b\<lparr>chans := h'\<rparr>"]) (simp add: fan_def)
qed

end

lemma offer_drop_oldest_chan_ok:
  "chan_ok c \<Longrightarrow> offer_drop_oldest v c = Some (c\<lparr>cbuf := lastn (ccap c) (cbuf c @ [v])\<rparr>)"
  by (simp add: offer_drop_oldest_def Send_chan_ok)

lemma offer_drop_newest_chan_ok:
  "chan_ok c \<Longrightarrow> offer_drop_newest v c =
     Some (c\<lparr>cbuf := if length (cbuf c) < ccap c then cbuf c @ [v] else cbuf c\<rparr>)"
  by (simp add: offer_drop_newest_def try_send_def chan_ok_def)

text \<open>A whole \<open>Push\<close> is a store step followed by a fan-out step of the interleaved system, with a
  step on the liveness fields in between.\<close>

lemma Hub_Push_steps:
  assumes "Hub_Push now v (core s) = Some h'"
  shows "\<exists>t. (fan_step offer_drop_newest subBufSize)\<^sup>*\<^sup>* s t \<and> core t = h' \<and> pending t = pending s"
proof -
  let ?s1 = "s\<lparr>core := store_latest v (core s), pending := v # pending s\<rparr>"
  let ?s2 = "?s1\<lparr>core := Hub_store now v (core s)\<rparr>"
  have st: "fan_step offer_drop_newest subBufSize s ?s1" by (rule fs_store)
  have ot: "fan_step offer_drop_newest subBufSize ?s1 ?s2"
    using fs_other [of "Hub_store now v (core s)" ?s1] by (simp add: Hub_store_def store_latest_def)
  from assms have "fan offer_drop_newest v (core ?s2) = Some h'" by (simp add: Hub_Push_def)
  then obtain t where t: "fan_step offer_drop_newest subBufSize ?s2 t" "core t = h'" "pending t = pending s"
    using fs_fan [of v ?s2 offer_drop_newest h' subBufSize] by fastforce
  from st ot t(1) have "(fan_step offer_drop_newest subBufSize)\<^sup>*\<^sup>* s t"
    by (meson rtranclp.rtrancl_into_rtrancl rtranclp.rtrancl_refl)
  with t show ?thesis by blast
qed

lemma Broadcaster_Publish_ok:
  assumes "bcast_ok bc_cap b"
  shows "\<exists>b'. Broadcaster_Publish f b = Some b' \<and> bcast_ok bc_cap b' \<and> latest b' = Some f \<and> subs b' = subs b \<and>
    (\<forall>i. cbuf (chans b' i) =
       (if i \<in> set (subs b) then lastn bc_cap (cbuf (chans b i) @ [f]) else cbuf (chans b i)))"
proof -
  let ?b = "store_latest f b"
  from assms have ok: "bcast_ok bc_cap ?b" by (simp add: bcast_ok_def store_latest_def)
  from oldest.bcast_ok_fan [OF ok, of f] obtain b' where b': "fan offer_drop_oldest f ?b = Some b'"
    "bcast_ok bc_cap b'" "b' = ?b\<lparr>chans := chans b'\<rparr>"
    "\<And>i. if i \<in> set (subs ?b) then offer_drop_oldest f (chans ?b i) = Some (chans b' i)
        else chans b' i = chans ?b i" by blast
  have "cbuf (chans b' i) =
      (if i \<in> set (subs b) then lastn bc_cap (cbuf (chans b i) @ [f]) else cbuf (chans b i))" for i
  proof (cases "i \<in> set (subs b)")
    case True
    with assms have "chan_ok (chans b i)" "ccap (chans b i) = bc_cap" by (auto simp: bcast_ok_def list_all_iff)
    with b'(4) [of i] True have "chans b' i = (chans b i)\<lparr>cbuf := lastn bc_cap (cbuf (chans b i) @ [f])\<rparr>"
      by (simp add: offer_drop_oldest_chan_ok store_latest_def)
    with True show ?thesis by simp
  next
    case False
    with b'(4) [of i] show ?thesis by (simp add: store_latest_def)
  qed
  moreover obtain H where "b' = ?b\<lparr>chans := H\<rparr>" using b'(3) by blast
  then have "latest b' = Some f" "subs b' = subs b" by (simp_all add: store_latest_def)
  ultimately show ?thesis using b'(1,2) by (auto simp: Broadcaster_Publish_def)
qed

subsection \<open>Properties\<close>

text \<open>publishing a frame never blocks or panics; afterwards it is the latest frame, and every
  subscriber's queue holds the last two of the frames it held and the new one, so the new frame is
  queued for everyone, slow or not, and no other channel changes.\<close>

theorem broadcaster_publish_freshest:
  assumes "bcast_ok bc_cap b"
  shows "\<exists>b'. Broadcaster_Publish f b = Some b' \<and> bcast_ok bc_cap b' \<and> latest b' = Some f \<and> subs b' = subs b \<and>
    (\<forall>i. cbuf (chans b' i) =
       (if i \<in> set (subs b) then lastn bc_cap (cbuf (chans b i) @ [f]) else cbuf (chans b i)))"
  using Broadcaster_Publish_ok [OF assms] .

definition sample_broadcaster :: broadcaster where
  "sample_broadcaster = snd (Broadcaster_Subscribe NewBroadcaster)"

lemma sample_broadcaster_ok: "bcast_ok bc_cap sample_broadcaster"
  unfolding sample_broadcaster_def Broadcaster_Subscribe_def
  by (rule bcast_ok_subscribe) (simp_all add: NewBroadcaster_def bcast_init_def bcast_ok_def bc_cap_def)

theorem broadcaster_publish_freshest_witness:
  "\<exists>b'. Broadcaster_Publish sample_frame sample_broadcaster = Some b' \<and> latest b' = Some sample_frame"
  using broadcaster_publish_freshest [OF sample_broadcaster_ok, of sample_frame] by blast


text \<open>however publishers, viewers that come and go and slow readers interleave around a hub's
  lock, nothing sends on or closes a closed channel, no viewer has more than eight frames queued, and
  what a viewer has received, followed by what it has queued, is the frames offered to it in their
  order with some left out.\<close>

theorem hub_fan_out_safe:
  fixes s :: "(bytes, 'z) fansys"
  assumes "fan_reach offer_drop_newest subBufSize s"
  shows "\<not> panicked s \<and> length (cbuf (chans (core s) i)) \<le> subBufSize \<and>
    subseq (seen s i @ cbuf (chans (core s) i)) (offered s i)"
  using newest.fan_reach_safe [OF assms] by blast

definition hub_sys :: "(bytes, \<lparr>hub_id :: string, lastSeen :: int, online :: bool\<rparr>) fansys" where
  "hub_sys = fansys_init (newHub ''17'')"

lemma hub_sys_reach: "fan_reach offer_drop_newest subBufSize hub_sys"
  unfolding hub_sys_def by (rule fr_start) (simp_all add: newHub_def)

definition hub_sys_one :: "(bytes, \<lparr>hub_id :: string, lastSeen :: int, online :: bool\<rparr>) fansys" where
  "hub_sys_one = hub_sys\<lparr>core := snd (Hub_Subscribe (newHub ''17'')),
     seen := (seen hub_sys)(0 := []), offered := (offered hub_sys)(0 := [])\<rparr>"

lemma hub_sys_one_reach: "fan_reach offer_drop_newest subBufSize hub_sys_one"
proof (rule fr_step [OF hub_sys_reach])
  have "subscribe_with subBufSize (core hub_sys) = (0, snd (Hub_Subscribe (newHub ''17'')))"
    by (simp add: hub_sys_def fansys_init_def Hub_Subscribe_def subscribe_with_eq newHub_def)
  from fs_subscribe [OF this, of offer_drop_newest]
  show "fan_step offer_drop_newest subBufSize hub_sys hub_sys_one"
    by (simp add: hub_sys_one_def hub_sys_def fansys_init_def newHub_def)
qed

theorem hub_fan_out_safe_witness:
  "\<not> panicked hub_sys_one \<and> length (cbuf (chans (core hub_sys_one) 0)) \<le> 8 \<and> subs (core hub_sys_one) = [0]"
  using hub_fan_out_safe [OF hub_sys_one_reach, of 0]
  by (simp add: subBufSize_def hub_sys_one_def Hub_Subscribe_def subscribe_with_eq newHub_def)

text \<open>the same for the broadcaster, whose subscribers hold at most two frames and lose the oldest.\<close>

theorem broadcaster_fan_out_safe:
  fixes s :: "(sframe, unit) fansys"
  assumes "fan_reach offer_drop_oldest bc_cap s"
  shows "\<not> panicked s \<and> length (cbuf (chans (core s) i)) \<le> bc_cap \<and>
    subseq (seen s i @ cbuf (chans (core s) i)) (offered s i) \<and>
    (i \<in> set (subs (core s)) \<longrightarrow> \<not> cclosed (chans (core s) i))"
  using oldest.fan_reach_safe [OF assms] by blast

theorem broadcaster_fan_out_safe_witness:
  "\<not> panicked (fansys_init NewBroadcaster) \<and>
   length (cbuf (chans (core (fansys_init NewBroadcaster)) 0)) \<le> bc_cap"
proof -
  have "fan_reach offer_drop_oldest bc_cap (fansys_init NewBroadcaster)"
    by (rule fr_start) (simp_all add: NewBroadcaster_def bcast_init_def)
  from broadcaster_fan_out_safe [OF this, of 0] show ?thesis by simp
qed

text \<open>a hub's frame handling and liveness: a push makes the frame the latest one and the camera
  online, every viewer that had room gets the frame and every full one keeps what it had; a new viewer
  finds the latest frame queued; and the camera turns stale exactly when more than five seconds have
  passed since the push.\<close>

theorem hub_push_and_staleness:
  assumes "bcast_ok subBufSize h" and "in_i64 t" and "t \<noteq> 0" and "in_i64 (now - t)"
  shows "\<exists>h'. Hub_Push t jpeg h = Some h' \<and> bcast_ok subBufSize h' \<and>
    LatestFrame h' = Some jpeg \<and> online h' \<and> hub_id h' = hub_id h \<and> subs h' = subs h \<and>
    cbuf (chans (snd (Hub_Subscribe h')) (fst (Hub_Subscribe h'))) = [jpeg] \<and>
    (\<forall>i. cbuf (chans h' i) = cbuf (chans h i) @
       (if i \<in> set (subs h) \<and> length (cbuf (chans h i)) < subBufSize then [jpeg] else [])) \<and>
    (Hub_IsStale now h' \<longleftrightarrow> now - t > 5 * second) \<and> \<not> Hub_IsStale now (Hub_MarkOffline h')"
proof -
  let ?h = "Hub_store t jpeg h"
  from assms have ok: "bcast_ok subBufSize ?h" by (simp add: bcast_ok_def Hub_store_def store_latest_def)
  from newest.bcast_ok_fan [OF ok, of jpeg] obtain h' where h': "fan offer_drop_newest jpeg ?h = Some h'"
    "bcast_ok subBufSize h'" "h' = ?h\<lparr>chans := chans h'\<rparr>"
    "\<And>i. if i \<in> set (subs ?h) then offer_drop_newest jpeg (chans ?h i) = Some (chans h' i)
        else chans h' i = chans ?h i" by blast
  have c: "cbuf (chans h' i) = cbuf (chans h i) @
       (if i \<in> set (subs h) \<and> length (cbuf (chans h i)) < subBufSize then [jpeg] else [])" for i
  proof (cases "i \<in> set (subs h)")
    case True
    with assms(1) have ci: "chan_ok (chans h i)" "ccap (chans h i) = subBufSize"
      by (auto simp: bcast_ok_def list_all_iff)
    with h'(4) [of i] True have "chans h' i = (chans h i)\<lparr>cbuf := if length (cbuf (chans h i)) < subBufSize
        then cbuf (chans h i) @ [jpeg] else cbuf (chans h i)\<rparr>"
      by (simp add: offer_drop_newest_chan_ok store_latest_def Hub_store_def)
    with True show ?thesis by simp
  next
    case False
    with h'(4) [of i] show ?thesis by (simp add: store_latest_def Hub_store_def)
  qed
  obtain H where h'': "h' = ?h\<lparr>chans := H\<rparr>" using h'(3) by blast
  show ?thesis
    using h'(1,2) c h'' assms(2-4)
    by (intro exI [of _ h'])
      (simp add: hub_ops store_latest_def subscribe_with_eq subBufSize_def offlineThreshold_def time_sub_def in_i64_def)
qed

lemma newHub_ok: "bcast_ok subBufSize (newHub cid)"
  by (simp add: bcast_ok_def newHub_def)

theorem hub_push_and_staleness_witness:
  "\<exists>h'. Hub_Push (10 * second) [0xFF] (newHub ''3'') = Some h' \<and> Hub_IsStale (16 * second) h' \<and>
     LatestFrame h' = Some [0xFF]"
  using hub_push_and_staleness [OF newHub_ok, of "10 * second" "16 * second" "[0xFF]" "''3''"]
  by (auto simp: in_i64_def second_def)

end
