(* ===== verification/Livefeed_Registry.thy ===== *)
theory Livefeed_Registry
  imports Livefeed_Hub
begin

section \<open>The camera registry (shared/livefeed/registry.go, camerainfo.go)\<close>

text \<open>
  \<open>Registry\<close> creates one hub per camera ID on first use and never removes it, so a hub's identity
  is its ID and the map from IDs to hub states stands for the pointers. The operations that several
  goroutines call (receive loop, liveness ticker, HTTP handlers) are the constructors of
  \<open>reg_op\<close>; a run is a list of them. The abstract specification \<open>cam_step\<close> keeps of each
  camera only its last frame and whether it is online; the registry refines it.
\<close>

subsection \<open>State and operations\<close>

record registry =
  hubs :: "string \<rightharpoonup> hub"
  ordered :: "string list"

definition NewRegistry :: registry where
  "NewRegistry = \<lparr>hubs = (\<lambda>_. None), ordered = []\<rparr>"

definition getOrCreate :: "string \<Rightarrow> registry \<Rightarrow> hub \<times> registry" where
  "getOrCreate cid r =
     (case hubs r cid of
        Some h \<Rightarrow> (h, r)
      | None \<Rightarrow> let h = newHub cid in (h, \<lparr>hubs = (hubs r)(cid \<mapsto> h), ordered = ordered r @ [cid]\<rparr>))"

definition Registry_Hub :: "string \<Rightarrow> registry \<Rightarrow> hub \<times> registry" where
  "Registry_Hub cid r = getOrCreate cid r"

definition Lookup :: "string \<Rightarrow> registry \<Rightarrow> hub option" where
  "Lookup cid r = hubs r cid"

definition set_hub :: "string \<Rightarrow> hub \<Rightarrow> registry \<Rightarrow> registry" where
  "set_hub cid h r = r\<lparr>hubs := (hubs r)(cid \<mapsto> h)\<rparr>"

definition Registry_MarkOffline :: "string \<Rightarrow> registry \<Rightarrow> registry" where
  "Registry_MarkOffline cid r =
     (case Lookup cid r of None \<Rightarrow> r | Some h \<Rightarrow> set_hub cid (Hub_MarkOffline h) r)"

text \<open>\<open>snapshotHubs\<close> and the loop over it: every hub once, in the map's unspecified order, which
  does not matter because each iteration touches only its own hub.\<close>

definition for_all_hubs :: "(hub \<Rightarrow> hub) \<Rightarrow> registry \<Rightarrow> registry" where
  "for_all_hubs f r = r\<lparr>hubs := (\<lambda>cid. map_option f (hubs r cid))\<rparr>"

definition MarkAllOffline :: "registry \<Rightarrow> registry" where
  "MarkAllOffline r = for_all_hubs Hub_MarkOffline r"

definition check_hub :: "gotime \<Rightarrow> hub \<Rightarrow> hub" where
  "check_hub now h = (if Hub_IsStale now h then Hub_MarkOffline h else h)"

definition CheckLiveness :: "gotime \<Rightarrow> registry \<Rightarrow> registry" where
  "CheckLiveness now r = for_all_hubs (check_hub now) r"

text \<open>\<open>RunLiveness\<close>: one check per tick until the context is done.\<close>

fun RunLiveness :: "gotime option list \<Rightarrow> registry \<Rightarrow> registry" where
  "RunLiveness [] r = r"
| "RunLiveness (None # _) r = r"
| "RunLiveness (Some now # ticks) r = RunLiveness ticks (CheckLiveness now r)"

definition Registry_Push :: "gotime \<Rightarrow> string \<Rightarrow> bytes \<Rightarrow> registry \<Rightarrow> registry option" where
  "Registry_Push now cid jpeg r =
     (let (h, r1) = getOrCreate cid r
      in map_option (\<lambda>h'. set_hub cid h' r1) (Hub_Push now jpeg h))"

text \<open>The loop of \<open>KnownCameras\<close> over the sorted entries; a nil hub would panic.\<close>

fun build_infos :: "(string \<Rightarrow> int) option \<Rightarrow> int \<Rightarrow> (string \<times> hub option) list \<Rightarrow> cam_info list option" where
  "build_infos rotation i [] = Some []"
| "build_infos rotation i ((cid, None) # es) = None"
| "build_infos rotation i ((cid, Some h) # es) =
     (let rot = (case rotation of None \<Rightarrow> 0 | Some f \<Rightarrow> f cid)
      in map_option (\<lambda>infos. Hub_info h i rot # infos) (build_infos rotation (i + 1) es))"

definition KnownCameras :: "(string \<Rightarrow> int) option \<Rightarrow> registry \<Rightarrow> cam_info list option" where
  "KnownCameras rotation r =
     (let entries = map (\<lambda>cid. (cid, hubs r cid)) (ordered r)
      in build_infos rotation 0 (sort_key fst entries))"

subsection \<open>Runs\<close>

datatype reg_op =
    OpPush gotime string bytes
  | OpHub string
  | OpMarkOffline string
  | OpMarkAllOffline
  | OpCheck gotime
  | OpSubscribe string
  | OpUnsubscribe string nat

fun reg_apply :: "reg_op \<Rightarrow> registry \<Rightarrow> registry option" where
  "reg_apply (OpPush now cid jpeg) r = Registry_Push now cid jpeg r"
| "reg_apply (OpHub cid) r = Some (snd (Registry_Hub cid r))"
| "reg_apply (OpMarkOffline cid) r = Some (Registry_MarkOffline cid r)"
| "reg_apply OpMarkAllOffline r = Some (MarkAllOffline r)"
| "reg_apply (OpCheck now) r = Some (CheckLiveness now r)"
| "reg_apply (OpSubscribe cid) r =
     (case Lookup cid r of None \<Rightarrow> Some r | Some h \<Rightarrow> Some (set_hub cid (snd (Hub_Subscribe h)) r))"
| "reg_apply (OpUnsubscribe cid i) r =
     (case Lookup cid r of
        None \<Rightarrow> Some r
      | Some h \<Rightarrow> map_option (\<lambda>h'. set_hub cid h' r) (Hub_Unsubscribe i h))"

fun reg_run :: "reg_op list \<Rightarrow> registry \<Rightarrow> registry option" where
  "reg_run [] r = Some r"
| "reg_run (op # ops) r = (case reg_apply op r of None \<Rightarrow> None | Some r' \<Rightarrow> reg_run ops r')"

subsection \<open>The abstract specification\<close>

record cam_state =
  cam_last :: "(int \<times> bytes) option"
  cam_online :: bool

definition cam_new :: cam_state where
  "cam_new = \<lparr>cam_last = None, cam_online = False\<rparr>"

fun cam_step :: "string \<Rightarrow> reg_op \<Rightarrow> cam_state option \<Rightarrow> cam_state option" where
  "cam_step cid (OpPush now k jpeg) c =
     (if k = cid then Some \<lparr>cam_last = Some (i64 now, jpeg), cam_online = True\<rparr> else c)"
| "cam_step cid (OpHub k) c = (if k = cid \<and> c = None then Some cam_new else c)"
| "cam_step cid (OpMarkOffline k) c = (if k = cid then map_option (cam_online_update (\<lambda>_. False)) c else c)"
| "cam_step cid OpMarkAllOffline c = map_option (cam_online_update (\<lambda>_. False)) c"
| "cam_step cid (OpCheck now) c =
     map_option (\<lambda>s. case cam_last s of
         None \<Rightarrow> s
       | Some (t, _) \<Rightarrow> if t \<noteq> 0 \<and> time_sub now t > offlineThreshold then s\<lparr>cam_online := False\<rparr> else s) c"
| "cam_step cid (OpSubscribe k) c = c"
| "cam_step cid (OpUnsubscribe k i) c = c"

definition cam_abs :: "hub \<Rightarrow> cam_state" where
  "cam_abs h = \<lparr>cam_last = map_option (\<lambda>j. (lastSeen h, j)) (latest h), cam_online = online h\<rparr>"

definition abs_registry :: "string \<Rightarrow> registry \<Rightarrow> cam_state option" where
  "abs_registry cid r = map_option cam_abs (hubs r cid)"

subsection \<open>The invariant\<close>

definition hub_ok :: "string \<Rightarrow> hub \<Rightarrow> bool" where
  "hub_ok cid h \<longleftrightarrow> hub_id h = cid \<and> bcast_ok subBufSize h \<and> (latest h = None \<longrightarrow> \<not> online h)"

definition reg_ok :: "registry \<Rightarrow> bool" where
  "reg_ok r \<longleftrightarrow> distinct (ordered r) \<and> set (ordered r) = dom (hubs r) \<and>
     (\<forall>cid h. hubs r cid = Some h \<longrightarrow> hub_ok cid h)"

lemmas reg_defs = Registry_Hub_def Lookup_def set_hub_def Registry_MarkOffline_def for_all_hubs_def
  MarkAllOffline_def CheckLiveness_def

lemma reg_ok_new: "reg_ok NewRegistry"
  by (simp add: reg_ok_def NewRegistry_def)

lemma hub_ok_new: "hub_ok cid (newHub cid)"
  by (simp add: hub_ok_def newHub_ok) (simp add: newHub_def)

lemma reg_ok_set:
  "reg_ok r \<Longrightarrow> hubs r cid = Some h \<Longrightarrow> hub_ok cid h' \<Longrightarrow> reg_ok (set_hub cid h' r)"
  by (auto simp: reg_ok_def set_hub_def)

lemma getOrCreate_ok:
  assumes "reg_ok r" "getOrCreate cid r = (h, r')"
  shows "reg_ok r' \<and> hubs r' cid = Some h \<and> hub_ok cid h \<and>
    abs_registry k r' = cam_step k (OpHub cid) (abs_registry k r)"
proof (cases "hubs r cid")
  case None
  with assms(2) have h: "h = newHub cid" "r' = \<lparr>hubs = (hubs r)(cid \<mapsto> newHub cid), ordered = ordered r @ [cid]\<rparr>"
    by (auto simp: getOrCreate_def Let_def)
  with assms(1) None hub_ok_new [of cid] have "reg_ok r'" by (auto simp: reg_ok_def)
  moreover have "cam_abs (newHub cid) = cam_new" by (simp add: cam_abs_def cam_new_def newHub_def)
  ultimately show ?thesis using h None hub_ok_new [of cid] by (simp add: abs_registry_def)
next
  case (Some g)
  with assms show ?thesis by (auto simp: getOrCreate_def reg_ok_def abs_registry_def)
qed

lemma for_all_hubs_ok:
  "reg_ok r \<Longrightarrow> (\<And>cid h. hub_ok cid h \<Longrightarrow> hub_ok cid (f h)) \<Longrightarrow> reg_ok (for_all_hubs f r)"
  by (auto simp: reg_ok_def for_all_hubs_def)

lemma hub_ok_offline: "hub_ok cid h \<Longrightarrow> hub_ok cid (Hub_MarkOffline h)"
  by (simp add: hub_ok_def Hub_MarkOffline_def bcast_ok_def)

lemma hub_ok_check: "hub_ok cid h \<Longrightarrow> hub_ok cid (check_hub now h)"
  by (simp add: check_hub_def hub_ok_offline)

lemma Hub_Push_ok:
  assumes "hub_ok cid h"
  shows "\<exists>h'. Hub_Push now jpeg h = Some h' \<and> hub_ok cid h' \<and>
    cam_abs h' = \<lparr>cam_last = Some (i64 now, jpeg), cam_online = True\<rparr>"
proof -
  from assms have "bcast_ok subBufSize (Hub_store now jpeg h)"
    by (simp add: hub_ok_def bcast_ok_def Hub_store_def store_latest_def)
  from newest.bcast_ok_fan [OF this, of jpeg] obtain h' H where
    "fan offer_drop_newest jpeg (Hub_store now jpeg h) = Some h'" "bcast_ok subBufSize h'"
    "h' = (Hub_store now jpeg h)\<lparr>chans := H\<rparr>" by blast
  with assms show ?thesis
    by (intro exI [of _ h']) (simp add: hub_ok_def Hub_Push_def cam_abs_def Hub_store_def store_latest_def)
qed

lemma hub_ok_subscribe: "hub_ok cid h \<Longrightarrow> hub_ok cid (snd (Hub_Subscribe h)) \<and> cam_abs (snd (Hub_Subscribe h)) = cam_abs h"
  using bcast_ok_subscribe [of subBufSize h]
  by (simp add: hub_ok_def Hub_Subscribe_def subBufSize_def) (simp add: subscribe_with_eq cam_abs_def)

lemma hub_ok_unsubscribe:
  "hub_ok cid h \<Longrightarrow> Hub_Unsubscribe i h = Some h' \<Longrightarrow> hub_ok cid h' \<and> cam_abs h' = cam_abs h"
  using bcast_ok_unsubscribe [of subBufSize h i h']
  by (auto simp: hub_ok_def Hub_Unsubscribe_def unsubscribe_def close_sub_Some unregister_def cam_abs_def)

lemma Hub_Unsubscribe_ok: "hub_ok cid h \<Longrightarrow> i \<in> set (subs h) \<Longrightarrow> \<exists>h'. Hub_Unsubscribe i h = Some h'"
  using bcast_ok_open [of subBufSize h i]
  by (auto simp: hub_ok_def Hub_Unsubscribe_def unsubscribe_def close_sub_Some unregister_def)

lemma reg_okD: "reg_ok r \<Longrightarrow> hubs r cid = Some h \<Longrightarrow> hub_ok cid h"
  by (simp add: reg_ok_def)

lemma Registry_Push_ok:
  assumes "reg_ok r"
  shows "\<exists>r'. Registry_Push now cid jpeg r = Some r' \<and> reg_ok r' \<and>
    abs_registry k r' = cam_step k (OpPush now cid jpeg) (abs_registry k r)"
proof -
  obtain h r1 where g: "getOrCreate cid r = (h, r1)" by fastforce
  note g1 = getOrCreate_ok [OF assms g, of k]
  from g1 Hub_Push_ok obtain h' where h': "Hub_Push now jpeg h = Some h'" "hub_ok cid h'"
    "cam_abs h' = \<lparr>cam_last = Some (i64 now, jpeg), cam_online = True\<rparr>" by blast
  from g1 h' reg_ok_set have "reg_ok (set_hub cid h' r1)" by blast
  with g g1 h' show ?thesis by (auto simp: Registry_Push_def abs_registry_def set_hub_def)
qed

lemma reg_apply_ok:
  assumes "reg_ok r" "reg_apply op r = Some r'"
  shows "reg_ok r' \<and> abs_registry k r' = cam_step k op (abs_registry k r)"
proof (cases op)
  case (OpPush now cid jpeg)
  with assms Registry_Push_ok [OF assms(1), of now cid jpeg k] show ?thesis by auto
next
  case (OpHub cid)
  with assms getOrCreate_ok [OF assms(1), of cid _ _ k] show ?thesis
    by (cases "getOrCreate cid r") (auto simp: reg_defs simp del: cam_step.simps)
next
  case (OpMarkOffline cid)
  show ?thesis
  proof (cases "hubs r cid")
    case None
    with assms OpMarkOffline show ?thesis by (auto simp: reg_defs abs_registry_def)
  next
    case (Some h)
    with assms OpMarkOffline have "r' = set_hub cid (Hub_MarkOffline h) r" by (simp add: reg_defs)
    with Some OpMarkOffline reg_ok_set [OF assms(1) Some hub_ok_offline [OF reg_okD [OF assms(1) Some]]]
    show ?thesis by (auto simp: abs_registry_def set_hub_def cam_abs_def Hub_MarkOffline_def)
  qed
next
  case OpMarkAllOffline
  with assms have r': "r' = for_all_hubs Hub_MarkOffline r" by (simp add: MarkAllOffline_def)
  with OpMarkAllOffline for_all_hubs_ok [of r Hub_MarkOffline, OF assms(1) hub_ok_offline] show ?thesis
    by (simp add: for_all_hubs_def abs_registry_def cam_abs_def Hub_MarkOffline_def option.map_comp comp_def)
next
  case (OpCheck now)
  with assms have r': "r' = for_all_hubs (check_hub now) r" by (simp add: CheckLiveness_def)
  have "cam_abs (check_hub now h) = (case cam_last (cam_abs h) of None \<Rightarrow> cam_abs h
      | Some (t, _) \<Rightarrow> if t \<noteq> 0 \<and> time_sub now t > offlineThreshold then (cam_abs h)\<lparr>cam_online := False\<rparr> else cam_abs h)"
    if "hub_ok cid h" for cid h
    using that by (cases "latest h") (auto simp: hub_ok_def check_hub_def Hub_IsStale_def Hub_MarkOffline_def cam_abs_def Let_def)
  with OpCheck r' for_all_hubs_ok [of r "check_hub now", OF assms(1) hub_ok_check] reg_okD [OF assms(1), of k] show ?thesis
    by (cases "hubs r k") (simp_all add: for_all_hubs_def abs_registry_def)
next
  case (OpSubscribe cid)
  show ?thesis
  proof (cases "hubs r cid")
    case None
    with assms OpSubscribe show ?thesis by (simp add: reg_defs)
  next
    case (Some h)
    from hub_ok_subscribe [OF reg_okD [OF assms(1) Some]] have
      s: "hub_ok cid (snd (Hub_Subscribe h))" "cam_abs (snd (Hub_Subscribe h)) = cam_abs h" by auto
    from reg_ok_set [OF assms(1) Some s(1)] s(2) Some assms(2) OpSubscribe show ?thesis
      by (auto simp: Lookup_def set_hub_def abs_registry_def)
  qed
next
  case (OpUnsubscribe cid i)
  show ?thesis
  proof (cases "hubs r cid")
    case None
    with assms OpUnsubscribe show ?thesis by (simp add: reg_defs)
  next
    case (Some h)
    with assms(2) OpUnsubscribe obtain h' where
      u: "Hub_Unsubscribe i h = Some h'" "r' = set_hub cid h' r" by (auto simp: Lookup_def)
    from hub_ok_unsubscribe [OF reg_okD [OF assms(1) Some] u(1)] have
      s: "hub_ok cid h'" "cam_abs h' = cam_abs h" by auto
    from reg_ok_set [OF assms(1) Some s(1)] s(2) Some u(2) OpUnsubscribe show ?thesis
      by (auto simp: set_hub_def abs_registry_def)
  qed
qed

lemma reg_run_ok:
  "reg_ok r \<Longrightarrow> reg_run ops r = Some r' \<Longrightarrow>
     reg_ok r' \<and> abs_registry k r' = fold (cam_step k) ops (abs_registry k r)"
proof (induction ops arbitrary: r)
  case Nil
  then show ?case by simp
next
  case (Cons op ops)
  then obtain r1 where r1: "reg_apply op r = Some r1" "reg_run ops r1 = Some r'"
    by (auto split: option.splits)
  from reg_apply_ok [OF Cons.prems(1) r1(1)] Cons.IH [OF _ r1(2)] show ?case by simp
qed


lemma reg_apply_total:
  assumes "reg_ok r"
    and "case op of OpUnsubscribe cid i \<Rightarrow> (case hubs r cid of None \<Rightarrow> True | Some h \<Rightarrow> i \<in> set (subs h)) | _ \<Rightarrow> True"
  shows "\<exists>r'. reg_apply op r = Some r'"
proof (cases op)
  case (OpPush now cid jpeg)
  with Registry_Push_ok [OF assms(1), of now cid jpeg undefined] show ?thesis by auto
next
  case (OpUnsubscribe cid i)
  with assms(2) Hub_Unsubscribe_ok [OF reg_okD [OF assms(1)], of cid _ i] show ?thesis
    by (cases "hubs r cid") (auto simp: Lookup_def)
qed (auto simp: reg_defs split: option.split)

lemma build_infos_ok:
  "(\<And>cid h. (cid, h) \<in> set es \<Longrightarrow> \<exists>g. h = Some g \<and> hub_id g = cid) \<Longrightarrow>
   \<exists>infos. build_infos rot i es = Some infos \<and> map ID infos = map fst es \<and>
     (\<forall>j < length infos. Index (infos ! j) = i + int j \<and>
        Rotation (infos ! j) = (case rot of None \<Rightarrow> 0 | Some f \<Rightarrow> f (ID (infos ! j))) \<and>
        Some (Online (infos ! j)) = map_option online (snd (es ! j)))"
proof (induction es arbitrary: i)
  case Nil
  then show ?case by simp
next
  case (Cons e es)
  obtain cid h where e: "e = (cid, h)" by (cases e)
  with Cons.prems obtain g where g: "h = Some g" "hub_id g = cid" by auto
  from Cons.IH [of "i + 1"] Cons.prems obtain infos where i: "build_infos rot (i + 1) es = Some infos"
    "map ID infos = map fst es"
    "\<And>j. j < length infos \<Longrightarrow> Index (infos ! j) = i + 1 + int j \<and>
        Rotation (infos ! j) = (case rot of None \<Rightarrow> 0 | Some f \<Rightarrow> f (ID (infos ! j))) \<and>
        Some (Online (infos ! j)) = map_option online (snd (es ! j))" by auto
  with e g show ?case by (auto simp: Hub_info_def nth_Cons' split: option.split)
qed

subsection \<open>Properties\<close>

text \<open>C5: the registry refines its specification: after any sequence of pushes, stream attachments,
  disconnects, liveness checks and viewers coming and going, each camera's last frame and online flag
  are what the specification computes from the operations on that camera alone, and the invariant
  holds: the list of IDs has each registered camera once.\<close>

theorem registry_refines:
  assumes "reg_run ops NewRegistry = Some r"
  shows "abs_registry cid r = fold (cam_step cid) ops None \<and>
    distinct (ordered r) \<and> set (ordered r) = dom (hubs r)"
  using reg_run_ok [OF reg_ok_new assms, of cid]
  by (simp add: reg_ok_def abs_registry_def NewRegistry_def)

definition sample_ops :: "reg_op list" where
  "sample_ops = [OpPush (10 * second) ''2'' [1], OpHub ''10'', OpCheck (16 * second), OpPush (17 * second) ''10'' [2]]"

lemma sample_run_Some: "\<exists>r. reg_run sample_ops NewRegistry = Some r"
proof -
  have "\<exists>r'. reg_run ops r = Some r'" if "reg_ok r" "list_all (\<lambda>op. case op of OpUnsubscribe _ _ \<Rightarrow> False | _ \<Rightarrow> True) ops"
    for ops r
    using that
  proof (induction ops arbitrary: r)
    case Nil
    then show ?case by simp
  next
    case (Cons op ops)
    then have "case op of OpUnsubscribe cid i \<Rightarrow> (case hubs r cid of None \<Rightarrow> True | Some h \<Rightarrow> i \<in> set (subs h)) | _ \<Rightarrow> True"
      by (cases op) auto
    from reg_apply_total [OF Cons.prems(1) this] obtain r1 where r1: "reg_apply op r = Some r1" ..
    with reg_apply_ok [OF Cons.prems(1) r1] Cons show ?case by simp
  qed
  from this [OF reg_ok_new, of sample_ops] show ?thesis by (simp add: sample_ops_def)
qed

theorem registry_refines_witness:
  "\<exists>r. reg_run sample_ops NewRegistry = Some r \<and>
     abs_registry ''2'' r = Some \<lparr>cam_last = Some (10 * second, [1]), cam_online = False\<rparr> \<and>
     abs_registry ''10'' r = Some \<lparr>cam_last = Some (17 * second, [2]), cam_online = True\<rparr>"
proof -
  from sample_run_Some obtain r where r: "reg_run sample_ops NewRegistry = Some r" ..
  from registry_refines [OF r, of "''2''"] registry_refines [OF r, of "''10''"] r show ?thesis
    by (intro exI [of _ r])
      (simp add: sample_ops_def cam_new_def offlineThreshold_def time_sub_def second_def in_i64_def)
qed



text \<open>the camera list shows every camera exactly once, strictly sorted by ID, numbered from zero,
  with the hub's online flag and the configured rotation (zero without a configuration).\<close>

theorem known_cameras_sorted:
  assumes "reg_ok r"
  shows "\<exists>infos. KnownCameras rot r = Some infos \<and> sorted_wrt (<) (map ID infos) \<and>
    set (map ID infos) = dom (hubs r) \<and>
    (\<forall>i < length infos. Index (infos ! i) = int i \<and>
       Rotation (infos ! i) = (case rot of None \<Rightarrow> 0 | Some f \<Rightarrow> f (ID (infos ! i))) \<and>
       Some (Online (infos ! i)) = map_option online (hubs r (ID (infos ! i))))"
proof -
  let ?es = "sort_key fst (map (\<lambda>cid. (cid, hubs r cid)) (ordered r))"
  have mem: "(cid, h) \<in> set ?es \<Longrightarrow> \<exists>g. h = Some g \<and> hub_id g = cid" for cid h
    using assms by (auto simp: reg_ok_def hub_ok_def dom_def)
  have snd_es: "j < length ?es \<Longrightarrow> snd (?es ! j) = hubs r (fst (?es ! j))" for j
    using nth_mem [of j ?es] by auto
  from build_infos_ok [of ?es rot 0, OF mem] obtain infos where i: "build_infos rot 0 ?es = Some infos"
    "map ID infos = map fst ?es"
    "\<And>j. j < length infos \<Longrightarrow> Index (infos ! j) = int j \<and>
        Rotation (infos ! j) = (case rot of None \<Rightarrow> 0 | Some f \<Rightarrow> f (ID (infos ! j))) \<and>
        Some (Online (infos ! j)) = map_option online (snd (?es ! j))" by auto
  have "distinct (map fst ?es)"
    using assms by (simp add: reg_ok_def distinct_map comp_def inj_on_def)
  then have "sorted_wrt (<) (map fst ?es)" by (simp add: strict_sorted_iff)
  then have sorted: "sorted_wrt (<) (map ID infos)" by (simp only: i(2))
  have "set (map fst ?es) = dom (hubs r)" using assms by (force simp: reg_ok_def)
  then have dom: "set (map ID infos) = dom (hubs r)" by (simp only: i(2))
  have l: "length infos = length ?es" using arg_cong [OF i(2), of length] by (simp only: length_map)
  have look: "snd (?es ! j) = hubs r (ID (infos ! j))" if "j < length infos" for j
  proof -
    have "fst (?es ! j) = map fst ?es ! j" using that l by (simp only: nth_map)
    also have "\<dots> = ID (infos ! j)" using that by (simp only: i(2) [symmetric] nth_map)
    finally show ?thesis using snd_es [of j] that l by simp
  qed
  show ?thesis
  proof (intro exI [of _ infos] conjI allI impI)
    show "KnownCameras rot r = Some infos" using i(1) by (simp add: KnownCameras_def)
    show "Some (Online (infos ! j)) = map_option online (hubs r (ID (infos ! j)))" if "j < length infos" for j
      using i(3) [OF that] look [OF that] by simp
  qed (use i(3) sorted dom in blast)+
qed

theorem known_cameras_sorted_witness:
  "\<exists>r infos. reg_run sample_ops NewRegistry = Some r \<and> KnownCameras None r = Some infos \<and>
     sorted_wrt (<) (map ID infos) \<and> ''10'' \<in> set (map ID infos) \<and> ''2'' \<in> set (map ID infos)"
proof -
  from sample_run_Some obtain r where r: "reg_run sample_ops NewRegistry = Some r" ..
  note ok = reg_run_ok [OF reg_ok_new r]
  have "abs_registry ''10'' r \<noteq> None" "abs_registry ''2'' r \<noteq> None"
    using ok [of "''10''"] ok [of "''2''"] by (simp_all add: sample_ops_def)
  then have "''10'' \<in> dom (hubs r)" "''2'' \<in> dom (hubs r)" by (auto simp: abs_registry_def)
  with known_cameras_sorted [of r None] ok r show ?thesis by auto
qed

end
