(* ===== verification/Livefeed_Http.thy ===== *)
theory Livefeed_Http
  imports Livefeed_Registry
begin

section \<open>The HTTP camera API (shared/livefeed/httpapi.go, shared/mjpeg)\<close>

text \<open>
  The handlers every proxy serves, as functions of the registry: the response they give and the
  registry they leave. The MJPEG stream is a loop over what its \<open>select\<close> sees, writing to a
  connection that may break. A request path is given by its segments, as a clean path that the mux
  does not redirect; JSON encoding and the bundled page are tags of the response body.
\<close>

subsection \<open>MJPEG parts\<close>

definition ascii :: "string \<Rightarrow> bytes" where
  "ascii s = map (\<lambda>c. of_nat (of_char c)) s"

definition CRLF :: bytes where "CRLF = [13, 10]"

definition Boundary :: string where "Boundary = ''instachron''"

definition mjpeg_ContentType :: string where
  "mjpeg_ContentType = ''multipart/x-mixed-replace;boundary='' @ Boundary"

definition mjpeg_head :: "nat \<Rightarrow> bytes" where
  "mjpeg_head n = ascii ''--'' @ ascii Boundary @ CRLF @ ascii ''Content-Type: image/jpeg'' @ CRLF @
     ascii ''Content-Length: '' @ ascii (itoa (int n)) @ CRLF @ CRLF"

definition mjpeg_WriteFrame :: "bytes \<Rightarrow> writer \<Rightarrow> io_err option \<times> writer" where
  "mjpeg_WriteFrame jpeg w =
     (case write_bytes (mjpeg_head (length jpeg)) w of
        (Some e, w1) \<Rightarrow> (Some e, w1)
      | (None, w1) \<Rightarrow>
          (case write_bytes jpeg w1 of
             (Some e, w2) \<Rightarrow> (Some e, w2)
           | (None, w2) \<Rightarrow> write_bytes CRLF w2))"

definition mjpeg_part :: "bytes \<Rightarrow> bytes" where
  "mjpeg_part jpeg = mjpeg_head (length jpeg) @ jpeg @ CRLF"

subsection \<open>Responses\<close>

datatype http_body = NoBody | TextBody string | IndexPage | InfosBody "cam_info list" | JpegBody bytes

record http_resp =
  status :: nat
  headers :: "(string \<times> string) list"
  body :: http_body

record api_options =
  opt_Rotation :: "(string \<Rightarrow> int) option"
  CreateOnSubscribe :: bool

definition msgNoFrameYet :: string where "msgNoFrameYet = ''no frame received yet''"
definition msgStreamingUnsupport :: string where "msgStreamingUnsupport = ''streaming not supported''"

definition no_cache :: "string \<times> string" where
  "no_cache = (''Cache-Control'', ''no-cache, no-store'')"

definition http_Error :: "string \<Rightarrow> nat \<Rightarrow> http_resp" where
  "http_Error msg code =
     \<lparr>status = code, headers = [(''Content-Type'', ''text/plain; charset=utf-8'')], body = TextBody msg\<rparr>"

definition http_NotFound :: http_resp where
  "http_NotFound = http_Error ''404 page not found'' 404"

definition handleIndex :: "string list \<Rightarrow> http_resp" where
  "handleIndex path =
     (if path \<noteq> [] then http_NotFound
      else \<lparr>status = 200, headers = [(''Content-Type'', ''text/html; charset=utf-8'')], body = IndexPage\<rparr>)"

definition handleCameras :: "api_options \<Rightarrow> registry \<Rightarrow> http_resp option" where
  "handleCameras opts r =
     map_option (\<lambda>cams. \<lparr>status = 200, headers = [(''Content-Type'', ''application/json'')], body = InfosBody cams\<rparr>)
       (KnownCameras (opt_Rotation opts) r)"

definition handleSnapshot :: "string \<Rightarrow> registry \<Rightarrow> http_resp" where
  "handleSnapshot cid r =
     (case Lookup cid r of
        None \<Rightarrow> http_NotFound
      | Some h \<Rightarrow>
          (case LatestFrame h of
             None \<Rightarrow> http_Error msgNoFrameYet 503
           | Some f \<Rightarrow> \<lparr>status = 200, headers = [(''Content-Type'', ''image/jpeg''), no_cache], body = JpegBody f\<rparr>))"

definition hubForStream :: "api_options \<Rightarrow> string \<Rightarrow> registry \<Rightarrow> hub option \<times> registry" where
  "hubForStream opts cid r =
     (if CreateOnSubscribe opts then (let (h, r') = Registry_Hub cid r in (Some h, r'))
      else (Lookup cid r, r))"

text \<open>\<open>handleStream\<close> up to its loop: a refusal, or the headers and the subscribed channel.\<close>

definition handleStream_open ::
  "api_options \<Rightarrow> bool \<Rightarrow> string \<Rightarrow> registry \<Rightarrow> (http_resp + http_resp \<times> nat) \<times> registry" where
  "handleStream_open opts is_flusher cid r =
     (if \<not> is_flusher then (Inl (http_Error msgStreamingUnsupport 500), r)
      else
        case hubForStream opts cid r of
          (None, r') \<Rightarrow> (Inl http_NotFound, r')
        | (Some h, r') \<Rightarrow>
            let hdrs = [(''Content-Type'', mjpeg_ContentType), no_cache, (''X-Accel-Buffering'', ''no'')];
                (ch, h') = Hub_Subscribe h
            in (Inr (\<lparr>status = 200, headers = hdrs, body = NoBody\<rparr>, ch), set_hub cid h' r'))"

datatype stream_event = StreamCtxDone | StreamChanClosed | StreamFrame bytes

text \<open>The loop of \<open>handleStream\<close>: whether it returned, and the connection.\<close>

fun stream_loop :: "stream_event list \<Rightarrow> writer \<Rightarrow> bool \<times> writer" where
  "stream_loop [] w = (False, w)"
| "stream_loop (StreamCtxDone # es) w = (True, w)"
| "stream_loop (StreamChanClosed # es) w = (True, w)"
| "stream_loop (StreamFrame f # es) w =
     (case mjpeg_WriteFrame f w of
        (Some e, w') \<Rightarrow> (True, w')
      | (None, w') \<Rightarrow> stream_loop es w')"

text \<open>The deferred \<open>Unsubscribe\<close> acts on the hub the handler attached to.\<close>

definition handleStream_close :: "string \<Rightarrow> nat \<Rightarrow> registry \<Rightarrow> registry option" where
  "handleStream_close cid ch r =
     (case Lookup cid r of None \<Rightarrow> Some r | Some h \<Rightarrow> map_option (\<lambda>h'. set_hub cid h' r) (Hub_Unsubscribe ch h))"

datatype endpoint = EIndex | ECameras | ESnapshot string | EStream string

fun routes :: "string list \<Rightarrow> endpoint" where
  "routes [p] = (if p = ''cameras'' then ECameras else EIndex)"
| "routes [p, cid, q] =
     (if p = ''cameras'' \<and> q = ''snapshot'' then ESnapshot cid
      else if p = ''cameras'' \<and> q = ''stream'' then EStream cid else EIndex)"
| "routes ps = EIndex"

subsection \<open>Lemmas\<close>

lemma ascii_append [simp]: "ascii (s @ t) = ascii s @ ascii t"
  by (simp add: ascii_def)

lemma of_char_byte: "unat (of_nat (of_char c) :: byte) = of_char c"
  by (simp add: unat_of_nat)

lemma ascii_inj: "ascii s = ascii t \<Longrightarrow> s = t"
proof (induction s arbitrary: t)
  case Nil
  then show ?case by (simp add: ascii_def)
next
  case (Cons c s)
  then obtain d t' where t: "t = d # t'" "(of_nat (of_char c) :: byte) = of_nat (of_char d)" "ascii s = ascii t'"
    by (cases t) (auto simp: ascii_def)
  from t(2) have "(of_char c :: nat) = of_char d" by (metis of_char_byte)
  with t Cons.IH show ?case by simp
qed

lemma ascii_digits_no_cr: "13 \<notin> set (ascii (format_uint n))"
proof
  assume "13 \<in> set (ascii (format_uint n))"
  then obtain c where c: "c \<in> set (format_uint n)" "(of_nat (of_char c) :: byte) = 13"
    by (auto simp: ascii_def)
  from arg_cong [OF c(2), of unat] have "(of_char c :: nat) = 13" by (simp only: of_char_byte) simp
  with format_uint_digits [OF c(1)] show False by (simp add: digit_val_def)
qed

lemma split_at_first:
  "x \<notin> set a \<Longrightarrow> x \<notin> set b \<Longrightarrow> a @ x # u = b @ x # v \<Longrightarrow> a = b \<and> u = v"
  by (simp add: append_eq_append_conv2) (metis append_self_conv in_set_conv_decomp list.inject
      append_Cons append_Nil hd_append2 list.sel(1) list.set_sel(1) set_append UnI1 UnI2)

lemma mjpeg_part_prefix_free:
  assumes "mjpeg_part a @ x = mjpeg_part b @ y"
  shows "a = b \<and> x = y"
proof -
  from assms have "ascii (format_uint (length a)) @ 13 # (10 # CRLF @ a @ CRLF @ x) =
      ascii (format_uint (length b)) @ 13 # (10 # CRLF @ b @ CRLF @ y)"
    by (simp add: mjpeg_part_def mjpeg_head_def itoa_def CRLF_def)
  from split_at_first [OF ascii_digits_no_cr ascii_digits_no_cr this]
  have "format_uint (length a) = format_uint (length b)" and t: "a @ CRLF @ x = b @ CRLF @ y"
    by (auto dest: ascii_inj simp: CRLF_def)
  then have "length a = length b" by (blast dest: format_uint_inj)
  with t show ?thesis by simp
qed

lemma write_bytes_None: "write_bytes bs w = (None, w') \<Longrightarrow> wsent w' = wsent w @ bs"
  using write_bytes_ok [of bs w] by simp

lemma write_bytes_take:
  "write_bytes bs w = (e, w') \<Longrightarrow> \<exists>k \<le> length bs. wsent w' = wsent w @ take k bs \<and> (e = None \<longrightarrow> k = length bs)"
  using write_bytes_sent [of bs w] by (metis fst_conv snd_conv nle_le order_refl take_all)

lemma mjpeg_WriteFrame_ok:
  "mjpeg_WriteFrame f w = (None, w') \<Longrightarrow> wsent w' = wsent w @ mjpeg_part f"
  by (auto simp: mjpeg_WriteFrame_def mjpeg_part_def split: prod.splits option.splits dest!: write_bytes_None)

lemma mjpeg_WriteFrame_prefix:
  assumes "mjpeg_WriteFrame f w = (e, w')"
  shows "\<exists>k. wsent w' = wsent w @ take k (mjpeg_part f)"
proof -
  obtain e1 w1 where 1: "write_bytes (mjpeg_head (length f)) w = (e1, w1)" by fastforce
  obtain e2 w2 where 2: "write_bytes f w1 = (e2, w2)" by fastforce
  obtain e3 w3 where 3: "write_bytes CRLF w2 = (e3, w3)" by fastforce
  from write_bytes_take [OF 1] obtain i where i: "i \<le> length (mjpeg_head (length f))"
    "wsent w1 = wsent w @ take i (mjpeg_head (length f))" "e1 = None \<longrightarrow> i = length (mjpeg_head (length f))" by blast
  from write_bytes_take [OF 2] obtain j where j: "j \<le> length f"
    "wsent w2 = wsent w1 @ take j f" "e2 = None \<longrightarrow> j = length f" by blast
  from write_bytes_take [OF 3] obtain k where k: "wsent w3 = wsent w2 @ take k CRLF" by blast
  consider "e1 \<noteq> None" "w' = w1" | "e1 = None" "e2 \<noteq> None" "w' = w2" | "e1 = None" "e2 = None" "w' = w3"
    using assms 1 2 3 by (auto simp: mjpeg_WriteFrame_def split: option.splits)
  then show ?thesis
  proof cases
    case 1
    with i show ?thesis by (intro exI [of _ i]) (simp add: mjpeg_part_def)
  next
    case 2
    with i j show ?thesis
      by (intro exI [of _ "length (mjpeg_head (length f)) + j"]) (simp add: mjpeg_part_def)
  next
    case 3
    with i j k show ?thesis
      by (intro exI [of _ "length (mjpeg_head (length f)) + length f + k"]) (simp add: mjpeg_part_def)
  qed
qed

fun stream_frames :: "stream_event list \<Rightarrow> bytes list" where
  "stream_frames [] = []"
| "stream_frames (StreamFrame f # es) = f # stream_frames es"
| "stream_frames (_ # es) = stream_frames es"

definition mjpeg_stream :: "bytes list \<Rightarrow> bytes" where
  "mjpeg_stream fs = concat (map mjpeg_part fs)"

lemma stream_loop_prefix:
  "stream_loop es w = (d, w') \<Longrightarrow>
     \<exists>k. wsent w' = wsent w @ take k (mjpeg_stream (stream_frames es))"
proof (induction es w arbitrary: w' rule: stream_loop.induct)
  case (1 w)
  then show ?case by (auto simp: mjpeg_stream_def)
next
  case (4 f es w)
  obtain e w1 where m: "mjpeg_WriteFrame f w = (e, w1)" by fastforce
  show ?case
  proof (cases e)
    case None
    from mjpeg_WriteFrame_ok [of f w w1] m None have o: "wsent w1 = wsent w @ mjpeg_part f" by simp
    from 4(2) m None have "stream_loop es w1 = (d, w')" by simp
    from 4(1) [OF m [symmetric] None this] obtain k where
      "wsent w' = wsent w1 @ take k (mjpeg_stream (stream_frames es))" by blast
    with o show ?thesis
      by (intro exI [of _ "length (mjpeg_part f) + k"]) (simp add: mjpeg_stream_def)
  next
    case (Some x)
    with 4 m have "w' = w1" by simp
    moreover from mjpeg_WriteFrame_prefix [OF m] obtain k where "wsent w1 = wsent w @ take k (mjpeg_part f)" ..
    ultimately show ?thesis
      by (intro exI [of _ "min k (length (mjpeg_part f))"]) (simp add: mjpeg_stream_def min_def)
  qed
qed (auto intro: exI [of _ 0])

lemma stream_loop_healthy:
  "wroom w = None \<Longrightarrow> list_all (\<lambda>e. case e of StreamFrame _ \<Rightarrow> True | _ \<Rightarrow> False) es \<Longrightarrow>
     stream_loop es w = (False, w\<lparr>wsent := wsent w @ mjpeg_stream (stream_frames es)\<rparr>)"
proof (induction es w rule: stream_loop.induct)
  case (4 f es w)
  have "mjpeg_WriteFrame f w = (None, w\<lparr>wsent := wsent w @ mjpeg_part f\<rparr>)"
    using 4(2) by (simp add: mjpeg_WriteFrame_def mjpeg_part_def)
  with 4 show ?case by (simp add: mjpeg_stream_def)
qed (auto simp: mjpeg_stream_def)

lemma mjpeg_part_ne: "mjpeg_part a \<noteq> []"
  by (simp add: mjpeg_part_def CRLF_def)

lemma mjpeg_stream_inj: "mjpeg_stream fs = mjpeg_stream gs \<Longrightarrow> fs = gs"
proof (induction fs arbitrary: gs)
  case Nil
  then show ?case using mjpeg_part_ne by (cases gs) (auto simp: mjpeg_stream_def)
next
  case (Cons f fs)
  then show ?case using mjpeg_part_ne
    by (cases gs) (auto simp: mjpeg_stream_def dest!: mjpeg_part_prefix_free)
qed

subsection \<open>Properties\<close>

text \<open>an MJPEG viewer receives the frames its subscription delivers, each as one multipart part, in
  order and without gaps: what is written is a prefix of that encoding, all of it as long as the
  connection holds; and the encoding is uniquely decodable, whatever bytes the JPEGs contain.\<close>

theorem mjpeg_stream_faithful:
  assumes "stream_loop es w = (d, w')"
  shows "(\<exists>k. wsent w' = wsent w @ take k (mjpeg_stream (stream_frames es))) \<and>
    (wroom w = None \<longrightarrow> list_all (\<lambda>e. case e of StreamFrame _ \<Rightarrow> True | _ \<Rightarrow> False) es \<longrightarrow>
       wsent w' = wsent w @ mjpeg_stream (stream_frames es) \<and> \<not> d) \<and>
    (mjpeg_stream fs = mjpeg_stream gs \<longrightarrow> fs = gs)"
  using stream_loop_prefix [OF assms] stream_loop_healthy [of w es] assms mjpeg_stream_inj [of fs gs] by auto

theorem mjpeg_stream_faithful_witness:
  "\<exists>d w'. stream_loop [StreamFrame [0xFF, 0xD8], StreamFrame [13, 10]] \<lparr>wsent = [], wroom = None\<rparr> = (d, w') \<and>
     wsent w' = mjpeg_stream [[0xFF, 0xD8], [13, 10]]"
proof -
  obtain d w' where l: "stream_loop [StreamFrame [0xFF, 0xD8], StreamFrame [13, 10]] \<lparr>wsent = [], wroom = None\<rparr> = (d, w')"
    by fastforce
  from mjpeg_stream_faithful [OF l, of "[]" "[]"]
  have "wsent w' = mjpeg_stream [[0xFF, 0xD8], [13, 10]]" by simp
  with l show ?thesis by blast
qed

text \<open>a snapshot answers 404 exactly for a camera that was never seen, 503 exactly for one without a
  frame yet, and otherwise 200 with the camera's latest frame, so a camera that is offline keeps its
  last picture.\<close>

theorem snapshot_statuses:
  "(status (handleSnapshot cid r) = 404 \<longleftrightarrow> hubs r cid = None) \<and>
   (status (handleSnapshot cid r) = 503 \<longleftrightarrow> (\<exists>h. hubs r cid = Some h \<and> latest h = None)) \<and>
   (status (handleSnapshot cid r) = 200 \<longleftrightarrow>
      (\<exists>h f. hubs r cid = Some h \<and> latest h = Some f \<and> body (handleSnapshot cid r) = JpegBody f)) \<and>
   handleSnapshot cid (Registry_MarkOffline k r) = handleSnapshot cid r"
  by (auto simp: handleSnapshot_def Lookup_def LatestFrame_def http_NotFound_def http_Error_def
      Registry_MarkOffline_def set_hub_def Hub_MarkOffline_def split: option.splits)

text \<open>a stream request for a camera that was never seen is refused and leaves the registry as it was,
  unless the service creates cameras on subscription: then it is accepted and the camera appears in the
  registry, offline and without a frame, although none was seen. A request that cannot be streamed
  changes nothing, and the viewer's first queued frame is the camera's latest.\<close>

theorem stream_open_contract:
  assumes "reg_ok r"
  shows "(hubs r cid = None \<longrightarrow> \<not> CreateOnSubscribe opts \<longrightarrow>
      handleStream_open opts True cid r = (Inl http_NotFound, r)) \<and>
    (hubs r cid = None \<longrightarrow> CreateOnSubscribe opts \<longrightarrow>
      (\<exists>resp ch r' h. handleStream_open opts True cid r = (Inr (resp, ch), r') \<and> hubs r' cid = Some h \<and>
         \<not> online h \<and> latest h = None \<and> reg_ok r')) \<and>
    handleStream_open opts False cid r = (Inl (http_Error msgStreamingUnsupport 500), r) \<and>
    (\<forall>h f. hubs r cid = Some h \<longrightarrow> latest h = Some f \<longrightarrow>
      (\<exists>resp ch r' h'. handleStream_open opts True cid r = (Inr (resp, ch), r') \<and> hubs r' cid = Some h' \<and>
         cbuf (chans h' ch) = [f] \<and> reg_ok r' \<and> handleStream_close cid ch r' \<noteq> None))"
proof (intro conjI impI allI)
  assume n: "hubs r cid = None"
  then show "\<not> CreateOnSubscribe opts \<Longrightarrow> handleStream_open opts True cid r = (Inl http_NotFound, r)"
    by (simp add: handleStream_open_def hubForStream_def Lookup_def)
  assume c: "CreateOnSubscribe opts"
  obtain h r1 where g: "getOrCreate cid r = (h, r1)" by fastforce
  from getOrCreate_ok [OF assms g, of cid] have ok: "reg_ok r1" "hubs r1 cid = Some h" "hub_ok cid h" by auto
  from g n have h: "h = newHub cid" by (auto simp: getOrCreate_def Let_def)
  from reg_ok_set [OF ok(1,2)] hub_ok_subscribe [OF ok(3)] have
    "reg_ok (set_hub cid (snd (Hub_Subscribe h)) r1)" by blast
  with g c h show "\<exists>resp ch r' h. handleStream_open opts True cid r = (Inr (resp, ch), r') \<and> hubs r' cid = Some h \<and>
         \<not> online h \<and> latest h = None \<and> reg_ok r'"
    by (auto simp: handleStream_open_def hubForStream_def Registry_Hub_def set_hub_def Hub_Subscribe_def
        subscribe_with_eq newHub_def)
next
  show "handleStream_open opts False cid r = (Inl (http_Error msgStreamingUnsupport 500), r)"
    by (simp add: handleStream_open_def)
next
  fix h f
  assume h: "hubs r cid = Some h" and f: "latest h = Some f"
  from reg_okD [OF assms h] have ok: "hub_ok cid h" .
  let ?h' = "snd (Hub_Subscribe h)" and ?ch = "fst (Hub_Subscribe h)"
  from reg_ok_set [OF assms h] hub_ok_subscribe [OF ok] have r: "reg_ok (set_hub cid ?h' r)" "hub_ok cid ?h'" by blast+
  have hf: "hubForStream opts cid r = (Some h, r)"
    using h by (simp add: hubForStream_def Lookup_def Registry_Hub_def getOrCreate_def)
  have "?ch \<in> set (subs ?h')" by (simp add: Hub_Subscribe_def subscribe_with_eq)
  from Hub_Unsubscribe_ok [OF r(2) this] have "handleStream_close cid ?ch (set_hub cid ?h' r) \<noteq> None"
    by (auto simp: handleStream_close_def Lookup_def set_hub_def)
  moreover have "cbuf (chans ?h' ?ch) = [f]"
    using f by (simp add: Hub_Subscribe_def subscribe_with_eq subBufSize_def)
  ultimately show "\<exists>resp ch r' h'. handleStream_open opts True cid r = (Inr (resp, ch), r') \<and> hubs r' cid = Some h' \<and>
         cbuf (chans h' ch) = [f] \<and> reg_ok r' \<and> handleStream_close cid ch r' \<noteq> None"
    using hf r(1) by (auto simp: handleStream_open_def set_hub_def Let_def split: prod.splits)
qed

theorem stream_open_contract_witness:
  "handleStream_open \<lparr>opt_Rotation = None, CreateOnSubscribe = False\<rparr> True ''x'' NewRegistry = (Inl http_NotFound, NewRegistry) \<and>
   (\<exists>resp ch r'. handleStream_open \<lparr>opt_Rotation = None, CreateOnSubscribe = True\<rparr> True ''x'' NewRegistry = (Inr (resp, ch), r'))"
  using stream_open_contract [OF reg_ok_new, of "''x''" "\<lparr>opt_Rotation = None, CreateOnSubscribe = False\<rparr>"]
    stream_open_contract [OF reg_ok_new, of "''x''" "\<lparr>opt_Rotation = None, CreateOnSubscribe = True\<rparr>"]
  by (auto simp: NewRegistry_def)

end
