(* ===== verification/Web_Api.thy ===== *)
theory Web_Api
  imports Rotation Livefeed_Http Frame_Ipc Backend_Publisher
begin

section \<open>camera-web-api: from IPC messages to viewers\<close>

text \<open>
  The callbacks that \<open>app.Run\<close> of camera-web-api gives to the IPC client: each frame is rotated as
  configured, pushed to the camera's hub and broadcast to downstream proxies with a per-camera sequence
  number. The state is what the callbacks share; \<open>clock\<close> answers the calls of \<open>time.Now\<close>, one after
  the other. \<open>None\<close> stands for a panic.
\<close>

subsection \<open>State and callbacks\<close>

record web_state =
  wregistry :: registry
  wbroadcaster :: broadcaster
  seqs :: "camera_id \<Rightarrow> u64"
  wrot :: rot_config
  clock :: "nat \<Rightarrow> gotime"
  ticks :: nat

definition web_OnFrame :: "(bytes \<Rightarrow> angle \<Rightarrow> bytes) \<Rightarrow> camera_id \<Rightarrow> bytes \<Rightarrow> web_state \<Rightarrow> web_state option" where
  "web_OnFrame rotf cameraID jpeg0 st =
     (let cid = CameraID_String cameraID;
          a = Get (wrot st) cid;
          jpeg = (if \<not> IsZero a then rotf jpeg0 a else jpeg0)
      in case Registry_Push (clock st (ticks st)) cid jpeg (wregistry st) of
           None \<Rightarrow> None
         | Some reg \<Rightarrow>
             let q = (seqs st)(cameraID := seqs st cameraID + 1)
             in case Broadcaster_Publish
                  \<lparr>fTimestamp = clock st (ticks st + 1), fSequence = q cameraID, fCameraID = cameraID, fPayload = jpeg\<rparr>
                  (wbroadcaster st) of
                  None \<Rightarrow> None
                | Some b \<Rightarrow> Some (st\<lparr>wregistry := reg, wbroadcaster := b, seqs := q, ticks := ticks st + 2\<rparr>))"

definition web_OnOffline :: "camera_id \<Rightarrow> web_state \<Rightarrow> web_state" where
  "web_OnOffline cameraID st = st\<lparr>wregistry := Registry_MarkOffline (CameraID_String cameraID) (wregistry st)\<rparr>"

definition web_OnDisconnect :: "web_state \<Rightarrow> web_state" where
  "web_OnDisconnect st = st\<lparr>wregistry := MarkAllOffline (wregistry st)\<rparr>"

definition web_handler :: "(bytes \<Rightarrow> angle \<Rightarrow> bytes) \<Rightarrow> web_state option ipc_handler" where
  "web_handler rotf =
     \<lparr>OnFrame = Some (\<lambda>c j s. Option.bind s (web_OnFrame rotf c j)),
      OnOffline = Some (\<lambda>c s. map_option (web_OnOffline c) s),
      OnDisconnect = Some (map_option web_OnDisconnect)\<rparr>"

definition web_start :: "rot_config \<Rightarrow> (nat \<Rightarrow> gotime) \<Rightarrow> web_state" where
  "web_start rc ck =
     \<lparr>wregistry = NewRegistry, wbroadcaster = NewBroadcaster, seqs = (\<lambda>_. 0), wrot = rc, clock = ck, ticks = 0\<rparr>"

subsection \<open>What a viewer of one camera should see\<close>

fun cam_view :: "(bytes \<Rightarrow> bytes) \<Rightarrow> camera_id \<Rightarrow> ipc_msg \<Rightarrow> (bytes \<times> bool) option \<Rightarrow> (bytes \<times> bool) option" where
  "cam_view f c m v =
     (if mCameraID m \<noteq> c then v
      else if mKind m = KindFrame then Some (f (mPayload m), True)
      else if mKind m = KindOffline then map_option (\<lambda>(j, _). (j, False)) v
      else v)"

definition shown :: "camera_id \<Rightarrow> registry \<Rightarrow> (bytes \<times> bool) option" where
  "shown c r =
     (case abs_registry (CameraID_String c) r of
        None \<Rightarrow> None
      | Some s \<Rightarrow> map_option (\<lambda>(t, j). (j, cam_online s)) (cam_last s))"

definition rotate_for :: "(bytes \<Rightarrow> angle \<Rightarrow> bytes) \<Rightarrow> rot_config \<Rightarrow> camera_id \<Rightarrow> bytes \<Rightarrow> bytes" where
  "rotate_for rotf rc c j =
     (let a = Get rc (CameraID_String c) in if IsZero a then j else rotf j a)"

definition web_ok :: "web_state \<Rightarrow> bool" where
  "web_ok st \<longleftrightarrow> reg_ok (wregistry st) \<and> bcast_ok bc_cap (wbroadcaster st)"

lemma web_ok_start: "web_ok (web_start rc ck)"
  by (simp add: web_ok_def web_start_def reg_ok_new NewBroadcaster_def bcast_init_def bcast_ok_def)

lemma OnFrame_ok:
  assumes "web_ok st"
  shows "\<exists>st' b. web_OnFrame rotf c j st = Some st' \<and> web_ok st' \<and> wrot st' = wrot st \<and>
    seqs st' = (seqs st)(c := seqs st c + 1) \<and>
    latest (wbroadcaster st') = Some \<lparr>fTimestamp = clock st (ticks st + 1), fSequence = seqs st c + 1,
       fCameraID = c, fPayload = rotate_for rotf (wrot st) c j\<rparr> \<and>
    (\<forall>k. shown k (wregistry st') = (if k = c then Some (rotate_for rotf (wrot st) c j, True) else shown k (wregistry st)))"
proof -
  let ?j = "rotate_for rotf (wrot st) c j" and ?t = "clock st (ticks st)"
  let ?f = "\<lparr>fTimestamp = clock st (ticks st + 1), fSequence = seqs st c + 1, fCameraID = c, fPayload = ?j\<rparr>"
  from assms have ok: "reg_ok (wregistry st)" "bcast_ok bc_cap (wbroadcaster st)" by (simp_all add: web_ok_def)
  from Registry_Push_ok [OF ok(1)] obtain reg where
    reg: "Registry_Push ?t (CameraID_String c) ?j (wregistry st) = Some reg" "reg_ok reg" by blast
  from Registry_Push_ok [OF ok(1), of ?t "CameraID_String c" ?j] reg(1) have
    ab: "abs_registry k reg = cam_step k (OpPush ?t (CameraID_String c) ?j) (abs_registry k (wregistry st))" for k
    by auto
  have sh: "shown k reg = (if k = c then Some (?j, True) else shown k (wregistry st))" for k
    using ab [of "CameraID_String k"] CameraID_String_inj [of c k] by (auto simp: shown_def)
  let ?b = "store_latest ?f (wbroadcaster st)"
  from ok(2) have "bcast_ok bc_cap ?b" by (simp add: bcast_ok_def store_latest_def)
  from oldest.bcast_ok_fan [OF this, of ?f] obtain b' H where
    b: "fan offer_drop_oldest ?f ?b = Some b'" "bcast_ok bc_cap b'" "b' = ?b\<lparr>chans := H\<rparr>" by blast
  let ?st' = "st\<lparr>wregistry := reg, wbroadcaster := b', seqs := (seqs st)(c := seqs st c + 1), ticks := ticks st + 2\<rparr>"
  have "web_OnFrame rotf c j st = Some ?st'"
    using reg(1) b(1)
    by (cases "IsZero (Get (wrot st) (CameraID_String c))")
      (simp_all add: web_OnFrame_def rotate_for_def Let_def Broadcaster_Publish_def)
  moreover have "web_ok ?st'" using reg(2) b(2) by (simp add: web_ok_def)
  moreover have "latest b' = Some ?f" by (simp add: b(3) store_latest_def)
  ultimately show ?thesis using sh by (intro exI [of _ ?st'] exI) simp
qed


lemma shown_Some:
  "abs_registry (CameraID_String c) r = Some a \<Longrightarrow>
     shown c r = (case cam_last a of None \<Rightarrow> None | Some (t, j) \<Rightarrow> Some (j, cam_online a))"
  by (simp add: shown_def split: option.split)

lemma shown_None: "abs_registry (CameraID_String c) r = None \<Longrightarrow> shown c r = None"
  by (simp add: shown_def)

lemma shown_offline:
  assumes "abs_registry (CameraID_String k) r' =
    map_option (cam_online_update (\<lambda>_. False)) (abs_registry (CameraID_String k) r)"
  shows "shown k r' = map_option (\<lambda>(j, _). (j, False)) (shown k r)"
proof (cases "abs_registry (CameraID_String k) r")
  case None
  with assms show ?thesis by (simp add: shown_None)
next
  case (Some a)
  with assms have "abs_registry (CameraID_String k) r' = Some (a\<lparr>cam_online := False\<rparr>)" by simp
  with Some show ?thesis by (simp add: shown_Some split: option.split)
qed

lemma OnOffline_ok:
  assumes "web_ok st"
  shows "web_ok (web_OnOffline c st) \<and>
    shown k (wregistry (web_OnOffline c st)) =
      (if k = c then map_option (\<lambda>(j, _). (j, False)) (shown k (wregistry st)) else shown k (wregistry st))"
proof -
  from assms have ok: "reg_ok (wregistry st)" by (simp add: web_ok_def)
  note r = reg_apply_ok [OF ok, of "OpMarkOffline (CameraID_String c)" "wregistry (web_OnOffline c st)" "CameraID_String k"]
  then have o: "reg_ok (wregistry (web_OnOffline c st))" by (simp add: web_OnOffline_def)
  show ?thesis
  proof (cases "k = c")
    case True
    with r o shown_offline [of k "wregistry (web_OnOffline c st)" "wregistry st"] assms show ?thesis
      by (simp add: web_ok_def web_OnOffline_def)
  next
    case False
    with CameraID_String_inj [of c k] have "CameraID_String c \<noteq> CameraID_String k" by blast
    with r o False assms show ?thesis by (simp add: web_ok_def web_OnOffline_def shown_def)
  qed
qed

lemma OnDisconnect_ok:
  assumes "web_ok st"
  shows "web_ok (web_OnDisconnect st) \<and>
    shown k (wregistry (web_OnDisconnect st)) = map_option (\<lambda>(j, _). (j, False)) (shown k (wregistry st))"
proof -
  from assms have ok: "reg_ok (wregistry st)" by (simp add: web_ok_def)
  from reg_apply_ok [OF ok, of OpMarkAllOffline "wregistry (web_OnDisconnect st)" "CameraID_String k"]
    shown_offline [of k "wregistry (web_OnDisconnect st)" "wregistry st"] assms show ?thesis
    by (simp add: web_OnDisconnect_def web_ok_def)
qed

lemma web_dispatch_ok:
  assumes "web_ok st"
  shows "\<exists>st'. ipc_dispatch (web_handler rotf) m (Some st) = Some st' \<and> web_ok st' \<and> wrot st' = wrot st \<and>
    seqs st' c = seqs st c + (if mCameraID m = c \<and> mKind m = KindFrame then 1 else 0) \<and>
    shown c (wregistry st') = cam_view (rotate_for rotf (wrot st) c) c m (shown c (wregistry st))"
proof -
  have kk: "KindFrame \<noteq> KindOffline" by (simp add: ipc_consts)
  consider "mKind m = KindFrame" | "mKind m = KindOffline" | "mKind m \<noteq> KindFrame" "mKind m \<noteq> KindOffline" by blast
  then show ?thesis
  proof cases
    case 1
    from OnFrame_ok [OF assms, of rotf "mCameraID m" "mPayload m"] 1 show ?thesis
      by (auto simp: ipc_dispatch_def web_handler_def)
  next
    case 2
    from OnOffline_ok [OF assms, of "mCameraID m" c] 2 kk show ?thesis
      by (auto simp: ipc_dispatch_def web_handler_def web_OnOffline_def)
  next
    case 3
    then show ?thesis using assms by (simp add: ipc_dispatch_def)
  qed
qed

lemma web_fold_ok:
  "web_ok st \<Longrightarrow>
   \<exists>st'. fold (ipc_dispatch (web_handler rotf)) ms (Some st) = Some st' \<and> web_ok st' \<and> wrot st' = wrot st \<and>
    seqs st' c = seqs st c + of_nat (length (filter (\<lambda>m. mCameraID m = c \<and> mKind m = KindFrame) ms)) \<and>
    shown c (wregistry st') = fold (cam_view (rotate_for rotf (wrot st) c) c) ms (shown c (wregistry st))"
proof (induction ms arbitrary: st)
  case Nil
  then show ?case by simp
next
  case (Cons m ms)
  from web_dispatch_ok [OF Cons.prems, of rotf m c] obtain st1 where s1:
    "ipc_dispatch (web_handler rotf) m (Some st) = Some st1" "web_ok st1" "wrot st1 = wrot st"
    "seqs st1 c = seqs st c + (if mCameraID m = c \<and> mKind m = KindFrame then 1 else 0)"
    "shown c (wregistry st1) = cam_view (rotate_for rotf (wrot st) c) c m (shown c (wregistry st))" by blast
  from Cons.IH [OF s1(2)] s1 show ?case by (auto simp: algebra_simps simp del: cam_view.simps)
qed

subsection \<open>Properties\<close>


text \<open>a frame that arrives is broadcast once, as the broadcaster's latest frame, under its camera, with
  the next sequence number of that camera and the bytes that the viewers get.\<close>

theorem web_api_broadcasts:
  assumes "web_ok st"
  shows "\<exists>st' t. web_OnFrame rotf c j st = Some st' \<and>
    latest (wbroadcaster st') = Some \<lparr>fTimestamp = t, fSequence = seqs st c + 1, fCameraID = c,
      fPayload = rotate_for rotf (wrot st) c j\<rparr> \<and>
    shown c (wregistry st') = Some (rotate_for rotf (wrot st) c j, True) \<and>
    seqs st' = (seqs st)(c := seqs st c + 1)"
  using OnFrame_ok [OF assms, of rotf c j] by auto

theorem web_api_broadcasts_witness:
  "\<exists>st' t. web_OnFrame (\<lambda>j a. rev j) 17 [1, 2] (web_start \<lparr>angles = [''17'' \<mapsto> 90]\<rparr> (\<lambda>n. int n)) = Some st' \<and>
    latest (wbroadcaster st') = Some \<lparr>fTimestamp = t, fSequence = 1, fCameraID = 17, fPayload = [2, 1]\<rparr>"
proof -
  have "CameraID_String 17 = ''17''"
    by (simp add: CameraID_String_def format_uint.simps digit_char_def) code_simp
  then have "rotate_for (\<lambda>j a. rev j) \<lparr>angles = [''17'' \<mapsto> 90]\<rparr> 17 [1, 2] = [2, 1]"
    by (simp add: rotate_for_def Get_def IsZero_def Angle0_def Let_def)
  with web_api_broadcasts [OF web_ok_start, of "\<lambda>j a. rev j" 17 "[1, 2]" "\<lparr>angles = [''17'' \<mapsto> 90]\<rparr>" "\<lambda>n. int n"]
  show ?thesis by (auto simp: web_start_def)
qed

text \<open>whenever the IPC client is between connections, or has returned after one, no camera is shown as
  online, and every camera still shows its last frame: losing the backend marks everything offline
  without forgetting anything.\<close>

theorem web_api_offline_between_connections:
  assumes "web_ok st" and "\<And>k. shown k (wregistry st) = None"
  shows "\<exists>st'. fst (client_run (web_handler rotf) as (Some st)) = Some st' \<and> web_ok st' \<and>
    (\<forall>k j b. shown k (wregistry st') = Some (j, b) \<longrightarrow> \<not> b)"
proof -
  let ?P = "\<lambda>s. \<exists>st'. s = Some st' \<and> web_ok st' \<and> (\<forall>k j b. shown k (wregistry st') = Some (j, b) \<longrightarrow> \<not> b)"
  have loop: "\<exists>st'. fst (ipc_loop (web_handler rotf) r (Some st)) = Some st' \<and> web_ok st'" if "web_ok st" for r st
    using that
  proof (induction "web_handler rotf" r "Some st" arbitrary: st rule: ipc_loop.induct)
    case (1 r st)
    show ?case
    proof (cases "ipc_Read r")
      case (Pair x r')
      show ?thesis
      proof (cases x)
        case (Inl e)
        with Pair 1 show ?thesis by (simp add: ipc_loop.simps [of _ r])
      next
        case (Inr m)
        from web_dispatch_ok [OF 1(2), of rotf m undefined] obtain st1 where
          "ipc_dispatch (web_handler rotf) m (Some st) = Some st1" "web_ok st1" by blast
        with 1(1) [OF Pair [symmetric] Inr] Pair Inr show ?thesis by (simp add: ipc_loop.simps [of _ r])
      qed
    qed
  qed
  have "?P (fst (client_run (web_handler rotf) as (Some st)))" if "?P (Some st)" for st as
    using that
  proof (induction as arbitrary: st)
    case Nil
    then show ?case by auto
  next
    case (Cons a as)
    then have ok: "web_ok st" by blast
    obtain err s1 where c: "client_connect (web_handler rotf) (at_dial a) (at_read a) (Some st) = (err, s1)" by fastforce
    have "\<exists>st1. s1 = Some st1 \<and> web_ok st1"
    proof (cases "at_dial a")
      case (DialErr e)
      with c ok show ?thesis by (auto simp: client_connect_def)
    next
      case (Dialed r)
      obtain s' e where l: "ipc_loop (web_handler rotf) r (Some st) = (s', e)" by fastforce
      with c Dialed have "s1 = s'" by (simp add: client_connect_def)
      with loop [OF ok, of r] l show ?thesis by simp
    qed
    then obtain st1 where st1: "s1 = Some st1" "web_ok st1" by blast
    have "?P (Some (web_OnDisconnect st1))"
      using OnDisconnect_ok [OF st1(2)] by auto
    with Cons.IH [of "web_OnDisconnect st1"] Cons.prems c st1 show ?case
      by (auto simp: Let_def web_handler_def)
  qed
  moreover have "?P (Some st)" using assms by simp
  ultimately show ?thesis by blast
qed

theorem web_api_offline_between_connections_witness:
  "\<exists>st'. fst (client_run (web_handler (\<lambda>j a. j))
      [\<lparr>at_head = False, at_dial = Dialed \<lparr>rbuf = msg_bytes sample_msg, rend = EOF\<rparr>, at_read = False, at_wait = False\<rparr>]
      (Some (web_start \<lparr>angles = (\<lambda>_. None)\<rparr> (\<lambda>n. int n)))) = Some st' \<and> web_ok st'"
proof -
  have "shown k (wregistry (web_start \<lparr>angles = (\<lambda>_. None)\<rparr> (\<lambda>n. int n))) = None" for k
    by (simp add: web_start_def shown_def abs_registry_def NewRegistry_def)
  from web_api_offline_between_connections [OF web_ok_start this] show ?thesis by blast
qed

end
