(* ===== verification/Camera_To_Viewer.thy ===== *)
theory Camera_To_Viewer
  imports Backend_Server Web_Api
begin

section \<open>From a camera's connection to a viewer's picture\<close>

text \<open>
  The backend's connection handler, its publisher, the socket to camera-web-api and that service's callbacks,
  composed: what a viewer is shown after a camera has sent a burst of frames and its connection has ended.
\<close>

subsection \<open>The publisher with room in a consumer's channel\<close>

definition pub_all :: "ipc_msg list \<Rightarrow> publisher option \<Rightarrow> publisher option" where
  "pub_all ms s = fold (\<lambda>m s. Option.bind s (fanOut m)) ms s"

lemma snd_publish_all: "snd (fold (\<lambda>(c, j). pub_publish c j) cjs s) = pub_all (map frame_msg cjs) (snd s)"
  by (induction cjs arbitrary: s)
    (auto simp: pub_all_def pub_publish_def Publish_def [abs_def] frame_msg_def)

lemma snd_offline_all: "snd (fold pub_offline cs s) = pub_all (map offline_msg cs) (snd s)"
  by (induction cs arbitrary: s) (auto simp: pub_all_def pub_offline_def PublishOffline_def [abs_def] offline_msg_def)

lemma pub_all_append: "pub_all (a @ b) s = pub_all b (pub_all a s)"
  by (simp add: pub_all_def)

lemma pub_all_room:
  assumes "consumers_ok p" "i \<in> set (subs p)" "length (cbuf (chans p i)) + length ms \<le> ccap (chans p i)"
  shows "\<exists>p'. pub_all ms (Some p) = Some p' \<and> consumers_ok p' \<and> cbuf (chans p' i) = cbuf (chans p i) @ ms"
  using assms
proof (induction ms arbitrary: p)
  case (Cons m ms)
  from fanOut_ok [OF Cons.prems(1)] obtain p1 where p1: "fanOut m p = Some p1" "consumers_ok p1" "subs p1 = subs p"
    "\<And>i. if i \<in> set (subs p) then offer_drop_newest m (chans p i) = Some (chans p1 i) else chans p1 i = chans p i"
    by blast
  from p1(4) [of i] Cons.prems(2) have o: "offer_drop_newest m (chans p i) = Some (chans p1 i)" by simp
  from offer_drop_newest_cbuf [OF o] Cons.prems(3) have b: "cbuf (chans p1 i) = cbuf (chans p i) @ [m]" by simp
  from newest.offer_frame [OF o] have c: "ccap (chans p1 i) = ccap (chans p i)" by simp
  from Cons.IH [OF p1(2)] p1(3) Cons.prems(2,3) b c obtain p' where
    "pub_all ms (Some p1) = Some p'" "consumers_ok p'" "cbuf (chans p' i) = cbuf (chans p1 i) @ ms" by auto
  with p1(1) b show ?case by (simp add: pub_all_def)
qed (simp add: pub_all_def)

subsection \<open>The socket and the callbacks\<close>

lemma serveConsumer_healthy:
  "serveConsumer (map ConsumerMsg ms) \<lparr>wsent = x, wroom = None\<rparr> =
     (False, \<lparr>wsent = x @ stream_of msg_bytes ms, wroom = None\<rparr>)"
  by (induction ms arbitrary: x) (simp_all add: ipc_Write_def msg_bytes_def)

lemma ipc_loop_all:
  assumes "list_all msg_ok ms"
  shows "fst (ipc_loop h \<lparr>rbuf = stream_of msg_bytes ms, rend = t\<rparr> s) = fold (ipc_dispatch h) ms s"
  using ipc_loop_cut [OF assms, of h "length (stream_of msg_bytes ms)" t s] by auto

text \<open>The last picture that a camera sent.\<close>

definition last_jpeg :: "camera_id \<Rightarrow> (camera_id \<times> bytes) list \<Rightarrow> bytes option" where
  "last_jpeg c cjs = map_of (rev cjs) c"

lemma view_frames:
  "fold (cam_view f c) (map frame_msg cjs) v =
     (case last_jpeg c cjs of None \<Rightarrow> v | Some j \<Rightarrow> Some (f j, True))"
proof (induction cjs rule: rev_induct)
  case (snoc cj cjs)
  then show ?case by (cases cj) (simp add: last_jpeg_def frame_msg_def split: option.split)
qed (simp add: last_jpeg_def)

lemma view_offlines:
  "fold (cam_view f c) (map offline_msg cs) v = (if c \<in> set cs then map_option (\<lambda>(j, _). (j, False)) v else v)"
proof (induction cs arbitrary: v)
  case (Cons x cs)
  have kk: "KindOffline \<noteq> KindFrame" by (simp add: ipc_consts)
  have "map_option (\<lambda>(j, _). (j, False)) (map_option (\<lambda>(j, _). (j, False)) v) = map_option (\<lambda>(j, _). (j, False)) v"
    by (cases v) auto
  with Cons kk show ?case by (simp add: offline_msg_def)
qed simp

lemma jpegs_ok:
  assumes "list_all (dev_frame_ok legacy mx) ms"
  shows "list_all msg_ok (map frame_msg (jpegs (take n ms)) @ map offline_msg offs)"
proof -
  have "msg_ok (frame_msg (c, j))" if "(c, j) \<in> set (jpegs (take n ms))" for c j
  proof -
    from that obtain h where "(h, j) \<in> set ms" by (auto simp: jpegs_def dest: in_set_takeD)
    with assms have "length j \<le> unat mx" by (auto simp: dev_frame_ok_def list_all_iff)
    also have "unat mx < 2 ^ 32" using unat_less [of mx] by simp
    finally show ?thesis by (simp add: msg_ok_def frame_msg_def)
  qed
  then show ?thesis by (auto simp: list_all_iff) (simp add: msg_ok_def offline_msg_def)
qed

subsection \<open>What a viewer is shown\<close>



end
