(* ===== verification/Proxy_Service.thy ===== *)
theory Proxy_Service
  imports Livefeed_Http Stream_Tcp
begin

section \<open>The restream proxies (shared/livefeed/service.go, camera-web-restreamer-api)\<close>

text \<open>
  \<open>livefeed.Serve\<close> wires an upstream reader, a transform, a broadcaster and a registry into a proxy.
  \<open>Serve_push\<close> is the push function that it hands to the transform, \<open>Serve_onFrame\<close> the callback of
  the upstream reader for a transform that pushes synchronously, as the restreamer's does; \<open>None\<close>
  stands for a panic. The state is what the callbacks share.
\<close>

subsection \<open>The callbacks\<close>

record proxy =
  pregistry :: registry
  pbroadcaster :: broadcaster
  pclock :: "nat \<Rightarrow> gotime"
  pticks :: nat

definition maxTCPClients :: int where "maxTCPClients = 64"
definition tcpWriteTimeout :: int where "tcpWriteTimeout = 2 * second"
definition livenessInterval :: int where "livenessInterval = second"

definition Serve_init :: "(nat \<Rightarrow> gotime) \<Rightarrow> proxy" where
  "Serve_init ck = \<lparr>pregistry = NewRegistry, pbroadcaster = NewBroadcaster, pclock = ck, pticks = 0\<rparr>"

definition Serve_push :: "sframe \<Rightarrow> bytes \<Rightarrow> proxy \<Rightarrow> proxy option" where
  "Serve_push f out p =
     (let cid = CameraID_String (fCameraID f)
      in case Broadcaster_Publish
              \<lparr>fTimestamp = fTimestamp f, fSequence = fSequence f, fCameraID = fCameraID f, fPayload = out\<rparr>
              (pbroadcaster p) of
           None \<Rightarrow> None
         | Some b \<Rightarrow>
             (case Registry_Push (pclock p (pticks p)) cid out (pregistry p) of
                None \<Rightarrow> None
              | Some r \<Rightarrow> Some (p\<lparr>pbroadcaster := b, pregistry := r, pticks := pticks p + 1\<rparr>)))"

definition Serve_onFrame :: "(sframe \<Rightarrow> bytes) \<Rightarrow> sframe \<Rightarrow> proxy option \<Rightarrow> proxy option" where
  "Serve_onFrame transform f s = Option.bind s (Serve_push f (transform f))"

definition Serve_onOffline :: "proxy option \<Rightarrow> proxy option" where
  "Serve_onOffline s = map_option (\<lambda>p. p\<lparr>pregistry := MarkAllOffline (pregistry p)\<rparr>) s"

text \<open>The API options of every proxy, and the restreamer's transform.\<close>

definition proxy_options :: api_options where
  "proxy_options = \<lparr>opt_Rotation = None, CreateOnSubscribe = False\<rparr>"

definition passthrough :: "sframe \<Rightarrow> bytes" where
  "passthrough f = fPayload f"

subsection \<open>Lemmas\<close>

definition proxied :: "(sframe \<Rightarrow> bytes) \<Rightarrow> sframe \<Rightarrow> sframe" where
  "proxied transform f = f\<lparr>fPayload := transform f\<rparr>"

definition proxy_ok :: "proxy \<Rightarrow> bool" where
  "proxy_ok p \<longleftrightarrow> reg_ok (pregistry p) \<and> bcast_ok bc_cap (pbroadcaster p)"

definition queue_of :: "nat \<Rightarrow> proxy \<Rightarrow> sframe list" where
  "queue_of i p = cbuf (chans (pbroadcaster p) i)"

lemma Serve_push_ok:
  assumes "proxy_ok p"
  shows "\<exists>p'. Serve_push f out p = Some p' \<and> proxy_ok p' \<and> subs (pbroadcaster p') = subs (pbroadcaster p) \<and>
    (\<forall>i. queue_of i p' = (if i \<in> set (subs (pbroadcaster p))
       then lastn bc_cap (queue_of i p @ [f\<lparr>fPayload := out\<rparr>]) else queue_of i p)) \<and>
    (\<forall>k. abs_registry k (pregistry p') = cam_step k (OpPush (pclock p (pticks p)) (CameraID_String (fCameraID f)) out)
       (abs_registry k (pregistry p)))"
proof -
  let ?f = "\<lparr>fTimestamp = fTimestamp f, fSequence = fSequence f, fCameraID = fCameraID f, fPayload = out\<rparr>"
  let ?t = "pclock p (pticks p)" and ?c = "CameraID_String (fCameraID f)"
  have f: "f\<lparr>fPayload := out\<rparr> = ?f" by (cases f) simp
  from assms have ok: "reg_ok (pregistry p)" "bcast_ok bc_cap (pbroadcaster p)" by (simp_all add: proxy_ok_def)
  from Broadcaster_Publish_ok [OF ok(2), of ?f] obtain b where
    b: "Broadcaster_Publish ?f (pbroadcaster p) = Some b" "bcast_ok bc_cap b" "subs b = subs (pbroadcaster p)"
      "\<And>i. cbuf (chans b i) = (if i \<in> set (subs (pbroadcaster p))
         then lastn bc_cap (cbuf (chans (pbroadcaster p) i) @ [?f]) else cbuf (chans (pbroadcaster p) i))" by blast
  from Registry_Push_ok [OF ok(1), of ?t ?c out] obtain r where
    r: "Registry_Push ?t ?c out (pregistry p) = Some r" "reg_ok r" by blast
  from Registry_Push_ok [OF ok(1), of ?t ?c out] r(1) have
    ab: "abs_registry k r = cam_step k (OpPush ?t ?c out) (abs_registry k (pregistry p))" for k by auto
  let ?p = "p\<lparr>pbroadcaster := b, pregistry := r, pticks := pticks p + 1\<rparr>"
  have "Serve_push f out p = Some ?p" using b(1) r(1) by (simp add: Serve_push_def)
  moreover have "proxy_ok ?p" using b(2) r(2) by (simp add: proxy_ok_def)
  ultimately show ?thesis unfolding f using b(3,4) ab by (intro exI [of _ ?p]) (simp add: queue_of_def)
qed

lemma Serve_fold_ok:
  "proxy_ok p \<Longrightarrow> i \<in> set (subs (pbroadcaster p)) \<Longrightarrow> length (queue_of i p) \<le> bc_cap \<Longrightarrow>
   \<exists>p'. fold (Serve_onFrame transform) fs (Some p) = Some p' \<and> proxy_ok p' \<and>
     queue_of i p' = lastn bc_cap (queue_of i p @ map (proxied transform) fs)"
proof (induction fs arbitrary: p)
  case Nil
  then show ?case by (simp add: lastn_def)
next
  case (Cons f fs)
  from Serve_push_ok [OF Cons.prems(1), of f "transform f"] Cons.prems(2) obtain p1 where
    p1: "Serve_push f (transform f) p = Some p1" "proxy_ok p1" "subs (pbroadcaster p1) = subs (pbroadcaster p)"
      "queue_of i p1 = lastn bc_cap (queue_of i p @ [proxied transform f])"
    by (auto simp: proxied_def)
  have "length (queue_of i p1) \<le> bc_cap" by (simp add: p1(4) lastn_def)
  with Cons.IH [OF p1(2)] Cons.prems(2) p1(3) obtain p' where
    "fold (Serve_onFrame transform) fs (Some p1) = Some p'" "proxy_ok p'"
    "queue_of i p' = lastn bc_cap (queue_of i p1 @ map (proxied transform) fs)" by auto
  moreover have "Serve_onFrame transform f (Some p) = Some p1" using p1(1) by (simp add: Serve_onFrame_def)
  ultimately show ?case using p1(4) by (simp add: lastn_snoc_lastn)
qed

lemma upstream_fold:
  "fold (upstream_handle (Some h)) fs (n, s) = (n + length fs, fold h fs s)"
  by (induction fs arbitrary: n s) (simp_all add: upstream_handle_def)

subsection \<open>Properties\<close>

text \<open>one hop of the restream chain: a proxy that reads a stream of frames cut off anywhere queues for
  each downstream client, in order, the transformed frames it received whole, under the same camera,
  timestamp and sequence number, up to the last two if the client does not read; nothing panics. With the
  restreamer's transform the frames are those sent, unchanged.\<close>

theorem proxy_hop:
  assumes "list_all frame_ok fs" and "proxy_ok p" and "i \<in> set (subs (pbroadcaster p))"
    and "length (queue_of i p) \<le> bc_cap" and "k < length (stream_of frame_bytes fs)"
  shows "\<exists>n e p'. n < length fs \<and>
    upstream_loop (Some (Serve_onFrame transform)) \<lparr>rbuf = take k (stream_of frame_bytes fs), rend = t\<rparr> (0, Some p) =
      ((n, Some p'), e) \<and>
    length (stream_of frame_bytes (take n fs)) \<le> k \<and> k < length (stream_of frame_bytes (take (Suc n) fs)) \<and>
    queue_of i p' = lastn bc_cap (queue_of i p @ map (proxied transform) (take n fs)) \<and>
    map (proxied passthrough) fs = fs \<and> proxy_ok p'"
proof -
  from upstream.loop_cut [OF assms(1,5), of "Some (Serve_onFrame transform)" t "(0, Some p)"] obtain n e where
    n: "n < length fs" "upstream_loop (Some (Serve_onFrame transform))
      \<lparr>rbuf = take k (stream_of frame_bytes fs), rend = t\<rparr> (0, Some p) =
      (fold (upstream_handle (Some (Serve_onFrame transform))) (take n fs) (0, Some p), e)"
    "length (stream_of frame_bytes (take n fs)) \<le> k" "k < length (stream_of frame_bytes (take (Suc n) fs))" by blast
  from Serve_fold_ok [OF assms(2-4), of transform "take n fs"] obtain p' where
    "fold (Serve_onFrame transform) (take n fs) (Some p) = Some p'" "proxy_ok p'"
    "queue_of i p' = lastn bc_cap (queue_of i p @ map (proxied transform) (take n fs))" by blast
  moreover have "map (proxied passthrough) fs = fs"
    by (rule map_idI) (simp add: proxied_def passthrough_def)
  ultimately show ?thesis using n by (auto simp: upstream_fold)
qed

definition sample_proxy :: proxy where
  "sample_proxy = (Serve_init (\<lambda>n. int n))\<lparr>pbroadcaster := sample_broadcaster\<rparr>"

lemma sample_proxy_ok: "proxy_ok sample_proxy" "0 \<in> set (subs (pbroadcaster sample_proxy))" "queue_of 0 sample_proxy = []"
  using sample_broadcaster_ok
  by (simp_all add: proxy_ok_def sample_proxy_def Serve_init_def reg_ok_new queue_of_def sample_broadcaster_def
      Broadcaster_Subscribe_def subscribe_with_eq NewBroadcaster_def bcast_init_def)

theorem proxy_hop_witness:
  "\<exists>n e p'. n < length [sample_frame, sample_frame] \<and>
    upstream_loop (Some (Serve_onFrame passthrough))
      \<lparr>rbuf = take 40 (stream_of frame_bytes [sample_frame, sample_frame]), rend = EOF\<rparr> (0, Some sample_proxy) = ((n, Some p'), e)"
proof -
  have ok: "list_all frame_ok [sample_frame, sample_frame]" using frame_ok_sample by simp
  have l: "length (queue_of 0 sample_proxy) \<le> bc_cap" using sample_proxy_ok(3) by simp
  have k: "40 < length (stream_of frame_bytes [sample_frame, sample_frame])"
    by (simp add: frame_bytes_def headerSize_def sample_frame_def)
  from proxy_hop [OF ok sample_proxy_ok(1,2) l k] show ?thesis by blast
qed

subsection \<open>The life of a proxy process\<close>

text \<open>What runs inside \<open>Serve\<close> until it returns: the HTTP server, which ends with an error of its own or after
  the shutdown that a cancelled context starts, and the upstream reader, whose loop ends only when the context is
  cancelled. \<open>Serve\<close> returns when its deferred wait for the reader is over as well.\<close>

datatype http_server = HttpServing | HttpEnded "nat option"

record serve_life =
  slCancelled :: bool
  slHttp :: http_server
  slReading :: bool
  slInTransform :: bool

definition serve_start :: serve_life where
  "serve_start = \<lparr>slCancelled = False, slHttp = HttpServing, slReading = True, slInTransform = False\<rparr>"

inductive serve_step :: "serve_life \<Rightarrow> serve_life \<Rightarrow> bool" where
  ctx_cancel: "serve_step s (s\<lparr>slCancelled := True\<rparr>)"
| http_fails: "slHttp s = HttpServing \<Longrightarrow> serve_step s (s\<lparr>slHttp := HttpEnded (Some e)\<rparr>)"
| http_shutdown: "slHttp s = HttpServing \<Longrightarrow> slCancelled s \<Longrightarrow> serve_step s (s\<lparr>slHttp := HttpEnded None\<rparr>)"
| frame_in: "slReading s \<Longrightarrow> \<not> slInTransform s \<Longrightarrow> serve_step s (s\<lparr>slInTransform := True\<rparr>)"
| frame_out: "slInTransform s \<Longrightarrow> serve_step s (s\<lparr>slInTransform := False\<rparr>)"
| reader_stops: "slReading s \<Longrightarrow> slCancelled s \<Longrightarrow> \<not> slInTransform s \<Longrightarrow> serve_step s (s\<lparr>slReading := False\<rparr>)"

inductive_cases serve_stepE: "serve_step s t"

definition serve_result :: "serve_life \<Rightarrow> nat option option" where
  "serve_result s = (case slHttp s of HttpServing \<Rightarrow> None | HttpEnded r \<Rightarrow> if slReading s then None else Some r)"

definition serve_reach :: "serve_life \<Rightarrow> bool" where
  "serve_reach = serve_step\<^sup>*\<^sup>* serve_start"

lemma serve_inv: "serve_reach s \<Longrightarrow> (\<not> slReading s \<longrightarrow> slCancelled s \<and> \<not> slInTransform s)"
  unfolding serve_reach_def
proof (induction rule: rtranclp_induct)
  case base
  show ?case by (simp add: serve_start_def)
next
  case (step s t)
  from step(2,3) show ?case by (elim serve_stepE) auto
qed

text \<open>When \<open>Serve\<close> has returned no transform is in flight and none can start any more, so a caller may
  close the pool its transform feeds; and it can only have returned after its context was cancelled. The price is that
  an HTTP server that fails, because its port is taken say, does not end the process: the failure stays unreported
  until the cancellation.\<close>

theorem serve_joins_reader:
  assumes "serve_reach s"
  shows "(if serve_result s \<noteq> None then slCancelled s \<and> (\<forall>t. serve_step\<^sup>*\<^sup>* s t \<longrightarrow> \<not> slInTransform t)
     else True) \<and>
    serve_reach (serve_start\<lparr>slHttp := HttpEnded (Some e)\<rparr>) \<and>
    serve_result (serve_start\<lparr>slHttp := HttpEnded (Some e)\<rparr>) = None"
proof -
  have ended: "\<not> slInTransform t \<and> \<not> slReading t" if "serve_step\<^sup>*\<^sup>* s t" "\<not> slReading s" "\<not> slInTransform s" for s t
    using that by (induction rule: rtranclp_induct) (auto elim!: serve_stepE)
  have "serve_step serve_start (serve_start\<lparr>slHttp := HttpEnded (Some e)\<rparr>)"
    by (rule http_fails) (simp add: serve_start_def)
  then have "serve_reach (serve_start\<lparr>slHttp := HttpEnded (Some e)\<rparr>)" by (simp add: serve_reach_def r_into_rtranclp)
  moreover have "serve_result (serve_start\<lparr>slHttp := HttpEnded (Some e)\<rparr>) = None"
    by (simp add: serve_result_def serve_start_def)
  moreover have "slCancelled s \<and> (\<forall>t. serve_step\<^sup>*\<^sup>* s t \<longrightarrow> \<not> slInTransform t)" if "serve_result s \<noteq> None"
  proof -
    from that have "\<not> slReading s" by (auto simp: serve_result_def split: http_server.splits if_splits)
    with serve_inv [OF assms] ended show ?thesis by blast
  qed
  ultimately show ?thesis by (cases "serve_result s = None") simp_all
qed

lemma serve_stopped_reach: "serve_reach \<lparr>slCancelled = True, slHttp = HttpEnded None, slReading = False, slInTransform = False\<rparr>"
proof -
  have a: "serve_step serve_start (serve_start\<lparr>slCancelled := True\<rparr>)" by (rule ctx_cancel)
  have b: "serve_step (serve_start\<lparr>slCancelled := True\<rparr>) (serve_start\<lparr>slCancelled := True, slHttp := HttpEnded None\<rparr>)"
    using http_shutdown [of "serve_start\<lparr>slCancelled := True\<rparr>"] by (simp add: serve_start_def)
  have c: "serve_step (serve_start\<lparr>slCancelled := True, slHttp := HttpEnded None\<rparr>)
      \<lparr>slCancelled = True, slHttp = HttpEnded None, slReading = False, slInTransform = False\<rparr>"
    using reader_stops [of "serve_start\<lparr>slCancelled := True, slHttp := HttpEnded None\<rparr>"] by (simp add: serve_start_def)
  show ?thesis unfolding serve_reach_def using a b c by (meson converse_rtranclp_into_rtranclp rtranclp.rtrancl_refl)
qed

theorem serve_joins_reader_witness:
  "\<not> (\<exists>t. serve_step\<^sup>*\<^sup>* \<lparr>slCancelled = True, slHttp = HttpEnded None, slReading = False, slInTransform = False\<rparr> t \<and> slInTransform t)"
  using serve_joins_reader [OF serve_stopped_reach, of 0] by (simp add: serve_result_def)

end
