(* ===== verification/Frame_Stage.thy ===== *)
theory Frame_Stage
  imports Proxy_Service
begin

section \<open>Proxies that change frames\<close>

text \<open>
  The enhancer and the detector are \<open>livefeed.Serve\<close> with a transform that keeps state between frames and
  pushes one payload per frame. What their clients rely on is the locale \<open>frame_stage\<close>: such a transform
  forwards a payload it cannot decode as it came. Its lemmas follow a run of frames through the stage and
  the proxy; the two services interpret it.
\<close>

fun stage_outputs :: "(sframe \<Rightarrow> 's \<Rightarrow> bytes \<times> 's) \<Rightarrow> sframe list \<Rightarrow> 's \<Rightarrow> sframe list" where
  "stage_outputs step [] s = []"
| "stage_outputs step (f # fs) s = f\<lparr>fPayload := fst (step f s)\<rparr> # stage_outputs step fs (snd (step f s))"

fun stage_state :: "(sframe \<Rightarrow> 's \<Rightarrow> bytes \<times> 's) \<Rightarrow> sframe list \<Rightarrow> 's \<Rightarrow> 's" where
  "stage_state step [] s = s"
| "stage_state step (f # fs) s = stage_state step fs (snd (step f s))"

definition stage_onFrame ::
  "(sframe \<Rightarrow> 's \<Rightarrow> bytes \<times> 's) \<Rightarrow> sframe \<Rightarrow> (proxy \<times> 's) option \<Rightarrow> (proxy \<times> 's) option" where
  "stage_onFrame step f ps =
     (case ps of
        None \<Rightarrow> None
      | Some (p, s) \<Rightarrow> map_option (\<lambda>p'. (p', snd (step f s))) (Serve_push f (fst (step f s)) p))"

lemma length_stage_outputs [simp]: "length (stage_outputs step fs s) = length fs"
  by (induction fs arbitrary: s) simp_all

lemma stage_outputs_take: "stage_outputs step (take n fs) s = take n (stage_outputs step fs s)"
  by (induction fs arbitrary: n s) (simp_all add: take_Cons')

lemma stage_outputs_nth:
  "i < length fs \<Longrightarrow> stage_outputs step fs s ! i = (fs ! i)\<lparr>fPayload := fst (step (fs ! i) (stage_state step (take i fs) s))\<rparr>"
  by (induction fs arbitrary: i s) (auto simp: nth_Cons' take_Cons')

lemma stage_fold_ok:
  "proxy_ok p \<Longrightarrow> i \<in> set (subs (pbroadcaster p)) \<Longrightarrow> length (queue_of i p) \<le> bc_cap \<Longrightarrow>
   \<exists>p'. fold (stage_onFrame step) fs (Some (p, s)) = Some (p', stage_state step fs s) \<and> proxy_ok p' \<and>
     queue_of i p' = lastn bc_cap (queue_of i p @ stage_outputs step fs s)"
proof (induction fs arbitrary: p s)
  case Nil
  then show ?case by (simp add: lastn_def)
next
  case (Cons f fs)
  from Serve_push_ok [OF Cons.prems(1), of f "fst (step f s)"] Cons.prems(2) obtain p1 where
    p1: "Serve_push f (fst (step f s)) p = Some p1" "proxy_ok p1" "subs (pbroadcaster p1) = subs (pbroadcaster p)"
      "queue_of i p1 = lastn bc_cap (queue_of i p @ [f\<lparr>fPayload := fst (step f s)\<rparr>])" by auto
  have "length (queue_of i p1) \<le> bc_cap" by (simp add: p1(4) lastn_def)
  with Cons.IH [OF p1(2), of "snd (step f s)"] Cons.prems(2) p1(3) obtain p' where
    "fold (stage_onFrame step) fs (Some (p1, snd (step f s))) = Some (p', stage_state step fs (snd (step f s)))" "proxy_ok p'"
    "queue_of i p' = lastn bc_cap (queue_of i p1 @ stage_outputs step fs (snd (step f s)))" by auto
  moreover have "stage_onFrame step f (Some (p, s)) = Some (p1, snd (step f s))" using p1(1) by (simp add: stage_onFrame_def)
  ultimately show ?case using p1(4) by (simp add: lastn_snoc_lastn)
qed

locale frame_stage =
  fixes step :: "sframe \<Rightarrow> 's \<Rightarrow> bytes \<times> 's" and usable :: "bytes \<Rightarrow> bool"
  assumes pass_through: "\<not> usable (fPayload f) \<Longrightarrow> fst (step f s) = fPayload f"
begin

lemma unusable_unchanged:
  assumes "i < length fs" "\<not> usable (fPayload (fs ! i))"
  shows "stage_outputs step fs s ! i = fs ! i"
  by (simp add: stage_outputs_nth [OF assms(1)] pass_through [OF assms(2)])

lemma reads_prefix:
  assumes "list_all frame_ok fs" "proxy_ok p" "i \<in> set (subs (pbroadcaster p))"
    and "length (queue_of i p) \<le> bc_cap" "k < length (stream_of frame_bytes fs)"
  shows "\<exists>n e p'. n < length fs \<and>
    upstream_loop (Some (stage_onFrame step)) \<lparr>rbuf = take k (stream_of frame_bytes fs), rend = t\<rparr> (0, Some (p, s)) =
      ((n, Some (p', stage_state step (take n fs) s)), e) \<and>
    length (stream_of frame_bytes (take n fs)) \<le> k \<and> k < length (stream_of frame_bytes (take (Suc n) fs)) \<and>
    queue_of i p' = lastn bc_cap (queue_of i p @ take n (stage_outputs step fs s)) \<and> proxy_ok p'"
proof -
  from upstream.loop_cut [OF assms(1,5), of "Some (stage_onFrame step)" t "(0, Some (p, s))"] obtain n e where
    n: "n < length fs" "upstream_loop (Some (stage_onFrame step))
      \<lparr>rbuf = take k (stream_of frame_bytes fs), rend = t\<rparr> (0, Some (p, s)) =
      (fold (upstream_handle (Some (stage_onFrame step))) (take n fs) (0, Some (p, s)), e)"
    "length (stream_of frame_bytes (take n fs)) \<le> k" "k < length (stream_of frame_bytes (take (Suc n) fs))" by blast
  from stage_fold_ok [OF assms(2-4), of step "take n fs" s] obtain p' where
    "fold (stage_onFrame step) (take n fs) (Some (p, s)) = Some (p', stage_state step (take n fs) s)" "proxy_ok p'"
    "queue_of i p' = lastn bc_cap (queue_of i p @ take n (stage_outputs step fs s))"
    by (auto simp: stage_outputs_take)
  with n show ?thesis by (auto simp: upstream_fold)
qed

end

end
