(* ===== verification/Republish.thy ===== *)
theory Republish
  imports Livefeed_Hub "HOL-Library.Sublist"
begin

section \<open>A source of frames and one of its clients\<close>

text \<open>
  camera-web-api and the proxies hand frames to a broadcaster, and the goroutine of each TCP client takes them from its
  channel when it gets round to it. What a client has written by the end of a run is related to what the source
  emitted, for any source whose operations keep the laws of the locale \<open>republisher\<close>: one operation puts what it
  emits at the end of the client's channel, dropping the oldest, and taking does not touch the rest of the state.
\<close>

subsection \<open>The client\<close>

text \<open>What client \<open>i\<close> takes from its channel in \<open>n\<close> turns; a turn on an empty channel waits.\<close>

fun client_takes :: "nat \<Rightarrow> nat \<Rightarrow> broadcaster \<Rightarrow> sframe list \<times> broadcaster" where
  "client_takes i 0 b = ([], b)"
| "client_takes i (Suc n) b =
     (case recv i b of
        None \<Rightarrow> ([], b)
      | Some (f, b1) \<Rightarrow> let (fs, b2) = client_takes i n b1 in (f # fs, b2))"

lemma bcast_ok_recv: "bcast_ok cap b \<Longrightarrow> recv i b = Some (v, b') \<Longrightarrow> bcast_ok cap b'"
proof -
  assume b: "bcast_ok cap b" and r: "recv i b = Some (v, b')"
  from r obtain vs where vs: "cbuf (chans b i) = v # vs" "b' = b\<lparr>chans := (chans b)(i := (chans b i)\<lparr>cbuf := vs\<rparr>)\<rparr>"
    by (auto simp: recv_def split: list.splits)
  have "chan_ok (chans b j) \<Longrightarrow> chan_ok (chans b' j) \<and> ccap (chans b' j) = ccap (chans b j)" for j
    using vs by (cases "j = i") (auto simp: chan_ok_def)
  with b vs(2) show "bcast_ok cap b'" by (simp add: bcast_ok_def list_all_iff)
qed

lemma client_takes_ok:
  "bcast_ok bc_cap b \<Longrightarrow> \<exists>b'. client_takes i n b = (take n (cbuf (chans b i)), b') \<and> bcast_ok bc_cap b' \<and>
     subs b' = subs b \<and> latest b' = latest b \<and> cbuf (chans b' i) = drop n (cbuf (chans b i))"
proof (induction n arbitrary: b)
  case (Suc n)
  show ?case
  proof (cases "cbuf (chans b i)")
    case Nil
    with Suc.prems show ?thesis by (simp add: recv_def)
  next
    case (Cons v vs)
    then obtain b1 where b1: "recv i b = Some (v, b1)" "subs b1 = subs b" "latest b1 = latest b" "cbuf (chans b1 i) = vs"
      by (simp add: recv_def)
    from Suc.IH [OF bcast_ok_recv [OF Suc.prems b1(1)]] obtain b' where
      "client_takes i n b1 = (take n (cbuf (chans b1 i)), b')" "bcast_ok bc_cap b'" "subs b' = subs b1"
      "latest b' = latest b1" "cbuf (chans b' i) = drop n (cbuf (chans b1 i))" by blast
    with b1 Cons show ?thesis by (intro exI [of _ b']) simp
  qed
qed simp

text \<open>A handler of events, before each of which the client has the turns that its schedule gives it.\<close>

definition with_client ::
  "('e \<Rightarrow> 's \<Rightarrow> 's option) \<Rightarrow> (nat \<Rightarrow> 's \<Rightarrow> sframe list \<times> 's) \<Rightarrow> 'e \<Rightarrow> ('s \<times> nat list \<times> sframe list) option \<Rightarrow>
     ('s \<times> nat list \<times> sframe list) option" where
  "with_client put takes e st =
     (case st of
        None \<Rightarrow> None
      | Some (s, turns, sent) \<Rightarrow>
          let (got, s1) = takes (case turns of [] \<Rightarrow> 0 | n # _ \<Rightarrow> n) s
          in map_option (\<lambda>s2. (s2, tl turns, sent @ got)) (put e s1))"

text \<open>What the client has written when it has had its last turns.\<close>

definition client_wrote :: "(nat \<Rightarrow> 's \<Rightarrow> sframe list \<times> 's) \<Rightarrow> nat \<Rightarrow> ('s \<times> nat list \<times> sframe list) option \<Rightarrow> sframe list option" where
  "client_wrote takes drain st = map_option (\<lambda>(s, turns, sent). sent @ fst (takes drain s)) st"

text \<open>What a source emits on a list of events, given what it emits on one and how its own state moves.\<close>

fun emitted :: "('e \<Rightarrow> 'c \<Rightarrow> sframe list) \<Rightarrow> ('e \<Rightarrow> 'c \<Rightarrow> 'c) \<Rightarrow> 'e list \<Rightarrow> 'c \<Rightarrow> sframe list" where
  "emitted emit move [] c = []"
| "emitted emit move (e # es) c = emit e c @ emitted emit move es (move e c)"

subsection \<open>The interface\<close>

text \<open>Dropping from the front keeps a subsequence, and the newest frame.\<close>

lemma subseq_lastn: "subseq (lastn n xs) xs"
  by (simp add: lastn_def subseq_tl)

lemma subseq_front: "subseq (take n xs) xs"
  by (metis append_take_drop_id list_emb_prefix subseq_order.order_refl)

lemma last_lastn: "0 < n \<Longrightarrow> xs \<noteq> [] \<Longrightarrow> lastn n xs \<noteq> [] \<and> last (lastn n xs) = last xs"
proof -
  assume "0 < n" "xs \<noteq> []"
  then have "length xs - n < length xs" by simp
  then show ?thesis by (simp add: lastn_def last_drop)
qed

lemma last_dropping:
  assumes "0 < n" "xs @ ys @ zs \<noteq> []"
  shows "xs @ lastn n ys @ zs \<noteq> [] \<and> last (xs @ lastn n ys @ zs) = last (xs @ ys @ zs)"
proof (cases "ys = []")
  case True
  with assms(2) show ?thesis by (simp add: lastn_def)
next
  case False
  with last_lastn [OF assms(1) this] show ?thesis by (simp add: last_append)
qed

locale republisher =
  fixes put :: "'e \<Rightarrow> 's \<Rightarrow> 's option" and takes :: "nat \<Rightarrow> 's \<Rightarrow> sframe list \<times> 's" and queue :: "'s \<Rightarrow> sframe list"
    and good :: "'s \<Rightarrow> bool" and core :: "'s \<Rightarrow> 'c" and emit :: "'e \<Rightarrow> 'c \<Rightarrow> sframe list" and move :: "'e \<Rightarrow> 'c \<Rightarrow> 'c"
  assumes put_ok: "good s \<Longrightarrow> \<exists>s'. put e s = Some s' \<and> good s' \<and> core s' = move e (core s) \<and>
      queue s' = lastn bc_cap (queue s @ emit e (core s))"
    and takes_ok: "good s \<Longrightarrow> \<exists>s'. takes n s = (take n (queue s), s') \<and> good s' \<and> core s' = core s \<and> queue s' = drop n (queue s)"
    and room: "good s \<Longrightarrow> length (queue s) \<le> bc_cap"
begin

definition written :: "'e list \<Rightarrow> 's \<Rightarrow> sframe list \<Rightarrow> sframe list" where
  "written es s sent = sent @ queue s @ emitted emit move es (core s)"

lemma event_keeps:
  assumes "good s"
  shows "\<exists>s' sent'. with_client put takes e (Some (s, turns, sent)) = Some (s', tl turns, sent') \<and> good s' \<and>
    subseq (written es s' sent') (written (e # es) s sent) \<and>
    (written (e # es) s sent \<noteq> [] \<longrightarrow> written es s' sent' \<noteq> [] \<and> last (written es s' sent') = last (written (e # es) s sent))"
proof -
  let ?n = "case turns of [] \<Rightarrow> 0 | n # _ \<Rightarrow> n"
  from takes_ok [OF assms, of ?n] obtain s1 where
    s1: "takes ?n s = (take ?n (queue s), s1)" "good s1" "core s1 = core s" "queue s1 = drop ?n (queue s)" by blast
  from put_ok [OF s1(2), of e] obtain s2 where
    s2: "put e s1 = Some s2" "good s2" "core s2 = move e (core s)" "queue s2 = lastn bc_cap (queue s1 @ emit e (core s))"
    unfolding s1(3) by blast
  let ?sent = "sent @ take ?n (queue s)" and ?q = "queue s1 @ emit e (core s)" and ?rest = "emitted emit move es (move e (core s))"
  have w: "written (e # es) s sent = ?sent @ ?q @ ?rest" "written es s2 ?sent = ?sent @ lastn bc_cap ?q @ ?rest"
    by (simp_all add: written_def s1(4) s2(3,4))
  have "subseq (written es s2 ?sent) (written (e # es) s sent)"
    unfolding w by (intro list_emb_append_mono subseq_order.order_refl subseq_lastn)
  moreover have "written es s2 ?sent \<noteq> [] \<and> last (written es s2 ?sent) = last (written (e # es) s sent)"
    if "written (e # es) s sent \<noteq> []"
    using that unfolding w by (intro last_dropping) (simp_all add: bc_cap_def)
  moreover have "with_client put takes e (Some (s, turns, sent)) = Some (s2, tl turns, ?sent)"
    using s1(1) s2(1) by (simp add: with_client_def)
  ultimately show ?thesis using s2(2) by blast
qed

lemma run_keeps:
  "good s \<Longrightarrow> \<exists>s' turns' sent'. fold (with_client put takes) es (Some (s, turns, sent)) = Some (s', turns', sent') \<and> good s' \<and>
    subseq (sent' @ queue s') (written es s sent) \<and>
    (written es s sent \<noteq> [] \<longrightarrow> sent' @ queue s' \<noteq> [] \<and> last (sent' @ queue s') = last (written es s sent))"
proof (induction es arbitrary: s turns sent)
  case Nil
  then show ?case by (auto simp: written_def)
next
  case (Cons e es)
  from event_keeps [OF Cons.prems, of e turns sent es] obtain s1 sent1 where
    s1: "with_client put takes e (Some (s, turns, sent)) = Some (s1, tl turns, sent1)" "good s1"
      "subseq (written es s1 sent1) (written (e # es) s sent)"
      "written (e # es) s sent \<noteq> [] \<longrightarrow> written es s1 sent1 \<noteq> [] \<and> last (written es s1 sent1) = last (written (e # es) s sent)"
    by blast
  from Cons.IH [OF s1(2), of "tl turns" sent1] obtain s' turns' sent' where
    r: "fold (with_client put takes) es (Some (s1, tl turns, sent1)) = Some (s', turns', sent')" "good s'"
      "subseq (sent' @ queue s') (written es s1 sent1)"
      "written es s1 sent1 \<noteq> [] \<longrightarrow> sent' @ queue s' \<noteq> [] \<and> last (sent' @ queue s') = last (written es s1 sent1)" by blast
  have "fold (with_client put takes) (e # es) (Some (s, turns, sent)) = Some (s', turns', sent')" by (simp add: s1(1) r(1))
  moreover from r(3) s1(3) have "subseq (sent' @ queue s') (written (e # es) s sent)" by (rule subseq_order.order_trans)
  ultimately show ?case using r(2,4) s1(4) by (intro exI [of _ s'] exI [of _ turns'] exI [of _ sent']) simp
qed

text \<open>A client that starts with an empty channel writes emitted frames, in their order; with turns enough at the end
  the newest is among them.\<close>

lemma client_keeps_newest:
  assumes "good s" "queue s = []"
  shows "\<exists>gs. client_wrote takes drain (fold (with_client put takes) es (Some (s, turns, []))) = Some gs \<and>
    subseq gs (emitted emit move es (core s)) \<and>
    (emitted emit move es (core s) \<noteq> [] \<longrightarrow> bc_cap \<le> drain \<longrightarrow> gs \<noteq> [] \<and> last gs = last (emitted emit move es (core s)))"
proof -
  have w: "written es s [] = emitted emit move es (core s)" by (simp add: written_def assms(2))
  from run_keeps [OF assms(1), of es turns "[]"] obtain s' turns' sent' where
    r: "fold (with_client put takes) es (Some (s, turns, [])) = Some (s', turns', sent')" "good s'"
      "subseq (sent' @ queue s') (emitted emit move es (core s))"
      "emitted emit move es (core s) \<noteq> [] \<longrightarrow> sent' @ queue s' \<noteq> [] \<and> last (sent' @ queue s') = last (emitted emit move es (core s))"
    unfolding w by blast
  let ?gs = "sent' @ take drain (queue s')"
  from takes_ok [OF r(2), of drain] r(1) have g: "client_wrote takes drain (fold (with_client put takes) es (Some (s, turns, []))) = Some ?gs"
    by (auto simp: client_wrote_def)
  have "subseq ?gs (sent' @ queue s')" by (intro list_emb_append_mono subseq_order.order_refl subseq_front)
  from subseq_order.order_trans [OF this r(3)] have q: "subseq ?gs (emitted emit move es (core s))" .
  have "?gs = sent' @ queue s'" if "bc_cap \<le> drain" using that room [OF r(2)] by simp
  with g q r(4) show ?thesis by (intro exI [of _ ?gs]) auto
qed

end

end
