(* ===== verification/Restream_Chain.thy ===== *)
theory Restream_Chain
  imports Frame_Stage Republish
begin

section \<open>A chain of restream proxies\<close>

text \<open>
  The services connected one behind the other: each hop reads a stream of frames, transforms and republishes them,
  and its client's goroutine writes what it takes from its channel to the next connection. How fast a client drains
  its channel is the hop's schedule, and a connection may break after any byte. What arrives at the far end is
  related to what was sent.
\<close>

subsection \<open>One hop\<close>

record 's hop =
  hpStep :: "sframe \<Rightarrow> 's \<Rightarrow> bytes \<times> 's"
  hpState :: 's
  hpClock :: "nat \<Rightarrow> gotime"
  hpTurns :: "nat list"
  hpDrain :: nat
  hpRoom :: "nat option"

text \<open>The callback of the proxy's reader, and its client.\<close>

definition hop_put :: "(sframe \<Rightarrow> 's \<Rightarrow> bytes \<times> 's) \<Rightarrow> sframe \<Rightarrow> proxy \<times> 's \<Rightarrow> (proxy \<times> 's) option" where
  "hop_put step f ps = stage_onFrame step f (Some ps)"

definition hop_takes :: "nat \<Rightarrow> nat \<Rightarrow> proxy \<times> 's \<Rightarrow> sframe list \<times> proxy \<times> 's" where
  "hop_takes i n ps =
     (let (fs, b) = client_takes i n (pbroadcaster (fst ps)) in (fs, (fst ps)\<lparr>pbroadcaster := b\<rparr>, snd ps))"

text \<open>A proxy that has just started, with its first client.\<close>

definition hop_proxy :: "'s hop \<Rightarrow> nat \<times> proxy" where
  "hop_proxy h =
     (let (i, b) = Broadcaster_Subscribe NewBroadcaster in (i, (Serve_init (hpClock h))\<lparr>pbroadcaster := b\<rparr>))"

definition hop_sends :: "'s hop \<Rightarrow> bytes \<Rightarrow> sframe list option" where
  "hop_sends h bs =
     (let (i, p) = hop_proxy h
      in client_wrote (hop_takes i) (hpDrain h)
           (snd (fst (upstream_loop (Some (with_client (hop_put (hpStep h)) (hop_takes i))) \<lparr>rbuf = bs, rend = EOF\<rparr>
              (0, Some ((p, hpState h), hpTurns h, []))))))"

definition hop_bytes :: "nat option \<Rightarrow> sframe list \<Rightarrow> bytes" where
  "hop_bytes room gs = wsent (snd (serve (map (\<lambda>f. NextFrame f True) gs) \<lparr>wsent = [], wroom = room\<rparr>))"

text \<open>The chain, and a reader at its end that keeps what it gets.\<close>

fun chain_bytes :: "'s hop list \<Rightarrow> bytes \<Rightarrow> bytes option" where
  "chain_bytes [] bs = Some bs"
| "chain_bytes (h # hs) bs = (case hop_sends h bs of None \<Rightarrow> None | Some gs \<Rightarrow> chain_bytes hs (hop_bytes (hpRoom h) gs))"

definition collect :: "bytes \<Rightarrow> sframe list" where
  "collect bs = snd (fst (upstream_loop (Some (\<lambda>f got. got @ [f])) \<lparr>rbuf = bs, rend = EOF\<rparr> (0, [])))"

definition run_chain :: "'s hop list \<Rightarrow> bytes \<Rightarrow> sframe list option" where
  "run_chain hs bs = map_option collect (chain_bytes hs bs)"

subsection \<open>What a hop sends\<close>

definition hop_good :: "nat \<Rightarrow> proxy \<times> 's \<Rightarrow> bool" where
  "hop_good i ps \<longleftrightarrow> proxy_ok (fst ps) \<and> i \<in> set (subs (pbroadcaster (fst ps))) \<and> length (queue_of i (fst ps)) \<le> bc_cap"

definition hop_emit :: "(sframe \<Rightarrow> 's \<Rightarrow> bytes \<times> 's) \<Rightarrow> sframe \<Rightarrow> 's \<Rightarrow> sframe list" where
  "hop_emit step f s = [f\<lparr>fPayload := fst (step f s)\<rparr>]"

lemma hop_put_ok:
  assumes "hop_good i ps"
  shows "\<exists>ps'. hop_put step f ps = Some ps' \<and> hop_good i ps' \<and> snd ps' = snd (step f (snd ps)) \<and>
    queue_of i (fst ps') = lastn bc_cap (queue_of i (fst ps) @ hop_emit step f (snd ps))"
proof -
  obtain p s where ps: "ps = (p, s)" by (cases ps)
  from assms have g: "proxy_ok p" "i \<in> set (subs (pbroadcaster p))" by (simp_all add: hop_good_def ps)
  from Serve_push_ok [OF g(1), of f "fst (step f s)"] g(2) obtain p' where
    p': "Serve_push f (fst (step f s)) p = Some p'" "proxy_ok p'" "subs (pbroadcaster p') = subs (pbroadcaster p)"
      "queue_of i p' = lastn bc_cap (queue_of i p @ [f\<lparr>fPayload := fst (step f s)\<rparr>])" by auto
  then show ?thesis using g(2)
    by (intro exI [of _ "(p', snd (step f s))"]) (simp add: ps hop_put_def stage_onFrame_def hop_good_def hop_emit_def lastn_def)
qed

lemma hop_takes_ok:
  assumes "hop_good i ps"
  shows "\<exists>ps'. hop_takes i n ps = (take n (queue_of i (fst ps)), ps') \<and> hop_good i ps' \<and> snd ps' = snd ps \<and>
    queue_of i (fst ps') = drop n (queue_of i (fst ps))"
proof -
  obtain p s where ps: "ps = (p, s)" by (cases ps)
  from assms have g: "bcast_ok bc_cap (pbroadcaster p)" by (simp add: hop_good_def ps proxy_ok_def)
  from client_takes_ok [OF g, of i n] obtain b where
    "client_takes i n (pbroadcaster p) = (take n (cbuf (chans (pbroadcaster p) i)), b)" "bcast_ok bc_cap b"
    "subs b = subs (pbroadcaster p)" "cbuf (chans b i) = drop n (cbuf (chans (pbroadcaster p) i))" by blast
  with assms show ?thesis
    by (intro exI [of _ "(p\<lparr>pbroadcaster := b\<rparr>, s)"]) (simp add: ps hop_takes_def hop_good_def proxy_ok_def queue_of_def le_diff_conv)
qed

interpretation hop: republisher "hop_put step" "hop_takes i" "\<lambda>ps. queue_of i (fst ps)" "hop_good i" snd
    "hop_emit step" "\<lambda>f s. snd (step f s)" for step :: "sframe \<Rightarrow> 's \<Rightarrow> bytes \<times> 's" and i
proof
  show "\<exists>s'. hop_put step e s = Some s' \<and> hop_good i s' \<and> snd s' = snd (step e (snd s)) \<and>
      queue_of i (fst s') = lastn bc_cap (queue_of i (fst s) @ hop_emit step e (snd s))" if "hop_good i s" for s e
    by (rule hop_put_ok [OF that])
  show "\<exists>s'. hop_takes i n s = (take n (queue_of i (fst s)), s') \<and> hop_good i s' \<and> snd s' = snd s \<and>
      queue_of i (fst s') = drop n (queue_of i (fst s))" if "hop_good i s" for s n
    by (rule hop_takes_ok [OF that])
qed (simp add: hop_good_def)

lemma emitted_hop: "emitted (hop_emit step) (\<lambda>f s. snd (step f s)) fs s = stage_outputs step fs s"
  by (induction fs arbitrary: s) (simp_all add: hop_emit_def)

definition frame_name :: "sframe \<Rightarrow> u32 \<times> gotime \<times> u64" where
  "frame_name f = (fCameraID f, fTimestamp f, fSequence f)"

lemma names_of_outputs: "map frame_name (stage_outputs step fs s) = map frame_name fs"
  by (induction fs arbitrary: s) (simp_all add: frame_name_def)

lemma hop_proxy_ok:
  assumes "hop_proxy h = (i, p)"
  shows "proxy_ok p \<and> i \<in> set (subs (pbroadcaster p)) \<and> queue_of i p = []"
  using assms bcast_ok_subscribe [of bc_cap NewBroadcaster]
  by (auto simp: hop_proxy_def proxy_ok_def Serve_init_def reg_ok_new queue_of_def Broadcaster_Subscribe_def subscribe_with_eq
      NewBroadcaster_def bcast_init_def bcast_ok_def chan_ok_def bc_cap_def)

lemma hop_sends_ok:
  assumes "list_all frame_ok fs"
  shows "\<exists>n gs. n \<le> length fs \<and> hop_sends h (take k (stream_of frame_bytes fs)) = Some gs \<and>
    subseq gs (stage_outputs (hpStep h) (take n fs) (hpState h)) \<and>
    (length (stream_of frame_bytes fs) \<le> k \<longrightarrow> n = length fs) \<and>
    (0 < n \<longrightarrow> bc_cap \<le> hpDrain h \<longrightarrow> gs \<noteq> [] \<and> last gs = last (stage_outputs (hpStep h) (take n fs) (hpState h)))"
proof -
  obtain i p where hp: "hop_proxy h = (i, p)" by fastforce
  have g: "hop_good i (p, hpState h)" "queue_of i p = []" using hop_proxy_ok [OF hp] by (simp_all add: hop_good_def)
  let ?st = "Some ((p, hpState h), hpTurns h, [])" and ?h = "with_client (hop_put (hpStep h)) (hop_takes i)"
  from upstream_loop_cut [OF assms, of ?h k EOF ?st] obtain n e where n: "n \<le> length fs"
    "upstream_loop (Some ?h) \<lparr>rbuf = take k (stream_of frame_bytes fs), rend = EOF\<rparr> (0, ?st) = ((n, fold ?h (take n fs) ?st), e)"
    "length (stream_of frame_bytes fs) \<le> k \<longrightarrow> n = length fs" by blast
  let ?out = "stage_outputs (hpStep h) (take n fs) (hpState h)"
  from hop.client_keeps_newest [OF g(1), of "hpDrain h" "hpStep h" "take n fs" "hpTurns h"] g(2) obtain gs where
    gs: "client_wrote (hop_takes i) (hpDrain h) (fold ?h (take n fs) ?st) = Some gs" "subseq gs ?out"
      "?out \<noteq> [] \<longrightarrow> bc_cap \<le> hpDrain h \<longrightarrow> gs \<noteq> [] \<and> last gs = last ?out" by (auto simp: emitted_hop)
  have "length ?out = n" using n(1) by simp
  then have "?out \<noteq> []" if "0 < n" using that by (metis length_greater_0_conv)
  moreover have "hop_sends h (take k (stream_of frame_bytes fs)) = Some gs"
    using hp n(2) gs(1) by (simp add: hop_sends_def)
  ultimately show ?thesis using n(1,3) gs(2,3) by blast
qed

lemma serve_healthy:
  "list_all frame_ok gs \<Longrightarrow> serve (map (\<lambda>f. NextFrame f True) gs) \<lparr>wsent = x, wroom = None\<rparr> =
     (False, \<lparr>wsent = x @ stream_of frame_bytes gs, wroom = None\<rparr>)"
proof (induction gs arbitrary: x)
  case (Cons g gs)
  then obtain w' where w: "WriteFrame g \<lparr>wsent = x, wroom = None\<rparr> = (None, w')" "wroom w' = None"
    by (simp add: WriteFrame_def frame_ok_def)
  with WriteFrame_ok [OF w(1)] have "w' = \<lparr>wsent = x @ frame_bytes g, wroom = None\<rparr>" by simp
  with w Cons show ?case by simp
qed simp

lemma hop_bytes_cut:
  assumes "list_all frame_ok gs"
  shows "\<exists>k. hop_bytes room gs = take k (stream_of frame_bytes gs) \<and> (room = None \<longrightarrow> length (stream_of frame_bytes gs) \<le> k)"
proof (cases room)
  case None
  with serve_healthy [OF assms, of "[]"] show ?thesis
    by (intro exI [of _ "length (stream_of frame_bytes gs)"]) (simp add: hop_bytes_def)
next
  case (Some r)
  have "frames_of (map (\<lambda>f. NextFrame f True) gs) = gs" by (induction gs) simp_all
  with serve_bytes [of "map (\<lambda>f. NextFrame f True) gs" "\<lparr>wsent = [], wroom = room\<rparr>"] Some show ?thesis
    by (auto simp: hop_bytes_def)
qed

subsection \<open>What a chain delivers\<close>

text \<open>What the transforms of a chain make of a frame that is dropped nowhere, if they keep no memory of other frames.\<close>

definition through1 :: "'s hop \<Rightarrow> sframe \<Rightarrow> sframe" where
  "through1 h f = f\<lparr>fPayload := fst (hpStep h f (hpState h))\<rparr>"

definition through :: "'s hop list \<Rightarrow> sframe \<Rightarrow> sframe" where
  "through hs = fold through1 hs"

definition memoryless :: "'s hop \<Rightarrow> bool" where
  "memoryless h \<longleftrightarrow> (\<forall>f s. fst (hpStep h f s) = fst (hpStep h f (hpState h)))"

definition prompt :: "'s hop \<Rightarrow> bool" where
  "prompt h \<longleftrightarrow> hpRoom h = None \<and> bc_cap \<le> hpDrain h"

lemma outputs_memoryless: "memoryless h \<Longrightarrow> stage_outputs (hpStep h) fs s = map (through1 h) fs"
  unfolding memoryless_def by (induction fs arbitrary: s) (simp_all add: through1_def)

lemma frame_name_through: "frame_name (through hs f) = frame_name f"
  by (induction hs arbitrary: f) (simp_all add: through_def through1_def frame_name_def)

lemma outputs_frame_ok:
  assumes "\<And>f s. frame_ok f \<Longrightarrow> frame_ok (f\<lparr>fPayload := fst (step f s)\<rparr>)" "list_all frame_ok fs"
  shows "list_all frame_ok (stage_outputs step fs s)"
  using assms(2) by (induction fs arbitrary: s) (simp_all add: assms(1))

definition delivered :: "'s hop list \<Rightarrow> sframe list \<Rightarrow> sframe list \<Rightarrow> bool" where
  "delivered hs fs gs \<longleftrightarrow> subseq (map frame_name gs) (map frame_name fs) \<and>
     (list_all memoryless hs \<longrightarrow> subseq gs (map (through hs) fs))"

definition newest_of :: "'s hop list \<Rightarrow> sframe list \<Rightarrow> sframe list \<Rightarrow> bool" where
  "newest_of hs fs gs \<longleftrightarrow> gs \<noteq> [] \<and> frame_name (last gs) = frame_name (last fs) \<and>
     (list_all memoryless hs \<longrightarrow> last gs = through hs (last fs))"

lemma delivered_hop:
  assumes "subseq gs (stage_outputs (hpStep h) (take n fs) (hpState h))" "delivered hs gs out"
  shows "delivered (h # hs) fs out"
proof -
  have "subseq (map frame_name gs) (map frame_name (take n fs))"
    using subseq_map [OF assms(1), of frame_name] by (simp only: names_of_outputs)
  also have "subseq \<dots> (map frame_name fs)" by (rule subseq_map [OF subseq_front])
  finally have "subseq (map frame_name out) (map frame_name fs)"
    using assms(2) by (auto simp: delivered_def elim: subseq_order.order_trans)
  moreover have "subseq out (map (through (h # hs)) fs)" if "list_all memoryless (h # hs)"
  proof -
    from that assms(1) have "subseq gs (map (through1 h) (take n fs))" by (simp add: outputs_memoryless)
    then have "subseq (map (through hs) gs) (map (through hs) (map (through1 h) (take n fs)))" by (rule subseq_map)
    also have "map (through hs) (map (through1 h) (take n fs)) = map (through (h # hs)) (take n fs)" by (simp add: through_def)
    also have "subseq \<dots> (map (through (h # hs)) fs)" by (rule subseq_map [OF subseq_front])
    finally show ?thesis using assms(2) that by (auto simp: delivered_def elim: subseq_order.order_trans)
  qed
  ultimately show ?thesis by (simp add: delivered_def)
qed

lemma newest_hop:
  assumes "fs \<noteq> []" "gs \<noteq> []" "last gs = last (stage_outputs (hpStep h) fs (hpState h))" "newest_of hs gs out"
  shows "newest_of (h # hs) fs out"
proof -
  have o: "stage_outputs (hpStep h) fs (hpState h) \<noteq> []" using assms(1) by (cases fs) simp_all
  have "frame_name (last gs) = frame_name (last fs)"
    using assms(1,3) o arg_cong [OF names_of_outputs [of "hpStep h" fs "hpState h"], of last] by (simp add: last_map)
  moreover have "last gs = through1 h (last fs)" if "memoryless h"
    using that assms(1,3) by (simp add: outputs_memoryless last_map)
  ultimately show ?thesis using assms(4) by (auto simp: newest_of_def through_def)
qed

definition chain_result :: "'s hop list \<Rightarrow> sframe list \<Rightarrow> nat \<Rightarrow> sframe list \<Rightarrow> nat \<Rightarrow> bool" where
  "chain_result hs fs k out j \<longleftrightarrow>
     chain_bytes hs (take k (stream_of frame_bytes fs)) = Some (take j (stream_of frame_bytes out)) \<and>
     list_all frame_ok out \<and> delivered hs fs out \<and>
     (fs \<noteq> [] \<and> length (stream_of frame_bytes fs) \<le> k \<and> list_all prompt hs \<longrightarrow>
        length (stream_of frame_bytes out) \<le> j \<and> newest_of hs fs out)"

lemma chain_result_Cons:
  assumes "list_all frame_ok fs" "\<And>f s. frame_ok f \<Longrightarrow> frame_ok (f\<lparr>fPayload := fst (hpStep h f s)\<rparr>)"
    and rest: "\<And>gs i. list_all frame_ok gs \<Longrightarrow> \<exists>out j. chain_result hs gs i out j"
  shows "\<exists>out j. chain_result (h # hs) fs k out j"
proof -
  from hop_sends_ok [OF assms(1), of h k] obtain n gs where n: "n \<le> length fs"
    "hop_sends h (take k (stream_of frame_bytes fs)) = Some gs"
    "subseq gs (stage_outputs (hpStep h) (take n fs) (hpState h))"
    "length (stream_of frame_bytes fs) \<le> k \<longrightarrow> n = length fs"
    "0 < n \<longrightarrow> bc_cap \<le> hpDrain h \<longrightarrow> gs \<noteq> [] \<and> last gs = last (stage_outputs (hpStep h) (take n fs) (hpState h))" by blast
  have "list_all frame_ok (stage_outputs (hpStep h) (take n fs) (hpState h))"
    by (rule outputs_frame_ok [OF assms(2)]) (simp_all add: list_all_take assms(1))
  with n(3) have gs: "list_all frame_ok gs" by (fastforce simp: list_all_iff elim: list_emb_set)
  from hop_bytes_cut [OF gs, of "hpRoom h"] obtain i where
    i: "hop_bytes (hpRoom h) gs = take i (stream_of frame_bytes gs) \<and>
      (hpRoom h = None \<longrightarrow> length (stream_of frame_bytes gs) \<le> i)" ..
  from rest [OF gs, of i] obtain out j where out: "chain_result hs gs i out j" by blast
  have "length (stream_of frame_bytes out) \<le> j \<and> newest_of (h # hs) fs out"
    if "fs \<noteq> []" "length (stream_of frame_bytes fs) \<le> k" "list_all prompt (h # hs)"
  proof -
    from that n(4) have len: "n = length fs" "0 < n" by simp_all
    with that(3) n(5) have g: "gs \<noteq> []" "last gs = last (stage_outputs (hpStep h) fs (hpState h))" by (simp_all add: prompt_def)
    with out i that(3) have "length (stream_of frame_bytes out) \<le> j" "newest_of hs gs out" by (simp_all add: prompt_def chain_result_def)
    with newest_hop [OF that(1) g this(2)] show ?thesis by blast
  qed
  with n(2) i out delivered_hop [OF n(3), of hs out] have "chain_result (h # hs) fs k out j"
    by (simp add: chain_result_def)
  then show ?thesis by blast
qed

text \<open>The bytes at the far end are the stream of frames that were delivered, cut somewhere.\<close>

lemma chain_delivers:
  assumes "list_all frame_ok fs"
    and "\<And>h f s. h \<in> set hs \<Longrightarrow> frame_ok f \<Longrightarrow> frame_ok (f\<lparr>fPayload := fst (hpStep h f s)\<rparr>)"
  shows "\<exists>out j. chain_result hs fs k out j"
  using assms
proof (induction hs arbitrary: fs k)
  case Nil
  then have "chain_result ([] :: 's hop list) fs k fs k"
    by (simp add: chain_result_def delivered_def newest_of_def through_def)
  then show ?case by blast
next
  case (Cons h hs)
  have rest: "\<exists>out j. chain_result hs gs i out j" if "list_all frame_ok gs" for gs i
    by (rule Cons.IH [OF that]) (rule Cons.prems(2), simp_all)
  show ?case by (rule chain_result_Cons [OF Cons.prems(1) Cons.prems(2) rest]) simp_all
qed

text \<open>What a reader takes from a stream of delivered frames that is cut is delivered too.\<close>

lemma delivered_front: "delivered hs fs out \<Longrightarrow> delivered hs fs (take n out)"
  unfolding delivered_def take_map [symmetric] by (blast intro: subseq_order.order_trans subseq_front subseq_map)

lemma collect_cut:
  assumes "list_all frame_ok out"
  shows "\<exists>n. collect (take j (stream_of frame_bytes out)) = take n out \<and>
    (length (stream_of frame_bytes out) \<le> j \<longrightarrow> n = length out)"
proof -
  from upstream_loop_cut [OF assms, of "\<lambda>f got. got @ [f]" j EOF "[]"] obtain n e where n:
    "upstream_loop (Some (\<lambda>f got. got @ [f])) \<lparr>rbuf = take j (stream_of frame_bytes out), rend = EOF\<rparr> (0, []) =
      ((n, fold (\<lambda>f got. got @ [f]) (take n out) []), e)"
    "length (stream_of frame_bytes out) \<le> j \<longrightarrow> n = length out" by blast
  have "fold (\<lambda>f got. got @ [f]) xs ys = ys @ xs" for xs ys :: "sframe list" by (induction xs arbitrary: ys) simp_all
  with n show ?thesis by (intro exI [of _ n]) (simp add: collect_def)
qed


definition plain_hop :: "unit hop" where
  "plain_hop = \<lparr>hpStep = (\<lambda>f s. (passthrough f, s)), hpState = (), hpClock = int, hpTurns = [1, 0], hpDrain = 2, hpRoom = None\<rparr>"


end
