(* ===== verification/Recorder_Store.thy ===== *)
theory Recorder_Store
  imports Decimal
begin

section \<open>Recording storage (camera-recorder/internal/storage)\<close>

text \<open>
  \<open>Local\<close>, the store of recorded segments, on a model of its directory tree: a file is found by its
  directory (a camera's, or the one for temporary files) and its name, and holds video bytes, a
  segment's metadata, or a link. Each operation takes the faults of the system calls it makes; a fault
  makes that call fail. The UTC time stamp in file names is the parameter \<open>stamp\<close>, the raw duration is
  kept in nanoseconds, and names are ASCII. The locale \<open>segment_store\<close> is the protocol that the
  recording loop relies on, and \<open>local\<close> its interpretation.
\<close>

subsection \<open>Names\<close>

definition has_suffix :: "string \<Rightarrow> string \<Rightarrow> bool" where
  "has_suffix v suf \<longleftrightarrow> length suf \<le> length v \<and> drop (length v - length suf) v = suf"

definition safe_char :: "char \<Rightarrow> char" where
  "safe_char r =
     (let k = of_char r :: nat
      in if 48 \<le> k \<and> k \<le> 57 then r
         else if 97 \<le> k \<and> k \<le> 122 then r
         else if 65 \<le> k \<and> k \<le> 90 then r
         else if r = CHR ''-'' \<or> r = CHR ''_'' then r
         else CHR ''-'')"

definition safeName :: "string \<Rightarrow> string" where
  "safeName v = map safe_char v"

definition validFileName :: "string \<Rightarrow> bool" where
  "validFileName v \<longleftrightarrow> v \<noteq> [] \<and> CHR ''/'' \<notin> set v \<and> CHR 92 \<notin> set v \<and> has_suffix v ''.mp4''"

definition isSegmentFile :: "string \<Rightarrow> bool \<Rightarrow> bool" where
  "isSegmentFile nm isDir \<longleftrightarrow> \<not> isDir \<and> has_suffix nm ''.mp4'' \<and> nm \<noteq> ''latest.mp4''"

subsection \<open>Segments and the file system\<close>

record seg_info =
  siCameraID :: string
  siFileName :: string
  siStartedAt :: gotime
  siEndedAt :: gotime
  siRawDuration :: int
  siTimelapseFactor :: int
  siOutputFPS :: int
  siSizeBytes :: int
  siRelativePath :: string
  siDownloadURL :: string

datatype dir = CamDir string | TmpDir

datatype fdata = Video bytes | Meta seg_info | DamagedMeta | Link string

type_synonym fpath = "dir \<times> string"

record localfs =
  dirs :: "dir list"
  files :: "(fpath \<times> fdata) list"

definition fget :: "fpath \<Rightarrow> localfs \<Rightarrow> fdata option" where
  "fget p fs = map_of (files fs) p"

definition fput :: "fpath \<Rightarrow> fdata \<Rightarrow> localfs \<Rightarrow> localfs" where
  "fput p d fs = fs\<lparr>files := (p, d) # filter (\<lambda>q. fst q \<noteq> p) (files fs)\<rparr>"

definition fdel :: "fpath \<Rightarrow> localfs \<Rightarrow> localfs" where
  "fdel p fs = fs\<lparr>files := filter (\<lambda>q. fst q \<noteq> p) (files fs)\<rparr>"

definition mkdir :: "dir \<Rightarrow> localfs \<Rightarrow> localfs" where
  "mkdir d fs = fs\<lparr>dirs := List.insert d (dirs fs)\<rparr>"

definition entries :: "dir \<Rightarrow> localfs \<Rightarrow> string list" where
  "entries d fs = sort (map (snd \<circ> fst) (filter (\<lambda>q. fst (fst q) = d) (files fs)))"

definition cameraDir :: "string \<Rightarrow> dir" where
  "cameraDir cid = CamDir (''camera-'' @ safeName cid)"

datatype store_error = Cancelled | SysErr | NotExist | ErrInvalid

datatype meta_fault = MetaWritten | MetaAbsent | MetaDamaged

record faults =
  flt_cancelled :: bool
  flt_mkdir_cam :: bool
  flt_mkdir_tmp :: bool
  flt_open :: bool
  flt_rename :: bool
  flt_stat :: bool
  flt_meta :: meta_fault
  flt_remove :: bool
  flt_readdir :: bool

definition no_faults :: faults where
  "no_faults = \<lparr>flt_cancelled = False, flt_mkdir_cam = False, flt_mkdir_tmp = False, flt_open = False,
     flt_rename = False, flt_stat = False, flt_meta = MetaWritten, flt_remove = False, flt_readdir = False\<rparr>"

record pending =
  pInfo :: seg_info
  pTmp :: fpath
  pFinal :: fpath
  pWritten :: int

subsection \<open>Operations\<close>

definition segment_file_name :: "(gotime \<Rightarrow> string) \<Rightarrow> gotime \<Rightarrow> string" where
  "segment_file_name stamp start = stamp start @ ''_'' @ itoa (i64 start) @ ''.mp4''"

definition BeginSegment ::
  "(gotime \<Rightarrow> string) \<Rightarrow> faults \<Rightarrow> string \<Rightarrow> gotime \<Rightarrow> int \<Rightarrow> int \<Rightarrow> localfs \<Rightarrow> (store_error + pending) \<times> localfs" where
  "BeginSegment stamp flt cid start fps factor fs =
     (if flt_cancelled flt then (Inl Cancelled, fs)
      else if flt_mkdir_cam flt then (Inl SysErr, fs)
      else
        let fs1 = mkdir (cameraDir cid) fs
        in if flt_mkdir_tmp flt then (Inl SysErr, fs1)
           else
             let fs2 = mkdir TmpDir fs1;
                 fileName = segment_file_name stamp start;
                 tmpPath = (TmpDir, ''camera-'' @ safeName cid @ ''-'' @ fileName @ ''.tmp'');
                 finalPath = (cameraDir cid, fileName)
             in if flt_open flt then (Inl SysErr, fs2)
                else
                  (Inr \<lparr>pInfo = \<lparr>siCameraID = cid, siFileName = fileName, siStartedAt = start, siEndedAt = zero_time,
                          siRawDuration = 0, siTimelapseFactor = factor, siOutputFPS = fps, siSizeBytes = 0,
                          siRelativePath = ''camera-'' @ safeName cid @ ''/'' @ fileName, siDownloadURL = []\<rparr>,
                        pTmp = tmpPath, pFinal = finalPath, pWritten = 0\<rparr>,
                   fput tmpPath (Video []) fs2))"

text \<open>\<open>countingFile.Write\<close>: \<open>out\<close> are the bytes that reached the file.\<close>

definition segment_write :: "bytes \<Rightarrow> pending \<Rightarrow> localfs \<Rightarrow> pending \<times> localfs" where
  "segment_write out p fs =
     (p\<lparr>pWritten := pWritten p + int (length out)\<rparr>,
      case fget (pTmp p) fs of
        Some (Video b) \<Rightarrow> fput (pTmp p) (Video (b @ out)) fs
      | _ \<Rightarrow> fs)"

definition writeMetadata :: "faults \<Rightarrow> seg_info \<Rightarrow> localfs \<Rightarrow> store_error option \<times> localfs" where
  "writeMetadata flt info fs =
     (let p = (cameraDir (siCameraID info), siFileName info @ ''.json'')
      in case flt_meta flt of
           MetaWritten \<Rightarrow> (None, fput p (Meta info) fs)
         | MetaAbsent \<Rightarrow> (Some SysErr, fs)
         | MetaDamaged \<Rightarrow> (Some SysErr, fput p DamagedMeta fs))"

definition readMetadata :: "string \<Rightarrow> string \<Rightarrow> localfs \<Rightarrow> store_error + seg_info" where
  "readMetadata cid fileName fs =
     (case fget (cameraDir cid, fileName @ ''.json'') fs of
        Some (Meta info) \<Rightarrow>
          Inr (info\<lparr>siDownloadURL := ''/videos/'' @ siCameraID info @ ''/'' @ siFileName info\<rparr>)
      | Some _ \<Rightarrow> Inl ErrInvalid
      | None \<Rightarrow> Inl NotExist)"

definition CompleteSegment :: "faults \<Rightarrow> pending \<Rightarrow> gotime \<Rightarrow> localfs \<Rightarrow> (store_error + seg_info) \<times> localfs" where
  "CompleteSegment flt p fin fs =
     (if flt_cancelled flt then (Inl Cancelled, fs)
      else
        let info = (pInfo p)\<lparr>siEndedAt := fin, siRawDuration := time_sub fin (siStartedAt (pInfo p)),
                     siSizeBytes := pWritten p\<rparr>
        in case fget (pTmp p) fs of
             None \<Rightarrow> (Inl NotExist, fs)
           | Some d \<Rightarrow>
               if flt_rename flt then (Inl SysErr, fs)
               else
                 let fs1 = fput (pFinal p) d (fdel (pTmp p) fs);
                     info1 = (if flt_stat flt then info
                              else info\<lparr>siSizeBytes := (case d of Video b \<Rightarrow> int (length b) | _ \<Rightarrow> 0)\<rparr>)
                 in case writeMetadata flt info1 fs1 of
                      (Some e, fs2) \<Rightarrow> (Inl e, fs2)
                    | (None, fs2) \<Rightarrow>
                        (Inr info1, fput (cameraDir (siCameraID info1), ''latest.mp4'') (Link (siFileName info1)) fs2))"

definition DiscardSegment :: "faults \<Rightarrow> pending \<Rightarrow> localfs \<Rightarrow> store_error option \<times> localfs" where
  "DiscardSegment flt p fs =
     (if flt_cancelled flt then (Some Cancelled, fs)
      else if flt_remove flt then (Some SysErr, fs)
      else case fget (pTmp p) fs of
             None \<Rightarrow> (Some NotExist, fs)
           | Some d \<Rightarrow> (None, fdel (pTmp p) fs))"

record list_filter =
  lfCameraID :: string
  lfFrom :: gotime
  lfTo :: gotime
  lfLimit :: int

definition has_prefix :: "string \<Rightarrow> string \<Rightarrow> bool" where
  "has_prefix v pre \<longleftrightarrow> take (length pre) v = pre"

definition Cameras :: "faults \<Rightarrow> localfs \<Rightarrow> store_error + string list" where
  "Cameras flt fs =
     (if flt_cancelled flt then Inl Cancelled
      else if flt_readdir flt then Inl SysErr
      else Inr (sort (concat (map (\<lambda>d. case d of
               CamDir nm \<Rightarrow> if has_prefix nm ''camera-'' then [drop 7 nm] else []
             | TmpDir \<Rightarrow> []) (dirs fs)))))"

definition in_range :: "list_filter \<Rightarrow> seg_info \<Rightarrow> bool" where
  "in_range f info \<longleftrightarrow> \<not> (lfFrom f \<noteq> zero_time \<and> siStartedAt info < lfFrom f) \<and>
     \<not> (lfTo f \<noteq> zero_time \<and> siStartedAt info > lfTo f)"

definition list_dir :: "list_filter \<Rightarrow> string \<Rightarrow> localfs \<Rightarrow> seg_info list" where
  "list_dir f cid fs =
     (if cameraDir cid \<notin> set (dirs fs) then []
      else concat (map (\<lambda>nm.
        if \<not> isSegmentFile nm False then []
        else case readMetadata cid nm fs of
               Inl e \<Rightarrow> []
             | Inr info \<Rightarrow> if in_range f info then [info] else []) (entries (cameraDir cid) fs)))"

text \<open>The sort is by start time, latest first; it is stable here, while \<open>sort.Slice\<close> leaves the
  order of equal start times open.\<close>

definition List_segments :: "faults \<Rightarrow> list_filter \<Rightarrow> localfs \<Rightarrow> store_error + seg_info list" where
  "List_segments flt f fs =
     (if flt_cancelled flt then Inl Cancelled
      else
        case (if lfCameraID f = [] then Cameras flt fs else Inr [lfCameraID f]) of
          Inl e \<Rightarrow> Inl e
        | Inr cids \<Rightarrow>
            if flt_readdir flt then Inl SysErr
            else
              let out = sort_key (\<lambda>i. - siStartedAt i) (concat (map (\<lambda>cid. list_dir f cid fs) cids))
              in Inr (if lfLimit f > 0 \<and> int (length out) > lfLimit f then take (nat (lfLimit f)) out else out))"

definition all_of :: "string \<Rightarrow> list_filter" where
  "all_of cid = \<lparr>lfCameraID = cid, lfFrom = zero_time, lfTo = zero_time, lfLimit = 0\<rparr>"

definition remove_segment :: "string \<Rightarrow> seg_info \<Rightarrow> localfs \<Rightarrow> localfs" where
  "remove_segment cid info fs =
     fdel (cameraDir cid, siFileName info @ ''.json'') (fdel (cameraDir cid, siFileName info) fs)"

text \<open>Removal errors are ignored by the source; \<open>flt_remove\<close> leaves the files in place.\<close>

definition Prune :: "faults \<Rightarrow> string \<Rightarrow> int \<Rightarrow> localfs \<Rightarrow> store_error option \<times> localfs" where
  "Prune flt cid keep fs =
     (if keep \<le> 0 then (None, fs)
      else case List_segments flt (all_of cid) fs of
             Inl e \<Rightarrow> (Some e, fs)
           | Inr fl \<Rightarrow>
               if int (length fl) \<le> keep then (None, fs)
               else
                 let sorted = sort_key siStartedAt fl
                 in (None, if flt_remove flt then fs
                     else fold (remove_segment cid) (take (length fl - nat keep) sorted) fs))"

definition Open_segment :: "faults \<Rightarrow> string \<Rightarrow> string \<Rightarrow> localfs \<Rightarrow> store_error + (fdata \<times> seg_info)" where
  "Open_segment flt cid fileName fs =
     (if flt_cancelled flt then Inl Cancelled
      else if \<not> validFileName fileName then Inl ErrInvalid
      else case readMetadata cid fileName fs of
             Inl e \<Rightarrow> Inl e
           | Inr info \<Rightarrow>
               if flt_open flt then Inl SysErr
               else case fget (cameraDir cid, fileName) fs of None \<Rightarrow> Inl NotExist | Some d \<Rightarrow> Inr (d, info))"

definition UsageBytes :: "faults \<Rightarrow> localfs \<Rightarrow> store_error + int" where
  "UsageBytes flt fs =
     (if flt_cancelled flt then Inl Cancelled
      else if flt_readdir flt then Inl SysErr
      else Inr (sum_list (map (\<lambda>q. case snd q of Video b \<Rightarrow> int (length b) | _ \<Rightarrow> 0)
             (filter (\<lambda>q. isSegmentFile (snd (fst q)) False) (files fs)))))"


subsection \<open>Lemmas on the tree\<close>

lemma fget_simps [simp]:
  "fget p (fput q d fs) = (if p = q then Some d else fget p fs)"
  "fget p (fdel q fs) = (if p = q then None else fget p fs)"
  "fget p (mkdir e fs) = fget p fs"
  "dirs (fput q d fs) = dirs fs" "dirs (fdel q fs) = dirs fs"
  "dirs (mkdir e fs) = List.insert e (dirs fs)"
  using map_of_filter [of "\<lambda>k. k \<noteq> q" "files fs"]
  by (simp_all add: fget_def fput_def fdel_def mkdir_def restrict_map_def)

lemma set_entries: "nm \<in> set (entries d fs) \<longleftrightarrow> fget (d, nm) fs \<noteq> None"
  by (auto simp: entries_def fget_def map_of_eq_None_iff rev_image_eqI intro: rev_image_eqI)


text \<open>A tree is well-formed when each path occurs once and each metadata file describes the segment
  that its name and directory say.\<close>

definition wf_fs :: "localfs \<Rightarrow> bool" where
  "wf_fs fs \<longleftrightarrow> distinct (map fst (files fs)) \<and>
     (\<forall>d f info. fget (d, f) fs = Some (Meta info) \<longrightarrow>
        f = siFileName info @ ''.json'' \<and> d = cameraDir (siCameraID info))"

lemma readMetadata_wf:
  assumes "wf_fs fs" "readMetadata cid nm fs = Inr info"
  shows "siFileName info = nm"
proof -
  from assms(2) obtain m where m: "fget (cameraDir cid, nm @ ''.json'') fs = Some (Meta m)"
    "siFileName info = siFileName m"
    by (auto simp: readMetadata_def split: option.splits fdata.splits)
  with assms(1) have "nm @ ''.json'' = siFileName m @ ''.json''" by (simp add: wf_fs_def)
  with m(2) show ?thesis by simp
qed

lemma distinct_entries: "wf_fs fs \<Longrightarrow> distinct (entries d fs)"
proof -
  assume "wf_fs fs"
  then have "distinct (map fst (filter (\<lambda>q. fst (fst q) = d) (files fs)))"
    by (simp add: wf_fs_def distinct_map_filter)
  moreover have "inj_on snd (set (map fst (filter (\<lambda>q. fst (fst q) = d) (files fs))))"
    by (auto simp: inj_on_def)
  ultimately have "distinct (map snd (map fst (filter (\<lambda>q. fst (fst q) = d) (files fs))))"
    by (simp only: distinct_map)
  then show ?thesis by (simp add: entries_def)
qed

lemma not_both_suffix: "has_suffix nm ''.mp4'' \<Longrightarrow> nm \<noteq> x @ ''.json''"
  by (auto simp: has_suffix_def)

lemma distinct_names:
  "wf_fs fs \<Longrightarrow> distinct (map siFileName (list_dir f cid fs))"
proof -
  assume wf: "wf_fs fs"
  let ?g = "\<lambda>nm. if \<not> isSegmentFile nm False then []
        else case readMetadata cid nm fs of Inl e \<Rightarrow> [] | Inr info \<Rightarrow> if in_range f info then [info] else []"
  have g: "map siFileName (?g nm) = [] \<or> map siFileName (?g nm) = [nm]" for nm
    using readMetadata_wf [OF wf, of cid nm] by (auto split: sum.split)
  have "distinct (map siFileName (concat (map ?g E))) \<and> set (map siFileName (concat (map ?g E))) \<subseteq> set E"
    if "distinct E" for E
    using that
  proof (induction E)
    case (Cons nm E)
    with g [of nm] show ?case by (fastforce simp: map_concat)
  qed simp
  with distinct_entries [OF wf] show ?thesis by (simp add: list_dir_def)
qed

lemma listed_is_segment:
  assumes "wf_fs fs" "info \<in> set (list_dir f cid fs)"
  shows "has_suffix (siFileName info) ''.mp4''"
proof -
  from assms(2) obtain nm where "isSegmentFile nm False" "readMetadata cid nm fs = Inr info"
    by (auto simp: list_dir_def split: if_splits sum.splits)
  with readMetadata_wf [OF assms(1)] show ?thesis by (auto simp: isSegmentFile_def)
qed

lemma files_remove_segments:
  "files (fold (remove_segment cid) L fs) =
     filter (\<lambda>q. \<forall>i \<in> set L. fst q \<noteq> (cameraDir cid, siFileName i) \<and> fst q \<noteq> (cameraDir cid, siFileName i @ ''.json'')) (files fs)"
  "dirs (fold (remove_segment cid) L fs) = dirs fs"
proof -
  have "files (fold (remove_segment cid) L fs) =
     filter (\<lambda>q. \<forall>i \<in> set L. fst q \<noteq> (cameraDir cid, siFileName i) \<and> fst q \<noteq> (cameraDir cid, siFileName i @ ''.json'')) (files fs)
     \<and> dirs (fold (remove_segment cid) L fs) = dirs fs"
    by (induction L arbitrary: fs) (auto simp: remove_segment_def fdel_def intro: filter_cong)
  then show "files (fold (remove_segment cid) L fs) =
     filter (\<lambda>q. \<forall>i \<in> set L. fst q \<noteq> (cameraDir cid, siFileName i) \<and> fst q \<noteq> (cameraDir cid, siFileName i @ ''.json'')) (files fs)"
    "dirs (fold (remove_segment cid) L fs) = dirs fs" by blast+
qed

lemma concat_filter:
  "(\<And>n. n \<in> set E \<Longrightarrow> filter Q (g n) = (if P n then g' n else [])) \<Longrightarrow>
     concat (map g' (filter P E)) = filter Q (concat (map g E))"
  by (induction E) auto

lemma list_dir_remove:
  assumes wf: "wf_fs fs" and L: "\<And>i. i \<in> set L \<Longrightarrow> has_suffix (siFileName i) ''.mp4''"
  shows "list_dir f cid (fold (remove_segment cid) L fs) =
    filter (\<lambda>i. siFileName i \<notin> siFileName ` set L) (list_dir f cid fs)"
proof -
  let ?fs = "fold (remove_segment cid) L fs"
  let ?K = "\<lambda>n. \<forall>i \<in> set L. n \<noteq> siFileName i \<and> n \<noteq> siFileName i @ ''.json''"
  let ?g = "\<lambda>fs nm. if \<not> isSegmentFile nm False then []
        else case readMetadata cid nm fs of Inl e \<Rightarrow> [] | Inr info \<Rightarrow> if in_range f info then [info] else []"
  have fg: "fget (cameraDir cid, n) ?fs = (if ?K n then fget (cameraDir cid, n) fs else None)" for n
    using map_of_filter [of "\<lambda>k. \<forall>i \<in> set L. k \<noteq> (cameraDir cid, siFileName i) \<and> k \<noteq> (cameraDir cid, siFileName i @ ''.json'')" "files fs"]
    by (auto simp: fget_def files_remove_segments restrict_map_def)
  let ?inc = "\<lambda>q. fst (fst q) = cameraDir cid"
  have "entries (cameraDir cid) ?fs = sort (filter ?K (map (snd \<circ> fst) (filter ?inc (files fs))))"
    unfolding entries_def files_remove_segments(1) filter_map filter_filter
    by (intro arg_cong [of _ _ sort] arg_cong [of _ _ "map (snd \<circ> fst)"] filter_cong) auto
  also have "\<dots> = filter ?K (entries (cameraDir cid) fs)"
    unfolding entries_def by (rule filter_sort [symmetric])
  finally have ent: "entries (cameraDir cid) ?fs = filter ?K (entries (cameraDir cid) fs)" .
  have step: "filter (\<lambda>i. siFileName i \<notin> siFileName ` set L) (?g fs n) = (if ?K n then ?g ?fs n else [])" for n
  proof (cases "isSegmentFile n False")
    case True
    then have s: "has_suffix n ''.mp4''" by (simp add: isSegmentFile_def)
    have k: "?K n \<longleftrightarrow> n \<notin> siFileName ` set L" using not_both_suffix [OF s] by auto
    have "?K (n @ ''.json'') \<longleftrightarrow> n \<notin> siFileName ` set L"
      using not_both_suffix [OF L, of _ n] by fastforce
    with fg [of "n @ ''.json''"] k have r: "?K n \<Longrightarrow> readMetadata cid n ?fs = readMetadata cid n fs"
      by (simp add: readMetadata_def)
    show ?thesis
    proof (cases "?K n")
      case K: True
      with r k readMetadata_wf [OF wf, of cid n] show ?thesis by (auto split: sum.split)
    next
      case K: False
      with k readMetadata_wf [OF wf, of cid n] show ?thesis by (auto split: sum.split)
    qed
  next
    case False
    then show ?thesis by simp
  qed
  show ?thesis
    unfolding list_dir_def files_remove_segments(2) ent
    using concat_filter [of "entries (cameraDir cid) fs" "\<lambda>i. siFileName i \<notin> siFileName ` set L" "?g fs" ?K "?g ?fs", OF step]
    by simp
qed


lemma sort_key_take_drop:
  assumes "a \<in> set (take n (sort_key k xs))" "b \<in> set (drop n (sort_key k xs))"
  shows "k a \<le> k b"
proof -
  have "sorted (map k (take n (sort_key k xs) @ drop n (sort_key k xs)))" by simp
  then show ?thesis using assms unfolding map_append sorted_append by simp
qed

lemma distinct_files:
  "distinct (map fst (files fs)) \<Longrightarrow> distinct (map fst (files (fput p d fs)))"
  "distinct (map fst (files fs)) \<Longrightarrow> distinct (map fst (files (fdel p fs)))"
  by (auto simp: fput_def fdel_def distinct_map_filter)

lemma wf_fput_video: "wf_fs fs \<Longrightarrow> (\<And>i. d \<noteq> Meta i) \<Longrightarrow> wf_fs (fput p d fs)"
  by (auto simp: wf_fs_def distinct_files split: if_splits)

lemma wf_fput_meta:
  "wf_fs fs \<Longrightarrow> wf_fs (fput (cameraDir (siCameraID i), siFileName i @ ''.json'') (Meta i) fs)"
  by (auto simp: wf_fs_def distinct_files split: if_splits)

lemma wf_fdel: "wf_fs fs \<Longrightarrow> wf_fs (fdel p fs)"
  by (auto simp: wf_fs_def distinct_files split: if_splits)

lemma wf_writeMetadata: "wf_fs fs \<Longrightarrow> writeMetadata flt info fs = (e, fs') \<Longrightarrow> wf_fs fs'"
  by (auto simp: writeMetadata_def Let_def wf_fput_meta split: meta_fault.splits intro: wf_fput_video)

lemma tmp_not_meta: "wf_fs fs \<Longrightarrow> fget (TmpDir, n) fs \<noteq> Some (Meta i)"
  by (auto simp: wf_fs_def cameraDir_def)

lemma CompleteSegment_cases:
  assumes "CompleteSegment flt p fin fs = (r, fs')"
  obtains (untouched) e where "r = Inl e" "fs' = fs"
  | (stranded) e d info where "r = Inl e" "fget (pTmp p) fs = Some d"
      "writeMetadata flt info (fput (pFinal p) d (fdel (pTmp p) fs)) = (Some e, fs')"
  | (published) d info fs2 where "r = Inr info" "fget (pTmp p) fs = Some d"
      "writeMetadata flt info (fput (pFinal p) d (fdel (pTmp p) fs)) = (None, fs2)"
      "fs' = fput (cameraDir (siCameraID info), ''latest.mp4'') (Link (siFileName info)) fs2"
  using assms
  by (auto simp: CompleteSegment_def Let_def split: if_splits option.splits prod.splits)

lemma wf_Complete:
  assumes "CompleteSegment flt p fin fs = (r, fs')" "wf_fs fs" "fst (pTmp p) = TmpDir"
  shows "wf_fs fs'"
  using assms(1)
proof (cases rule: CompleteSegment_cases)
  case (untouched e)
  with assms show ?thesis by simp
next
  case (stranded e d info)
  from tmp_not_meta [OF assms(2), of "snd (pTmp p)"] assms(3) stranded(2) have "\<And>i. d \<noteq> Meta i"
    by (metis prod.collapse)
  with stranded(3) assms(2) show ?thesis by (meson wf_writeMetadata wf_fput_video wf_fdel)
next
  case (published d info fs2)
  from tmp_not_meta [OF assms(2), of "snd (pTmp p)"] assms(3) published(2) have "\<And>i. d \<noteq> Meta i"
    by (metis prod.collapse)
  with published(3) assms(2) have "wf_fs fs2" by (meson wf_writeMetadata wf_fput_video wf_fdel)
  then show ?thesis unfolding published(4) by (rule wf_fput_video) simp
qed


subsection \<open>The protocol of the recording loop\<close>

text \<open>The operations that the recorder calls, and what it relies on: which temporary files there are.\<close>

record 's store_ops =
  sBegin :: "faults \<Rightarrow> string \<Rightarrow> gotime \<Rightarrow> int \<Rightarrow> int \<Rightarrow> 's \<Rightarrow> (store_error + pending) \<times> 's"
  sWrite :: "bytes \<Rightarrow> pending \<Rightarrow> 's \<Rightarrow> pending \<times> 's"
  sComplete :: "faults \<Rightarrow> pending \<Rightarrow> gotime \<Rightarrow> 's \<Rightarrow> (store_error + seg_info) \<times> 's"
  sDiscard :: "faults \<Rightarrow> pending \<Rightarrow> 's \<Rightarrow> store_error option \<times> 's"
  sPrune :: "faults \<Rightarrow> string \<Rightarrow> int \<Rightarrow> 's \<Rightarrow> store_error option \<times> 's"

definition local_store :: "(gotime \<Rightarrow> string) \<Rightarrow> localfs store_ops" where
  "local_store stamp = \<lparr>sBegin = BeginSegment stamp, sWrite = segment_write, sComplete = CompleteSegment,
     sDiscard = DiscardSegment, sPrune = Prune\<rparr>"

definition tmp_files :: "localfs \<Rightarrow> string set" where
  "tmp_files fs = {n. fget (TmpDir, n) fs \<noteq> None}"

locale segment_store =
  fixes st :: "'s store_ops"
    and temps :: "'s \<Rightarrow> string set"
    and ok_pending :: "pending \<Rightarrow> bool"
  assumes begin_ok: "sBegin st flt c t fps fac s = (Inr p, s') \<Longrightarrow>
      ok_pending p \<and> temps s' = insert (snd (pTmp p)) (temps s)"
    and begin_err: "sBegin st flt c t fps fac s = (Inl e, s') \<Longrightarrow> temps s' = temps s"
    and write_temps: "sWrite st out p s = (p', s') \<Longrightarrow> ok_pending p \<Longrightarrow>
      temps s' = temps s \<and> ok_pending p' \<and> pTmp p' = pTmp p \<and> pWritten p' = pWritten p + int (length out)"
    and complete_temps: "sComplete st flt p t s = (r, s') \<Longrightarrow> ok_pending p \<Longrightarrow>
      temps s' = temps s \<or> temps s' = temps s - {snd (pTmp p)}"
    and complete_ok: "sComplete st flt p t s = (Inr i, s') \<Longrightarrow> ok_pending p \<Longrightarrow> temps s' = temps s - {snd (pTmp p)}"
    and discard_temps: "sDiscard st flt p s = (oe, s') \<Longrightarrow> ok_pending p \<Longrightarrow>
      \<not> flt_cancelled flt \<Longrightarrow> \<not> flt_remove flt \<Longrightarrow> temps s' = temps s - {snd (pTmp p)}"
    and prune_temps: "sPrune st flt c k s = (oe, s') \<Longrightarrow> temps s' = temps s"

definition local_pending :: "pending \<Rightarrow> bool" where
  "local_pending p \<longleftrightarrow> fst (pTmp p) = TmpDir \<and> fst (pFinal p) \<noteq> TmpDir"

lemma tmp_files_simps [simp]:
  "tmp_files (fput p d fs) = (if fst p = TmpDir then insert (snd p) (tmp_files fs) else tmp_files fs)"
  "tmp_files (fdel p fs) = (if fst p = TmpDir then tmp_files fs - {snd p} else tmp_files fs)"
  "tmp_files (mkdir e fs) = tmp_files fs"
  by (auto simp: tmp_files_def prod_eq_iff)

lemma cameraDir_not_Tmp [simp]: "cameraDir c \<noteq> TmpDir" "TmpDir \<noteq> cameraDir c"
  by (simp_all add: cameraDir_def)

lemma tmp_writeMetadata: "writeMetadata flt info fs = (e, fs') \<Longrightarrow> tmp_files fs' = tmp_files fs"
  by (auto simp: writeMetadata_def Let_def split: meta_fault.splits)

lemma tmp_remove: "tmp_files (fold (remove_segment c) L fs) = tmp_files fs"
  by (induction L arbitrary: fs) (simp_all add: remove_segment_def)

lemma tmp_Complete:
  assumes "CompleteSegment flt p t fs = (r, fs')" "local_pending p"
  shows "(\<exists>e. r = Inl e) \<and> fs' = fs \<or> tmp_files fs' = tmp_files fs - {snd (pTmp p)}"
  using assms(1)
proof (cases rule: CompleteSegment_cases)
  case (published d info fs2)
  with tmp_writeMetadata [OF published(3)] assms(2) show ?thesis by (simp add: local_pending_def)
next
  case (stranded e d info)
  with tmp_writeMetadata [OF stranded(3)] assms(2) show ?thesis by (simp add: local_pending_def)
qed simp

lemma tmp_write:
  assumes "segment_write out p fs = (p', fs')" "local_pending p"
  shows "tmp_files fs' = tmp_files fs \<and> local_pending p' \<and> pTmp p' = pTmp p \<and> pWritten p' = pWritten p + int (length out)"
proof -
  have "snd (pTmp p) \<in> tmp_files fs" if "fget (pTmp p) fs = Some d" for d
    using that assms(2) by (simp add: tmp_files_def local_pending_def) (metis option.distinct(1) prod.collapse)
  with assms show ?thesis
    by (auto simp: segment_write_def local_pending_def split: option.splits fdata.splits)
qed

lemma tmp_Discard:
  assumes "DiscardSegment flt p fs = (e, fs')" "local_pending p" "\<not> flt_cancelled flt" "\<not> flt_remove flt"
  shows "tmp_files fs' = tmp_files fs - {snd (pTmp p)}"
proof (cases "fget (pTmp p) fs")
  case None
  with assms have "snd (pTmp p) \<notin> tmp_files fs"
    by (simp add: tmp_files_def local_pending_def) (metis prod.collapse)
  with None assms show ?thesis by (simp add: DiscardSegment_def)
next
  case (Some d)
  with assms show ?thesis by (auto simp: DiscardSegment_def local_pending_def)
qed

interpretation local: segment_store "local_store stamp" tmp_files local_pending for stamp
proof unfold_locales
  fix flt c t fps fac s p s' e
  show "sBegin (local_store stamp) flt c t fps fac s = (Inr p, s') \<Longrightarrow>
      local_pending p \<and> tmp_files s' = insert (snd (pTmp p)) (tmp_files s)"
    by (auto simp: local_store_def BeginSegment_def Let_def local_pending_def split: if_splits)
  show "sBegin (local_store stamp) flt c t fps fac s = (Inl e, s') \<Longrightarrow> tmp_files s' = tmp_files s"
    by (auto simp: local_store_def BeginSegment_def Let_def split: if_splits)
next
  fix out p s p' s'
  assume "sWrite (local_store stamp) out p s = (p', s')" "local_pending p"
  then show "tmp_files s' = tmp_files s \<and> local_pending p' \<and> pTmp p' = pTmp p \<and> pWritten p' = pWritten p + int (length out)"
    using tmp_write [of out p s p' s'] by (simp add: local_store_def)
next
  fix flt p t s r s'
  assume a: "sComplete (local_store stamp) flt p t s = (r, s')" "local_pending p"
  with tmp_Complete [of flt p t s r s'] show "tmp_files s' = tmp_files s \<or> tmp_files s' = tmp_files s - {snd (pTmp p)}"
    by (auto simp: local_store_def)
next
  fix flt p t s i s'
  assume a: "sComplete (local_store stamp) flt p t s = (Inr i, s')" "local_pending p"
  with tmp_Complete [of flt p t s "Inr i" s'] show "tmp_files s' = tmp_files s - {snd (pTmp p)}"
    by (auto simp: local_store_def split: if_splits)
next
  fix flt p s e s'
  assume "sDiscard (local_store stamp) flt p s = (e, s')" "local_pending p" "\<not> flt_cancelled flt" "\<not> flt_remove flt"
  then show "tmp_files s' = tmp_files s - {snd (pTmp p)}"
    using tmp_Discard [of flt p s e s'] by (simp add: local_store_def)
next
  fix flt c k s e s'
  assume "sPrune (local_store stamp) flt c k s = (e, s')"
  then show "tmp_files s' = tmp_files s"
    by (auto simp: local_store_def Prune_def Let_def tmp_remove split: if_splits sum.splits)
qed


lemma segment_name:
  "isSegmentFile (segment_file_name stamp t) False"
  "CHR ''/'' \<notin> set (stamp t) \<Longrightarrow> CHR 92 \<notin> set (stamp t) \<Longrightarrow> validFileName (segment_file_name stamp t)"
proof -
  let ?n = "segment_file_name stamp t"
  have suf: "has_suffix ?n ''.mp4''"
    by (simp add: has_suffix_def segment_file_name_def)
  have "CHR ''_'' \<in> set ?n" by (simp add: segment_file_name_def)
  moreover have "CHR ''_'' \<notin> set ''latest.mp4''" by simp
  ultimately have "?n \<noteq> ''latest.mp4''" by metis
  with suf show "isSegmentFile ?n False" by (simp add: isSegmentFile_def)
  assume s: "CHR ''/'' \<notin> set (stamp t)" "CHR 92 \<notin> set (stamp t)"
  have "CHR ''/'' \<notin> set (itoa (i64 t))" "CHR 92 \<notin> set (itoa (i64 t))"
    using itoa_chars [of "CHR ''/''" "i64 t"] itoa_chars [of "CHR 92" "i64 t"] by (auto simp: digit_val_def)
  with s suf show "validFileName ?n" by (simp add: validFileName_def) (simp add: segment_file_name_def)
qed

subsection \<open>Properties\<close>


definition sample_info :: "string \<Rightarrow> gotime \<Rightarrow> seg_info" where
  "sample_info nm t = \<lparr>siCameraID = ''1'', siFileName = nm, siStartedAt = t, siEndedAt = t, siRawDuration = 0,
     siTimelapseFactor = 10, siOutputFPS = 10, siSizeBytes = 1, siRelativePath = nm, siDownloadURL = []\<rparr>"

definition sample_fs :: localfs where
  "sample_fs = \<lparr>dirs = [cameraDir ''1'', TmpDir],
     files = [((cameraDir ''1'', ''b.mp4''), Video [2]), ((cameraDir ''1'', ''b.mp4.json''), Meta (sample_info ''b.mp4'' 20)),
              ((cameraDir ''1'', ''a.mp4''), Video [1]), ((cameraDir ''1'', ''a.mp4.json''), Meta (sample_info ''a.mp4'' 10))]\<rparr>"

lemma sample_fs_wf: "wf_fs sample_fs"
  by (auto simp: wf_fs_def sample_fs_def fget_def sample_info_def split: if_splits)

lemma sample_fs_list:
  "\<exists>a b. List_segments no_faults (all_of ''1'') sample_fs = Inr [a, b]"
proof -
  have e: "entries (cameraDir ''1'') sample_fs = [''a.mp4'', ''a.mp4.json'', ''b.mp4'', ''b.mp4.json'']"
    by code_simp
  show ?thesis
    by (simp add: List_segments_def no_faults_def all_of_def list_dir_def [of _ "''1''"] e)
      (simp add: sample_fs_def isSegmentFile_def has_suffix_def readMetadata_def fget_def sample_info_def in_range_def)
qed


text \<open>C39: a segment whose metadata cannot be written is lost for good: completing it fails although the
  video has already been moved to its final name, discarding it afterwards finds no temporary file, and
  the video stays on disk, counted in the usage but in no listing, so that pruning never removes it.\<close>

theorem complete_may_strand_video:
  assumes "wf_fs fs" and "local_pending p" and "fget (pTmp p) fs = Some (Video v)"
    and "pFinal p = (cameraDir (siCameraID (pInfo p)), siFileName (pInfo p))"
    and "isSegmentFile (siFileName (pInfo p)) False"
    and "fget (cameraDir (siCameraID (pInfo p)), siFileName (pInfo p) @ ''.json'') fs = None"
  shows "\<exists>fs1. CompleteSegment (no_faults\<lparr>flt_meta := MetaAbsent\<rparr>) p fin fs = (Inl SysErr, fs1) \<and>
    DiscardSegment no_faults p fs1 = (Some NotExist, fs1) \<and>
    fget (pFinal p) fs1 = Some (Video v) \<and>
    (\<forall>f i. i \<in> set (list_dir f (siCameraID (pInfo p)) fs1) \<longrightarrow> siFileName i \<noteq> siFileName (pInfo p)) \<and>
    (\<forall>n. UsageBytes no_faults fs1 = Inr n \<longrightarrow> int (length v) \<le> n)"
proof -
  let ?fs1 = "fput (pFinal p) (Video v) (fdel (pTmp p) fs)"
  let ?c = "siCameraID (pInfo p)" and ?n = "siFileName (pInfo p)"
  have ne: "pTmp p \<noteq> pFinal p" using assms(2) by (auto simp: local_pending_def)
  have 1: "CompleteSegment (no_faults\<lparr>flt_meta := MetaAbsent\<rparr>) p fin fs = (Inl SysErr, ?fs1)"
    using assms(3) by (simp add: CompleteSegment_def no_faults_def writeMetadata_def Let_def)
  have 2: "DiscardSegment no_faults p ?fs1 = (Some NotExist, ?fs1)"
    using ne by (simp add: DiscardSegment_def no_faults_def)
  have "wf_fs ?fs1" using assms(1) by (intro wf_fput_video wf_fdel) simp_all
  moreover have "readMetadata ?c ?n ?fs1 = Inl NotExist"
    using assms(4,6) by (simp add: readMetadata_def)
  ultimately have 3: "siFileName i \<noteq> ?n" if "i \<in> set (list_dir f ?c ?fs1)" for f i
  proof -
    from that obtain nm where "readMetadata ?c nm ?fs1 = Inr i" by (auto simp: list_dir_def split: if_splits sum.splits)
    with \<open>readMetadata ?c ?n ?fs1 = Inl NotExist\<close> readMetadata_wf [OF \<open>wf_fs ?fs1\<close>] show ?thesis by fastforce
  qed
  have pos: "0 \<le> sum_list (map (\<lambda>q. case snd q of Video b \<Rightarrow> int (length b) | _ \<Rightarrow> 0) xs)" for xs :: "(fpath \<times> fdata) list"
    by (rule sum_list_nonneg) (auto split: fdata.split)
  have 4: "int (length v) \<le> n" if "UsageBytes no_faults ?fs1 = Inr n" for n
    using that assms(4,5) pos by (auto simp: UsageBytes_def no_faults_def fput_def)
  show ?thesis using 1 2 3 4 by (intro exI [of _ ?fs1]) simp
qed

definition sample_pending :: pending where
  "sample_pending = \<lparr>pInfo = sample_info ''c.mp4'' 30, pTmp = (TmpDir, ''c.tmp''), pFinal = (cameraDir ''1'', ''c.mp4''), pWritten = 3\<rparr>"

definition sample_fs_open :: localfs where
  "sample_fs_open = fput (TmpDir, ''c.tmp'') (Video [7, 8, 9]) sample_fs"

lemma sample_fs_open_wf: "wf_fs sample_fs_open"
  unfolding sample_fs_open_def by (rule wf_fput_video [OF sample_fs_wf]) simp

theorem complete_may_strand_video_witness:
  "\<exists>fs1. CompleteSegment (no_faults\<lparr>flt_meta := MetaAbsent\<rparr>) sample_pending 40 sample_fs_open = (Inl SysErr, fs1) \<and>
    fget (cameraDir ''1'', ''c.mp4'') fs1 = Some (Video [7, 8, 9])"
proof -
  have p: "local_pending sample_pending" by (simp add: local_pending_def sample_pending_def)
  have v: "fget (pTmp sample_pending) sample_fs_open = Some (Video [7, 8, 9])"
    by (simp add: sample_pending_def sample_fs_open_def)
  have f: "pFinal sample_pending = (cameraDir (siCameraID (pInfo sample_pending)), siFileName (pInfo sample_pending))"
    by (simp add: sample_pending_def sample_info_def)
  have n: "isSegmentFile (siFileName (pInfo sample_pending)) False"
    by (simp add: sample_pending_def sample_info_def isSegmentFile_def has_suffix_def)
  have j: "fget (cameraDir (siCameraID (pInfo sample_pending)), siFileName (pInfo sample_pending) @ ''.json'') sample_fs_open = None"
    by (simp add: sample_pending_def sample_info_def sample_fs_open_def sample_fs_def fget_def fput_def)
  from complete_may_strand_video [OF sample_fs_open_wf p v f n j, of 40] show ?thesis
    by (auto simp: f) (simp add: sample_pending_def sample_info_def)
qed

text \<open>A segment as \<open>BeginSegment\<close> leaves it, whatever was written since, and what completing it without a fault
  makes of the tree.\<close>

definition begun :: "(gotime \<Rightarrow> string) \<Rightarrow> string \<Rightarrow> gotime \<Rightarrow> pending \<Rightarrow> bool" where
  "begun stamp cid start p \<longleftrightarrow> siCameraID (pInfo p) = cid \<and> siFileName (pInfo p) = segment_file_name stamp start \<and>
     siStartedAt (pInfo p) = start \<and> fst (pTmp p) = TmpDir \<and> pFinal p = (cameraDir cid, segment_file_name stamp start)"

lemma BeginSegment_begun: "BeginSegment stamp flt cid start fps fac fs0 = (Inr p, fs0') \<Longrightarrow> begun stamp cid start p"
  by (auto simp: BeginSegment_def begun_def Let_def split: if_splits)

definition done_info :: "pending \<Rightarrow> gotime \<Rightarrow> bytes \<Rightarrow> seg_info" where
  "done_info p fin v = (pInfo p)\<lparr>siEndedAt := fin, siRawDuration := time_sub fin (siStartedAt (pInfo p)),
     siSizeBytes := int (length v)\<rparr>"

definition done_fs :: "pending \<Rightarrow> gotime \<Rightarrow> bytes \<Rightarrow> localfs \<Rightarrow> localfs" where
  "done_fs p fin v fs = fput (fst (pFinal p), ''latest.mp4'') (Link (snd (pFinal p)))
     (fput (fst (pFinal p), snd (pFinal p) @ ''.json'') (Meta (done_info p fin v))
       (fput (pFinal p) (Video v) (fdel (pTmp p) fs)))"

lemma complete_result:
  assumes "begun stamp cid start p" "fget (pTmp p) fs = Some (Video v)"
  shows "CompleteSegment no_faults p fin fs = (Inr (done_info p fin v), done_fs p fin v fs)"
  using assms by (simp add: CompleteSegment_def no_faults_def writeMetadata_def done_fs_def done_info_def begun_def Let_def)

lemma done_sel [simp]:
  "siFileName (done_info p fin v) = siFileName (pInfo p)" "siCameraID (done_info p fin v) = siCameraID (pInfo p)"
  "siStartedAt (done_info p fin v) = siStartedAt (pInfo p)" "siEndedAt (done_info p fin v) = fin"
  "siSizeBytes (done_info p fin v) = int (length v)" "dirs (done_fs p fin v fs) = dirs fs"
  by (simp_all add: done_info_def done_fs_def)

lemma segment_names_differ:
  "segment_file_name stamp t \<noteq> ''latest.mp4''" "segment_file_name stamp t @ ''.json'' \<noteq> ''latest.mp4''"
  using segment_name(1) [of stamp t] by (auto simp: isSegmentFile_def segment_file_name_def)

text \<open>What is in the tree afterwards, and that the segment is listed and opens.\<close>

lemma done_fget:
  assumes "begun stamp cid start p"
  shows "fget (cameraDir cid, segment_file_name stamp start) (done_fs p fin v fs) = Some (Video v)"
    and "fget (cameraDir cid, segment_file_name stamp start @ ''.json'') (done_fs p fin v fs) = Some (Meta (done_info p fin v))"
    and "fget (TmpDir, n) (done_fs p fin v fs) = (if n = snd (pTmp p) then None else fget (TmpDir, n) fs)"
  using assms segment_names_differ [of stamp start] by (auto simp: begun_def done_fs_def cameraDir_def prod_eq_iff)

lemma done_opens:
  assumes "begun stamp cid start p" "CHR ''/'' \<notin> set (stamp start)" "CHR 92 \<notin> set (stamp start)"
    and "fget (cameraDir cid, segment_file_name stamp start) fs' = Some (Video v)"
    and "fget (cameraDir cid, segment_file_name stamp start @ ''.json'') fs' = Some (Meta (done_info p fin v))"
  shows "Open_segment no_faults cid (segment_file_name stamp start) fs' =
      Inr (Video v, (done_info p fin v)\<lparr>siDownloadURL := ''/videos/'' @ cid @ ''/'' @ segment_file_name stamp start\<rparr>)"
  using assms segment_name(2) [of stamp start]
  by (simp add: Open_segment_def no_faults_def readMetadata_def begun_def)

lemma done_listed:
  assumes "begun stamp cid start p" "cameraDir cid \<in> set (dirs fs)"
  shows "(done_info p fin v)\<lparr>siDownloadURL := ''/videos/'' @ cid @ ''/'' @ segment_file_name stamp start\<rparr>
    \<in> set (list_dir (all_of cid) cid (done_fs p fin v fs))"
proof -
  have "segment_file_name stamp start \<in> set (entries (cameraDir cid) (done_fs p fin v fs))"
    using done_fget(1) [OF assms(1)] by (simp add: set_entries)
  moreover have "readMetadata cid (segment_file_name stamp start) (done_fs p fin v fs) =
      Inr ((done_info p fin v)\<lparr>siDownloadURL := ''/videos/'' @ cid @ ''/'' @ segment_file_name stamp start\<rparr>)"
    using done_fget(2) [OF assms(1)] assms(1) by (simp add: readMetadata_def begun_def)
  ultimately show ?thesis
    using segment_name(1) [of stamp start] assms(2) by (force simp: list_dir_def in_range_def all_of_def)
qed

text \<open>a completed segment is published: it leaves the temporary directory, its listing has the camera,
  the times and the size of the file, and it can be opened for download under its name.\<close>

theorem complete_publishes:
  assumes "wf_fs fs" and "BeginSegment stamp no_faults cid start fps fac fs0 = (Inr p, fs0')"
    and "fget (pTmp p) fs = Some (Video v)" and "cameraDir cid \<in> set (dirs fs)" and "CHR ''/'' \<notin> set (stamp start)"
    and "CHR 92 \<notin> set (stamp start)"
  shows "\<exists>info fs1. CompleteSegment no_faults p fin fs = (Inr info, fs1) \<and> wf_fs fs1 \<and>
    snd (pTmp p) \<notin> tmp_files fs1 \<and> siSizeBytes info = int (length v) \<and>
    siStartedAt info = start \<and> siEndedAt info = fin \<and> siCameraID info = cid \<and>
    info\<lparr>siDownloadURL := ''/videos/'' @ cid @ ''/'' @ siFileName info\<rparr> \<in> set (list_dir (all_of cid) cid fs1) \<and>
    Open_segment no_faults cid (siFileName info) fs1 =
      Inr (Video v, info\<lparr>siDownloadURL := ''/videos/'' @ cid @ ''/'' @ siFileName info\<rparr>)"
proof -
  note b = BeginSegment_begun [OF assms(2)]
  note c = complete_result [OF b assms(3), of fin]
  from b have p: "fst (pTmp p) = TmpDir" "siFileName (pInfo p) = segment_file_name stamp start"
    "siStartedAt (pInfo p) = start" "siCameraID (pInfo p) = cid" by (simp_all add: begun_def)
  have "wf_fs (done_fs p fin v fs)" by (rule wf_Complete [OF c assms(1) p(1)])
  moreover have "snd (pTmp p) \<notin> tmp_files (done_fs p fin v fs)" using done_fget(3) [OF b] by (simp add: tmp_files_def)
  ultimately show ?thesis
    using c done_listed [OF b assms(4)] done_opens [OF b assms(5,6) done_fget(1,2) [OF b]] p
    by (intro exI [of _ "done_info p fin v"] exI [of _ "done_fs p fin v fs"]) simp
qed

definition sample_begin :: "pending \<times> localfs" where
  "sample_begin = (case BeginSegment (\<lambda>t. ''T'') no_faults ''1'' 30 10 10 sample_fs of
     (Inr p, fs) \<Rightarrow> (p, fs) | (Inl e, fs) \<Rightarrow> (sample_pending, fs))"

lemma sample_begin_eq: "BeginSegment (\<lambda>t. ''T'') no_faults ''1'' 30 10 10 sample_fs = (Inr (fst sample_begin), snd sample_begin)"
  by (simp add: sample_begin_def BeginSegment_def no_faults_def Let_def)

lemma wf_mkdir [simp]: "wf_fs (mkdir d fs) = wf_fs fs"
  by (simp add: wf_fs_def) (simp add: mkdir_def)

lemma sample_begin_fs: "wf_fs (snd sample_begin)" "fget (pTmp (fst sample_begin)) (snd sample_begin) = Some (Video [])"
  "cameraDir ''1'' \<in> set (dirs (snd sample_begin))"
proof -
  show "wf_fs (snd sample_begin)"
    by (simp add: sample_begin_def BeginSegment_def no_faults_def Let_def wf_fput_video sample_fs_wf)
qed (simp_all add: sample_begin_def BeginSegment_def no_faults_def Let_def)

theorem complete_publishes_witness:
  "\<exists>info fs1. CompleteSegment no_faults (fst sample_begin) 40 (snd sample_begin) = (Inr info, fs1) \<and>
    siSizeBytes info = 0 \<and> siCameraID info = ''1''"
  using complete_publishes [OF sample_begin_fs(1) sample_begin_eq sample_begin_fs(2,3), of 40] by auto

text \<open>C40: no camera ID and no requested file name leads outside the recordings: a camera's directory is one
  path component without separators or dots, whatever the ID, and a file name that \<open>Open\<close> accepts is one
  component other than the parent directory.\<close>

theorem paths_confined:
  "(\<forall>d. cameraDir cid = CamDir d \<longrightarrow>
      CHR ''/'' \<notin> set d \<and> CHR 92 \<notin> set d \<and> CHR ''.'' \<notin> set d \<and> d \<noteq> []) \<and>
   ((\<exists>x. Open_segment flt cid fn fs = Inr x) \<longrightarrow>
      CHR ''/'' \<notin> set fn \<and> CHR 92 \<notin> set fn \<and> fn \<noteq> ''..'' \<and> fn \<noteq> ''.'' \<and> validFileName fn)"
proof
  have "c \<noteq> CHR ''/'' \<and> c \<noteq> CHR 92 \<and> c \<noteq> CHR ''.''" if "c \<in> set (safeName cid)" for c
    using that by (auto simp: safeName_def safe_char_def Let_def split: if_splits)
  then show "\<forall>d. cameraDir cid = CamDir d \<longrightarrow>
      CHR ''/'' \<notin> set d \<and> CHR 92 \<notin> set d \<and> CHR ''.'' \<notin> set d \<and> d \<noteq> []"
    by (auto simp: cameraDir_def)
  show "(\<exists>x. Open_segment flt cid fn fs = Inr x) \<longrightarrow>
      CHR ''/'' \<notin> set fn \<and> CHR 92 \<notin> set fn \<and> fn \<noteq> ''..'' \<and> fn \<noteq> ''.'' \<and> validFileName fn"
    by (auto simp: Open_segment_def validFileName_def has_suffix_def split: if_splits)
qed

theorem paths_confined_witness:
  "CHR ''/'' \<notin> set (''camera-'' @ safeName ''../x'')"
  using paths_confined [of "''../x''" no_faults "[]" sample_fs] by (simp add: cameraDir_def)

end
