(* ===== verification/Recorder_Camera.thy ===== *)
theory Recorder_Camera
  imports Recorder_Store Stream_Proto Device_Proto Dropchan "HOL-Library.AList"
begin

section \<open>The recording loop (camera-recorder/internal/recorder, metrics)\<close>

text \<open>
  One camera's recorder: the queue that \<open>Submit\<close> fills, the decimation of frames for the timelapse, the
  segment that is open, and its rotation, completion or disposal. The store is a record of operations
  (the interface \<open>storage.Store\<close>); the client lemmas are proved in the locale \<open>segment_store\<close> and used
  through its interpretation \<open>local\<close>. What the clock, the encoder process and the system calls do during
  a step is the step's environment. A decimation loop that does not end is \<open>None\<close>. The counters of
  \<open>metrics\<close> are unbounded here.
\<close>

subsection \<open>Metrics\<close>

record cam_metrics =
  framesReceived :: int
  framesRecorded :: int
  framesDropped :: int
  camSegmentsDone :: int

record rec_metrics =
  activeEncoders :: int
  storageBytes :: int
  encoderErrors :: int
  segmentsDone :: int
  camMetrics :: "(string \<times> cam_metrics) list"

definition metrics_New :: rec_metrics where
  "metrics_New = \<lparr>activeEncoders = 0, storageBytes = 0, encoderErrors = 0, segmentsDone = 0, camMetrics = []\<rparr>"

definition ensureCamera :: "string \<Rightarrow> rec_metrics \<Rightarrow> cam_metrics" where
  "ensureCamera c m = (case map_of (camMetrics m) c of
     None \<Rightarrow> \<lparr>framesReceived = 0, framesRecorded = 0, framesDropped = 0, camSegmentsDone = 0\<rparr> | Some x \<Rightarrow> x)"

definition upd_camera :: "string \<Rightarrow> (cam_metrics \<Rightarrow> cam_metrics) \<Rightarrow> rec_metrics \<Rightarrow> rec_metrics" where
  "upd_camera c f m = m\<lparr>camMetrics := AList.update c (f (ensureCamera c m)) (camMetrics m)\<rparr>"

definition IncFramesReceived :: "string \<Rightarrow> rec_metrics \<Rightarrow> rec_metrics" where
  "IncFramesReceived c = upd_camera c (\<lambda>x. x\<lparr>framesReceived := framesReceived x + 1\<rparr>)"

definition IncFramesRecorded :: "string \<Rightarrow> rec_metrics \<Rightarrow> rec_metrics" where
  "IncFramesRecorded c = upd_camera c (\<lambda>x. x\<lparr>framesRecorded := framesRecorded x + 1\<rparr>)"

definition IncFramesDropped :: "string \<Rightarrow> rec_metrics \<Rightarrow> rec_metrics" where
  "IncFramesDropped c = upd_camera c (\<lambda>x. x\<lparr>framesDropped := framesDropped x + 1\<rparr>)"

definition IncSegmentCompleted :: "string \<Rightarrow> rec_metrics \<Rightarrow> rec_metrics" where
  "IncSegmentCompleted c m =
     upd_camera c (\<lambda>x. x\<lparr>camSegmentsDone := camSegmentsDone x + 1\<rparr>) (m\<lparr>segmentsDone := segmentsDone m + 1\<rparr>)"

definition IncEncoderError :: "rec_metrics \<Rightarrow> rec_metrics" where
  "IncEncoderError m = m\<lparr>encoderErrors := encoderErrors m + 1\<rparr>"

definition IncActiveEncoders :: "rec_metrics \<Rightarrow> rec_metrics" where
  "IncActiveEncoders m = m\<lparr>activeEncoders := activeEncoders m + 1\<rparr>"

definition DecActiveEncoders :: "rec_metrics \<Rightarrow> rec_metrics" where
  "DecActiveEncoders m = m\<lparr>activeEncoders := activeEncoders m - 1\<rparr>"

definition SetStorageBytes :: "int \<Rightarrow> rec_metrics \<Rightarrow> rec_metrics" where
  "SetStorageBytes n m = m\<lparr>storageBytes := n\<rparr>"

lemmas metric_ops = IncFramesReceived_def IncFramesRecorded_def IncFramesDropped_def IncSegmentCompleted_def
  IncEncoderError_def IncActiveEncoders_def DecActiveEncoders_def upd_camera_def ensureCamera_def

subsection \<open>Configuration and state\<close>

record cam_cfg =
  cOutputFPS :: int
  cTimelapseFactor :: int
  cSegmentRawDuration :: int
  cMaxFileBytes :: int
  cKeepFilesPerCamera :: int
  cQueueSize :: nat
  cInactiveClose :: int

record active_seg =
  asPending :: pending
  asStartedAt :: gotime
  asLastRecorded :: gotime

record 's recorder =
  rSeg :: "active_seg option"
  rNextKeepAt :: gotime
  rLastFrameAt :: gotime
  rMetrics :: rec_metrics
  rStore :: 's

text \<open>The environment of closing a segment: whether the encoder closed cleanly and what it flushed,
  whether the file closed, and the faults of the store operations.\<close>

record fin_env =
  feClose :: "bool \<times> bytes"
  feWriterClose :: bool
  feComplete :: faults
  feAbort :: faults
  fePrune :: faults

text \<open>The environment of handling a frame: the clock, the bytes the encoder produced since the last
  event, the faults of opening a segment, whether the encoder starts, whether it takes the frame and what
  it produced meanwhile, and the environments of the rotations before and after the write.\<close>

record frame_env =
  evNow :: gotime
  evArrived :: bytes
  evRotateBefore :: fin_env
  evBegin :: faults
  evStart :: bool
  evStartDiscard :: faults
  evWrite :: "bool \<times> bytes"
  evDiscard :: faults
  evRotateAfter :: fin_env

subsection \<open>Decimation\<close>

definition keepEvery :: "cam_cfg \<Rightarrow> int" where
  "keepEvery cfg = i64 (go_div (i64 (second * cTimelapseFactor cfg)) (cOutputFPS cfg))"

partial_function (option) advance :: "int \<Rightarrow> gotime \<Rightarrow> gotime \<Rightarrow> gotime option" where
  "advance interval next ts =
     (if next > ts then Some next else advance interval (next + interval) ts)"

definition shouldKeep :: "gotime \<Rightarrow> gotime \<Rightarrow> int \<Rightarrow> (bool \<times> gotime) option" where
  "shouldKeep ts next interval =
     (if next = zero_time then Some (True, ts + interval)
      else if ts < next then Some (False, next)
      else map_option (\<lambda>n. (True, n)) (advance interval next ts))"

subsection \<open>Segments\<close>

definition shouldRotate :: "cam_cfg \<Rightarrow> active_seg option \<Rightarrow> gotime \<Rightarrow> bool" where
  "shouldRotate cfg seg now =
     (case seg of
        None \<Rightarrow> False
      | Some a \<Rightarrow>
          if time_sub now (asStartedAt a) \<ge> cSegmentRawDuration cfg then True
          else pWritten (asPending a) \<ge> cMaxFileBytes cfg)"

definition abortSegment :: "'s store_ops \<Rightarrow> faults \<Rightarrow> pending \<Rightarrow> 's recorder \<Rightarrow> 's recorder" where
  "abortSegment st flt p r =
     r\<lparr>rMetrics := IncEncoderError (rMetrics r), rStore := snd (sDiscard st flt p (rStore r))\<rparr>"

definition finishSegment ::
  "'s store_ops \<Rightarrow> cam_cfg \<Rightarrow> string \<Rightarrow> fin_env \<Rightarrow> active_seg option \<Rightarrow> 's recorder \<Rightarrow> 's recorder" where
  "finishSegment st cfg cid env seg r =
     (case seg of
        None \<Rightarrow> r
      | Some a \<Rightarrow>
          let r1 = r\<lparr>rMetrics := DecActiveEncoders (rMetrics r)\<rparr>;
              (p, s1) = sWrite st (snd (feClose env)) (asPending a) (rStore r1);
              r2 = r1\<lparr>rStore := s1\<rparr>
          in if \<not> fst (feClose env) then abortSegment st (feAbort env) p r2
             else if \<not> feWriterClose env then abortSegment st (feAbort env) p r2
             else case sComplete st (feComplete env) p (asLastRecorded a) (rStore r2) of
                    (Inl e, s2) \<Rightarrow> abortSegment st (feAbort env) p (r2\<lparr>rStore := s2\<rparr>)
                  | (Inr info, s2) \<Rightarrow>
                      r2\<lparr>rMetrics := IncSegmentCompleted cid (rMetrics r2),
                         rStore := snd (sPrune st (fePrune env) cid (cKeepFilesPerCamera cfg) s2)\<rparr>)"

definition rotate_seg :: "'s store_ops \<Rightarrow> cam_cfg \<Rightarrow> string \<Rightarrow> fin_env \<Rightarrow> 's recorder \<Rightarrow> 's recorder" where
  "rotate_seg st cfg cid env r = (finishSegment st cfg cid env (rSeg r) r)\<lparr>rSeg := None\<rparr>"

definition discardSegment_rec :: "'s store_ops \<Rightarrow> faults \<Rightarrow> active_seg \<Rightarrow> 's recorder \<Rightarrow> 's recorder" where
  "discardSegment_rec st flt a r =
     r\<lparr>rMetrics := DecActiveEncoders (rMetrics r), rStore := snd (sDiscard st flt (asPending a) (rStore r))\<rparr>"

definition openSegment ::
  "'s store_ops \<Rightarrow> cam_cfg \<Rightarrow> string \<Rightarrow> frame_env \<Rightarrow> gotime \<Rightarrow> 's recorder \<Rightarrow> active_seg option \<times> 's recorder" where
  "openSegment st cfg cid env start r =
     (case sBegin st (evBegin env) cid start (cOutputFPS cfg) (cTimelapseFactor cfg) (rStore r) of
        (Inl e, s1) \<Rightarrow> (None, r\<lparr>rStore := s1\<rparr>)
      | (Inr p, s1) \<Rightarrow>
          if \<not> evStart env
          then (None, r\<lparr>rStore := snd (sDiscard st (evStartDiscard env) p s1)\<rparr>)
          else (Some \<lparr>asPending = p, asStartedAt = start, asLastRecorded = start\<rparr>,
                r\<lparr>rMetrics := IncActiveEncoders (rMetrics r), rStore := s1\<rparr>))"

text \<open>Output of the encoder that reaches the open segment's file.\<close>

definition encoder_output :: "'s store_ops \<Rightarrow> bytes \<Rightarrow> 's recorder \<Rightarrow> 's recorder" where
  "encoder_output st out r =
     (case rSeg r of
        None \<Rightarrow> r
      | Some a \<Rightarrow> (let (p, s) = sWrite st out (asPending a) (rStore r)
                  in r\<lparr>rSeg := Some (a\<lparr>asPending := p\<rparr>), rStore := s\<rparr>))"

subsection \<open>Frames\<close>

text \<open>\<open>write_frame\<close> is the part of \<open>handleFrame\<close> from the write on, with a segment open.\<close>

definition write_frame :: "'s store_ops \<Rightarrow> cam_cfg \<Rightarrow> string \<Rightarrow> frame_env \<Rightarrow> gotime \<Rightarrow> 's recorder \<Rightarrow> 's recorder" where
  "write_frame st cfg cid env ts r =
     (case rSeg r of
        None \<Rightarrow> r
      | Some a \<Rightarrow>
          if \<not> fst (evWrite env)
          then (discardSegment_rec st (evDiscard env) a (r\<lparr>rMetrics := IncEncoderError (rMetrics r)\<rparr>))\<lparr>rSeg := None\<rparr>
          else
            let r1 = encoder_output st (snd (evWrite env)) r;
                r2 = r1\<lparr>rSeg := map_option (\<lambda>b. b\<lparr>asLastRecorded := ts\<rparr>) (rSeg r1),
                        rMetrics := IncFramesRecorded cid (rMetrics r1)\<rparr>
            in if shouldRotate cfg (rSeg r2) ts then rotate_seg st cfg cid (evRotateAfter env) r2 else r2)"

text \<open>What \<open>handleFrame\<close> does with a frame that is kept.\<close>

definition keep_frame :: "'s store_ops \<Rightarrow> cam_cfg \<Rightarrow> string \<Rightarrow> frame_env \<Rightarrow> gotime \<Rightarrow> 's recorder \<Rightarrow> 's recorder" where
  "keep_frame st cfg cid env ts r1 =
     (let r2 = (if shouldRotate cfg (rSeg r1) ts then rotate_seg st cfg cid (evRotateBefore env) r1 else r1)
      in case rSeg r2 of
           Some a \<Rightarrow> write_frame st cfg cid env ts r2
         | None \<Rightarrow>
             (case openSegment st cfg cid env ts r2 of
                (None, r3) \<Rightarrow> r3\<lparr>rMetrics := IncEncoderError (rMetrics r3)\<rparr>
              | (Some a, r3) \<Rightarrow> write_frame st cfg cid env ts (r3\<lparr>rSeg := Some a\<rparr>)))"

definition frame_time :: "frame_env \<Rightarrow> sframe \<Rightarrow> gotime" where
  "frame_time env f = (if fTimestamp f = zero_time then evNow env else fTimestamp f)"

definition handleFrame ::
  "'s store_ops \<Rightarrow> cam_cfg \<Rightarrow> string \<Rightarrow> frame_env \<Rightarrow> sframe \<Rightarrow> 's recorder \<Rightarrow> 's recorder option" where
  "handleFrame st cfg cid env f r0 =
     (let ts = frame_time env f;
          r = (encoder_output st (evArrived env) r0)\<lparr>rLastFrameAt := ts\<rparr>
      in if \<not> LooksLikeJPEG (fPayload f) then Some (r\<lparr>rMetrics := IncFramesDropped cid (rMetrics r)\<rparr>)
         else
           case shouldKeep ts (rNextKeepAt r) (keepEvery cfg) of
             None \<Rightarrow> None
           | Some (False, nx) \<Rightarrow> Some (r\<lparr>rNextKeepAt := nx, rMetrics := IncFramesDropped cid (rMetrics r)\<rparr>)
           | Some (True, nx) \<Rightarrow> Some (keep_frame st cfg cid env ts (r\<lparr>rNextKeepAt := nx\<rparr>)))"

lemma handleFrame_cases:
  assumes "handleFrame st cfg cid env f r0 = Some r'"
  obtains (dropped) nx where
      "r' = (encoder_output st (evArrived env) r0)\<lparr>rLastFrameAt := frame_time env f, rNextKeepAt := nx,
         rMetrics := IncFramesDropped cid (rMetrics (encoder_output st (evArrived env) r0))\<rparr>"
    | (kept) nx where
      "shouldKeep (frame_time env f) (rNextKeepAt r0) (keepEvery cfg) = Some (True, nx)"
      "r' = keep_frame st cfg cid env (frame_time env f)
         ((encoder_output st (evArrived env) r0)\<lparr>rLastFrameAt := frame_time env f, rNextKeepAt := nx\<rparr>)"
proof -
  let ?e = "encoder_output st (evArrived env) r0"
  let ?r = "?e\<lparr>rLastFrameAt := frame_time env f\<rparr>"
  have nk: "rNextKeepAt ?e = rNextKeepAt r0" by (simp add: encoder_output_def split: option.split prod.split)
  show ?thesis
  proof (cases "LooksLikeJPEG (fPayload f)")
    case False
    with assms have "r' = ?r\<lparr>rNextKeepAt := rNextKeepAt ?e, rMetrics := IncFramesDropped cid (rMetrics ?e)\<rparr>"
      by (simp add: handleFrame_def Let_def)
    then show ?thesis by (rule dropped)
  next
    case True
    with assms obtain b nx where k: "shouldKeep (frame_time env f) (rNextKeepAt r0) (keepEvery cfg) = Some (b, nx)"
      by (auto simp: handleFrame_def Let_def nk split: option.splits)
    show ?thesis
    proof (cases b)
      case True
      with k \<open>LooksLikeJPEG (fPayload f)\<close> assms kept show ?thesis by (simp add: handleFrame_def Let_def nk)
    next
      case False
      with k True assms dropped [of nx] show ?thesis by (simp add: handleFrame_def Let_def nk)
    qed
  qed
qed

subsection \<open>The loop and the queue\<close>

text \<open>What the camera's goroutine and its callers do, one event at a time: a \<open>Submit\<close>, a frame taken
  from the queue, a tick of the one-second ticker (with the clock and what the encoder wrote since the
  last event), and the end of the context. After \<open>RecDone\<close> the goroutine has returned.\<close>

datatype rec_event =
    SubmitFrame sframe
  | HandleNext frame_env
  | Tick gotime bytes fin_env
  | RecDone fin_env

record 's camera =
  cLoop :: "'s recorder"
  cQueue :: "sframe chan"
  cRunning :: bool

definition newCamera :: "cam_cfg \<Rightarrow> rec_metrics \<Rightarrow> 's \<Rightarrow> 's camera" where
  "newCamera cfg m s = \<lparr>cLoop = \<lparr>rSeg = None, rNextKeepAt = zero_time, rLastFrameAt = zero_time, rMetrics = m, rStore = s\<rparr>,
     cQueue = make_chan (cQueueSize cfg), cRunning = True\<rparr>"

definition cam_Submit :: "string \<Rightarrow> sframe \<Rightarrow> 's camera \<Rightarrow> 's camera option" where
  "cam_Submit cid f c =
     (let m = IncFramesReceived cid (rMetrics (cLoop c))
      in case Send f (cQueue c) of
           None \<Rightarrow> None
         | Some (res, q) \<Rightarrow>
             Some (c\<lparr>cQueue := q, cLoop := (cLoop c)\<lparr>rMetrics := (if Lost res then IncFramesDropped cid m else m)\<rparr>\<rparr>))"

definition tick :: "'s store_ops \<Rightarrow> cam_cfg \<Rightarrow> string \<Rightarrow> gotime \<Rightarrow> bytes \<Rightarrow> fin_env \<Rightarrow> 's recorder \<Rightarrow> 's recorder" where
  "tick st cfg cid now out env r0 =
     (let r = encoder_output st out r0
      in if rSeg r \<noteq> None \<and> rLastFrameAt r \<noteq> zero_time \<and> time_sub now (rLastFrameAt r) > cInactiveClose cfg
         then rotate_seg st cfg cid env r else r)"

fun camera_step :: "'s store_ops \<Rightarrow> cam_cfg \<Rightarrow> string \<Rightarrow> rec_event \<Rightarrow> 's camera \<Rightarrow> 's camera option" where
  "camera_step st cfg cid (SubmitFrame f) c = cam_Submit cid f c"
| "camera_step st cfg cid (HandleNext env) c =
     (if \<not> cRunning c then Some c
      else case cbuf (cQueue c) of
             [] \<Rightarrow> Some c
           | f # fs \<Rightarrow>
               map_option (\<lambda>r. c\<lparr>cLoop := r, cQueue := (cQueue c)\<lparr>cbuf := fs\<rparr>\<rparr>)
                 (handleFrame st cfg cid env f (cLoop c)))"
| "camera_step st cfg cid (Tick now out env) c =
     (if \<not> cRunning c then Some c else Some (c\<lparr>cLoop := tick st cfg cid now out env (cLoop c)\<rparr>))"
| "camera_step st cfg cid (RecDone env) c =
     (if \<not> cRunning c then Some c
      else Some (c\<lparr>cLoop := finishSegment st cfg cid env (rSeg (cLoop c)) (cLoop c), cRunning := False\<rparr>))"

fun camera_run :: "'s store_ops \<Rightarrow> cam_cfg \<Rightarrow> string \<Rightarrow> rec_event list \<Rightarrow> 's camera \<Rightarrow> 's camera option" where
  "camera_run st cfg cid [] c = Some c"
| "camera_run st cfg cid (e # es) c =
     (case camera_step st cfg cid e c of None \<Rightarrow> None | Some c' \<Rightarrow> camera_run st cfg cid es c')"

lemmas rec_ops = rotate_seg_def discardSegment_rec_def abortSegment_def encoder_output_def

lemma camera_run_inv:
  assumes "camera_run st cfg cid es c = Some c'" "P c"
    and "\<And>e c c'. e \<in> set es \<Longrightarrow> camera_step st cfg cid e c = Some c' \<Longrightarrow> P c \<Longrightarrow> P c'"
  shows "P c'"
  using assms
proof (induction es arbitrary: c)
  case (Cons e es)
  then obtain d where "camera_step st cfg cid e c = Some d" "camera_run st cfg cid es d = Some c'"
    by (auto split: option.splits)
  with Cons show ?case by (metis list.set_intros)
qed simp

subsection \<open>Decimation: lemmas\<close>

lemma advance_reaches:
  assumes "0 < i"
  shows "advance i nx ts =
    Some (if ts < nx then nx else nx + i * ((ts - nx) div i + 1))"
proof (induction "nat (ts + i - nx)" arbitrary: nx rule: less_induct)
  case less
  show ?case
  proof (cases "ts < nx")
    case True
    then show ?thesis by (subst advance.simps) simp
  next
    case False
    with assms have "nat (ts + i - (nx + i)) < nat (ts + i - nx)" by simp
    note ih = less [OF this]
    have e: "(ts - (nx + i)) div i = (ts - nx) div i - 1"
      using assms div_add_self2 [of i "ts - nx - i"] by (simp add: algebra_simps)
    have z: "(ts - nx) div i = 0" if "ts < nx + i"
      using that False by (intro div_pos_pos_trivial) simp_all
    from False have "advance i nx ts = advance i (nx + i) ts" by (subst advance.simps) simp
    also have "\<dots> = Some (nx + i * ((ts - nx) div i + 1))"
    proof (cases "ts < nx + i")
      case True
      with z show ?thesis by (simp add: ih)
    next
      case False
      then show ?thesis unfolding ih e by (simp add: algebra_simps)
    qed
    finally show ?thesis using False by simp
  qed
qed

lemma advance_result:
  assumes "advance i nx ts = Some n"
  shows "0 < i \<or> ts < nx"
proof -
  have "(\<lambda>i nx ts n. 0 < i \<or> ts < nx) i nx ts n"
    by (rule advance.raw_induct [OF _ assms]) (force split: if_splits)
  then show ?thesis .
qed

definition slot :: "int \<Rightarrow> gotime \<Rightarrow> gotime \<Rightarrow> int" where
  "slot i t0 t = (t - t0) div i"

text \<open>The decisions of \<open>shouldKeep\<close> over successive frames: the timestamps that are kept.\<close>

fun kept_times :: "int \<Rightarrow> gotime \<Rightarrow> gotime list \<Rightarrow> gotime list option" where
  "kept_times i next [] = Some []"
| "kept_times i next (t # ts) =
     (case shouldKeep t next i of
        None \<Rightarrow> None
      | Some (b, next') \<Rightarrow> map_option (\<lambda>ks. if b then t # ks else ks) (kept_times i next' ts))"

lemma slot_grid:
  assumes "0 < i"
  shows "t < t0 + i * (k + 1) \<longleftrightarrow> slot i t0 t \<le> k"
proof
  assume "t < t0 + i * (k + 1)"
  moreover have "i * slot i t0 t \<le> t - t0"
    using mult_div_mod_eq [of i "t - t0"] pos_mod_sign [OF assms, of "t - t0"]
    unfolding slot_def by linarith
  ultimately have "i * slot i t0 t < i * (k + 1)" by simp
  with assms show "slot i t0 t \<le> k" by simp
next
  assume "slot i t0 t \<le> k"
  show "t < t0 + i * (k + 1)"
  proof (rule ccontr)
    assume "\<not> t < t0 + i * (k + 1)"
    then have "i * (k + 1) div i \<le> (t - t0) div i" using assms by (intro zdiv_mono1) simp_all
    with assms \<open>slot i t0 t \<le> k\<close> show False by (simp add: slot_def)
  qed
qed

lemma shouldKeep_grid:
  assumes i: "0 < i" and nz: "t0 + i * (k + 1) \<noteq> zero_time"
  shows "shouldKeep t (t0 + i * (k + 1)) i =
    Some (if slot i t0 t \<le> k then (False, t0 + i * (k + 1)) else (True, t0 + i * (slot i t0 t + 1)))"
proof (cases "slot i t0 t \<le> k")
  case True
  with i nz show ?thesis by (simp add: shouldKeep_def slot_grid)
next
  case False
  with i have l: "\<not> t < t0 + i * (k + 1)" by (simp add: slot_grid)
  have s: "(t - (t0 + i * (k + 1))) div i = slot i t0 t - (k + 1)"
    using i div_mult_self2 [of i "t - t0" "- (k + 1)"] by (simp add: slot_def algebra_simps)
  have "advance i (t0 + i * (k + 1)) t = Some (t0 + i * (slot i t0 t + 1))"
    using l by (simp add: advance_reaches [OF i] s) (simp add: algebra_simps)
  with l nz False show ?thesis by (simp add: shouldKeep_def)
qed

lemma slot_mono: "0 < i \<Longrightarrow> t \<le> u \<Longrightarrow> slot i t0 t \<le> slot i t0 u"
  by (simp add: slot_def zdiv_mono1)

lemma kept_times_grid:
  assumes "0 < i" "zero_time < t0" "0 \<le> k"
    and "sorted (u # ts)" "slot i t0 u = k"
  shows "\<exists>ks. kept_times i (t0 + i * (k + 1)) ts = Some ks \<and> subseq ks ts \<and>
    k # map (slot i t0) ks = remdups_adj (k # map (slot i t0) ts)"
  using assms(3-5)
proof (induction ts arbitrary: k u)
  case Nil
  then show ?case by simp
next
  case (Cons t ts)
  have nz: "t0 + i * (k + 1) \<noteq> zero_time"
    using assms(1,2) Cons.prems(1) mult_nonneg_nonneg [of i "k + 1"] by linarith
  note sk = shouldKeep_grid [OF assms(1) nz, of t]
  have m: "k \<le> slot i t0 t" using Cons.prems slot_mono [OF assms(1), of u t t0] by simp
  show ?case
  proof (cases "slot i t0 t = k")
    case True
    with Cons.prems Cons.IH [of k t] obtain ks where
      ks: "kept_times i (t0 + i * (k + 1)) ts = Some ks" "subseq ks ts"
        "k # map (slot i t0) ks = remdups_adj (k # map (slot i t0) ts)" by auto
    with True sk show ?thesis by (intro exI [of _ ks]) (auto intro: list_emb_Cons)
  next
    case False
    with m Cons.prems Cons.IH [of "slot i t0 t" t] obtain ks where
      ks: "kept_times i (t0 + i * (slot i t0 t + 1)) ts = Some ks" "subseq ks ts"
        "slot i t0 t # map (slot i t0) ks = remdups_adj (slot i t0 t # map (slot i t0) ts)" by auto
    with False m sk show ?thesis by (intro exI [of _ "t # ks"]) (auto intro: list_emb_Cons2)
  qed
qed

subsection \<open>Temporary files: lemmas on the store's interface\<close>

text \<open>The discards of an event do not fail; after the process context is cancelled the source runs them on
  a context that is never cancelled.\<close>

definition good_fin :: "fin_env \<Rightarrow> bool" where
  "good_fin env \<longleftrightarrow> \<not> flt_cancelled (feAbort env) \<and> \<not> flt_remove (feAbort env)"

fun good_event :: "rec_event \<Rightarrow> bool" where
  "good_event (SubmitFrame f) = True"
| "good_event (HandleNext env) = (good_fin (evRotateBefore env) \<and> good_fin (evRotateAfter env) \<and>
     \<not> flt_cancelled (evStartDiscard env) \<and> \<not> flt_remove (evStartDiscard env) \<and>
     \<not> flt_cancelled (evDiscard env) \<and> \<not> flt_remove (evDiscard env))"
| "good_event (Tick now out env) = good_fin env"
| "good_event (RecDone env) = good_fin env"

context segment_store
begin

definition temps_bound :: "string set \<Rightarrow> 's recorder \<Rightarrow> bool" where
  "temps_bound T r \<longleftrightarrow> (case rSeg r of
     None \<Rightarrow> temps (rStore r) \<subseteq> T
   | Some a \<Rightarrow> ok_pending (asPending a) \<and> temps (rStore r) \<subseteq> insert (snd (pTmp (asPending a))) T)"

lemma temps_bound_cong:
  "rSeg r' = rSeg r \<Longrightarrow> rStore r' = rStore r \<Longrightarrow> temps_bound T r' = temps_bound T r"
  by (simp add: temps_bound_def split: option.split)

lemma temps_bound_upd [simp]:
  "temps_bound T (r\<lparr>rMetrics := m\<rparr>) = temps_bound T r"
  "temps_bound T (r\<lparr>rNextKeepAt := t\<rparr>) = temps_bound T r"
  "temps_bound T (r\<lparr>rLastFrameAt := t\<rparr>) = temps_bound T r"
  by (rule temps_bound_cong; simp)+

lemma bound_output: "temps_bound T r \<Longrightarrow> temps_bound T (encoder_output st out r)"
  by (auto simp: temps_bound_def encoder_output_def split: option.splits prod.splits dest!: write_temps)

lemma bound_finish:
  assumes b: "temps_bound T r" and g: "good_fin env"
  shows "temps (rStore (finishSegment st cfg cid env (rSeg r) r)) \<subseteq> T"
proof (cases "rSeg r")
  case None
  with b show ?thesis by (simp add: temps_bound_def finishSegment_def)
next
  case (Some a)
  obtain p s1 where w: "sWrite st (snd (feClose env)) (asPending a) (rStore r) = (p, s1)" by fastforce
  from b Some have ok: "ok_pending (asPending a)" "temps (rStore r) \<subseteq> insert (snd (pTmp (asPending a))) T"
    by (simp_all add: temps_bound_def)
  from write_temps [OF w ok(1)] ok have p: "ok_pending p" "temps s1 \<subseteq> insert (snd (pTmp p)) T" by auto
  have ab: "temps (snd (sDiscard st (feAbort env) p s)) \<subseteq> T" if "temps s \<subseteq> insert (snd (pTmp p)) T" for s
    using discard_temps [of "feAbort env" p s, OF surjective_pairing p(1)] g that by (auto simp: good_fin_def)
  obtain res s2 where c: "sComplete st (feComplete env) p (asLastRecorded a) s1 = (res, s2)" by fastforce
  show ?thesis
  proof (cases res)
    case (Inl e)
    from complete_temps [OF c p(1)] p(2) have "temps s2 \<subseteq> insert (snd (pTmp p)) T" by auto
    with ab w c Inl p(2) Some show ?thesis by (simp add: finishSegment_def abortSegment_def Let_def)
  next
    case (Inr i)
    from complete_ok [OF c [unfolded Inr] p(1)] p(2) have "temps s2 \<subseteq> T" by auto
    moreover have "temps (snd (sPrune st (fePrune env) cid (cKeepFilesPerCamera cfg) s2)) = temps s2"
      by (rule prune_temps [OF surjective_pairing])
    ultimately show ?thesis
      using ab w c Inr p(2) Some by (simp add: finishSegment_def abortSegment_def Let_def)
  qed
qed

lemma bound_rotate: "temps_bound T r \<Longrightarrow> good_fin env \<Longrightarrow> temps_bound T (rotate_seg st cfg cid env r)"
  using bound_finish by (simp add: temps_bound_def rotate_seg_def)

lemma bound_discard:
  assumes "temps_bound T r" "rSeg r = Some a" "\<not> flt_cancelled flt" "\<not> flt_remove flt"
  shows "temps (rStore (discardSegment_rec st flt a r)) \<subseteq> T"
  using discard_temps [of flt "asPending a" "rStore r", OF surjective_pairing] assms
  by (auto simp: temps_bound_def discardSegment_rec_def)

lemma bound_open:
  assumes b: "temps_bound T r" "rSeg r = None" and g: "good_event (HandleNext env)"
    and e: "openSegment st cfg cid env ts r = (sg, r')"
  shows "temps_bound T (r'\<lparr>rSeg := sg\<rparr>) \<and> (sg = None \<longrightarrow> rSeg r' = None)"
proof -
  from b have t: "temps (rStore r) \<subseteq> T" by (simp add: temps_bound_def)
  obtain res s1 where s: "sBegin st (evBegin env) cid ts (cOutputFPS cfg) (cTimelapseFactor cfg) (rStore r) = (res, s1)"
    by fastforce
  show ?thesis
  proof (cases res)
    case (Inl x)
    from begin_err [OF s [unfolded Inl]] t b e s Inl show ?thesis
      by (auto simp: openSegment_def temps_bound_def)
  next
    case (Inr p)
    from begin_ok [OF s [unfolded Inr]] t have p: "ok_pending p" "temps s1 \<subseteq> insert (snd (pTmp p)) T" by auto
    with discard_temps [of "evStartDiscard env" p s1, OF surjective_pairing p(1)] g
    have d: "temps (snd (sDiscard st (evStartDiscard env) p s1)) \<subseteq> T" by auto
    from e s Inr p d b show ?thesis
      by (auto simp: openSegment_def temps_bound_def split: if_splits)
  qed
qed

lemma bound_write:
  assumes b: "temps_bound T r" and g: "good_event (HandleNext env)"
  shows "temps_bound T (write_frame st cfg cid env ts r)"
proof (cases "rSeg r")
  case None
  with b show ?thesis by (simp add: write_frame_def)
next
  case (Some a)
  let ?m = "r\<lparr>rMetrics := IncEncoderError (rMetrics r)\<rparr>"
  have "temps_bound T ?m" using b by simp
  from bound_discard [OF this, of a "evDiscard env"] Some g
  have d: "temps (rStore (discardSegment_rec st (evDiscard env) a ?m)) \<subseteq> T" by simp
  let ?o = "encoder_output st (snd (evWrite env)) r"
  let ?r = "?o\<lparr>rSeg := map_option (\<lambda>b. b\<lparr>asLastRecorded := ts\<rparr>) (rSeg ?o), rMetrics := IncFramesRecorded cid (rMetrics ?o)\<rparr>"
  have r: "temps_bound T ?r" using bound_output [OF b, of "snd (evWrite env)"]
    by (cases "rSeg ?o") (simp_all add: temps_bound_def)
  have r': "temps_bound T (rotate_seg st cfg cid (evRotateAfter env) ?r)" using bound_rotate [OF r] g by simp
  from d have "temps_bound T ((discardSegment_rec st (evDiscard env) a ?m)\<lparr>rSeg := None\<rparr>)"
    by (simp add: temps_bound_def)
  with r r' Some show ?thesis by (simp add: write_frame_def Let_def)
qed

lemma bound_keep:
  assumes b: "temps_bound T r1" and g: "good_event (HandleNext env)"
  shows "temps_bound T (keep_frame st cfg cid env ts r1)"
proof -
  define r2 where "r2 = (if shouldRotate cfg (rSeg r1) ts then rotate_seg st cfg cid (evRotateBefore env) r1 else r1)"
  have r2: "temps_bound T r2" using bound_rotate [OF b, of "evRotateBefore env"] b g by (simp add: r2_def)
  show ?thesis
  proof (cases "rSeg r2")
    case (Some a)
    with bound_write [OF r2 g] show ?thesis by (simp add: keep_frame_def flip: r2_def)
  next
    case None
    obtain sg r3 where o: "openSegment st cfg cid env ts r2 = (sg, r3)" by fastforce
    from bound_open [OF r2 None g o]
    have op: "temps_bound T (r3\<lparr>rSeg := sg\<rparr>)" "sg = None \<Longrightarrow> rSeg r3 = None" by auto
    show ?thesis
    proof (cases sg)
      case (Some a)
      with None o bound_write [OF op(1) g] show ?thesis by (simp add: keep_frame_def flip: r2_def)
    next
      case sg: None
      with op have "temps_bound T r3" by (simp add: temps_bound_def)
      with None o sg show ?thesis by (simp add: keep_frame_def flip: r2_def)
    qed
  qed
qed

lemma bound_handle:
  assumes b: "temps_bound T r0" and g: "good_event (HandleNext env)"
    and h: "handleFrame st cfg cid env f r0 = Some r'"
  shows "temps_bound T r'"
  using h bound_output [OF b, of "evArrived env"] g
  by (cases rule: handleFrame_cases) (simp_all add: bound_keep)

lemma bound_step:
  assumes "camera_step st cfg cid e c = Some c'" "good_event e"
    and "if cRunning c then temps_bound T (cLoop c) else temps (rStore (cLoop c)) \<subseteq> T"
  shows "if cRunning c' then temps_bound T (cLoop c') else temps (rStore (cLoop c')) \<subseteq> T"
  using assms
proof (cases e)
  case (SubmitFrame f)
  with assms show ?thesis
    by (auto simp: cam_Submit_def Let_def temps_bound_def split: option.splits if_splits)
next
  case (HandleNext env)
  with assms bound_handle [of T "cLoop c" env cfg cid] show ?thesis
    by (auto split: if_splits list.splits)
next
  case (Tick now out env)
  with assms bound_output [of T "cLoop c" out] bound_rotate [of T _ env] show ?thesis
    by (auto simp: tick_def Let_def split: if_splits)
next
  case (RecDone env)
  show ?thesis
  proof (cases "cRunning c")
    case True
    with assms RecDone have "temps_bound T (cLoop c)" "good_fin env"
      "c' = c\<lparr>cLoop := finishSegment st cfg cid env (rSeg (cLoop c)) (cLoop c), cRunning := False\<rparr>" by simp_all
    with bound_finish show ?thesis by simp
  qed (use assms RecDone in simp)
qed

lemma bound_run:
  assumes "camera_run st cfg cid es (newCamera cfg m s) = Some c'" "\<forall>e\<in>set es. good_event e" "\<not> cRunning c'"
  shows "temps (rStore (cLoop c')) \<subseteq> temps s"
proof -
  have "if cRunning c' then temps_bound (temps s) (cLoop c') else temps (rStore (cLoop c')) \<subseteq> temps s"
    using assms(1)
  proof (rule camera_run_inv)
    show "if cRunning (newCamera cfg m s) then temps_bound (temps s) (cLoop (newCamera cfg m s))
        else temps (rStore (cLoop (newCamera cfg m s))) \<subseteq> temps s"
      by (simp add: newCamera_def temps_bound_def)
  qed (use assms(2) bound_step in blast)
  with assms(3) show ?thesis by simp
qed

end

end
