(* ===== verification/Recorder_Loop.thy ===== *)
theory Recorder_Loop
  imports Recorder_Camera
begin

section \<open>Recording sessions and what the recording loop guarantees\<close>

text \<open>
  The invariant of one camera's loop (its counters account for every frame, the gauge of running encoders
  matches the open segment, an open segment stays within its time limit) and the properties of the
  recorder: decimation, termination of \<open>handleFrame\<close>, temporary files.
\<close>

subsection \<open>Counters and the open segment: lemmas\<close>

lemma ensure_upd [simp]: "ensureCamera c (upd_camera c f m) = f (ensureCamera c m)"
  by (simp add: ensureCamera_def upd_camera_def update_conv')

lemma upd_camera_sel [simp]:
  "activeEncoders (upd_camera c f m) = activeEncoders m"
  "encoderErrors (upd_camera c f m) = encoderErrors m"
  by (simp_all add: upd_camera_def)

lemma ensure_other [simp]:
  "ensureCamera c (m\<lparr>activeEncoders := a\<rparr>) = ensureCamera c m"
  "ensureCamera c (m\<lparr>encoderErrors := e\<rparr>) = ensureCamera c m"
  "ensureCamera c (m\<lparr>segmentsDone := d\<rparr>) = ensureCamera c m"
  by (simp_all add: ensureCamera_def)

lemmas inc_defs = IncFramesReceived_def IncFramesRecorded_def IncFramesDropped_def IncSegmentCompleted_def
  IncEncoderError_def IncActiveEncoders_def DecActiveEncoders_def

definition received :: "string \<Rightarrow> 's recorder \<Rightarrow> int" where
  "received cid r = framesReceived (ensureCamera cid (rMetrics r))"

definition handled :: "string \<Rightarrow> 's recorder \<Rightarrow> int" where
  "handled cid r = framesRecorded (ensureCamera cid (rMetrics r)) + framesDropped (ensureCamera cid (rMetrics r))"

lemmas count_defs = received_def handled_def inc_defs

definition seg_gauge :: "'s recorder \<Rightarrow> bool" where
  "seg_gauge r \<longleftrightarrow> activeEncoders (rMetrics r) = (if rSeg r = None then 0 else 1)"

definition seg_span :: "cam_cfg \<Rightarrow> 's recorder \<Rightarrow> bool" where
  "seg_span cfg r \<longleftrightarrow> (\<forall>a. rSeg r = Some a \<longrightarrow> time_sub (asLastRecorded a) (asStartedAt a) < cSegmentRawDuration cfg)"

text \<open>\<open>takes cid n r r'\<close>: going from \<open>r\<close> to \<open>r'\<close> took \<open>n\<close> frames from the queue, of which each was recorded,
  counted as dropped, or lost with an encoder error counted.\<close>

definition takes :: "string \<Rightarrow> int \<Rightarrow> 's recorder \<Rightarrow> 's recorder \<Rightarrow> bool" where
  "takes cid n r r' \<longleftrightarrow> received cid r' = received cid r \<and>
     handled cid r' \<le> handled cid r + n \<and>
     handled cid r + n - handled cid r' \<le> encoderErrors (rMetrics r') - encoderErrors (rMetrics r)"

lemma takes_trans: "takes cid m r r1 \<Longrightarrow> takes cid n r1 r2 \<Longrightarrow> takes cid (m + n) r r2"
  by (simp add: takes_def)

lemma takes_refl [simp]: "takes cid 0 r r"
  by (simp add: takes_def)

lemma takes_cong:
  "rMetrics r = rMetrics s \<Longrightarrow> rMetrics r' = rMetrics s' \<Longrightarrow> takes cid n r r' = takes cid n s s'"
  by (simp add: takes_def received_def handled_def)

lemma output_same [simp]:
  "rMetrics (encoder_output st out r) = rMetrics r"
  "(rSeg (encoder_output st out r) = None) = (rSeg r = None)"
  by (simp_all add: encoder_output_def split: option.split prod.split)

lemma output_span: "seg_span cfg r \<Longrightarrow> seg_span cfg (encoder_output st out r)"
  by (auto simp: seg_span_def encoder_output_def split: option.splits prod.splits)

lemma finish_takes: "takes cid 0 r (finishSegment st cfg cid env seg r)"
  by (auto simp: finishSegment_def abortSegment_def takes_def count_defs Let_def split: option.split prod.split sum.split)

lemma finish_active:
  "activeEncoders (rMetrics (finishSegment st cfg cid env seg r)) =
     activeEncoders (rMetrics r) - (if seg = None then 0 else 1)"
  by (auto simp: finishSegment_def abortSegment_def inc_defs Let_def split: option.split prod.split sum.split)

lemma rotate_takes: "takes cid 0 r (rotate_seg st cfg cid env r)"
  using finish_takes [of cid r st cfg env "rSeg r"] by (simp add: rotate_seg_def takes_def received_def handled_def)

lemma rotate_gauge: "seg_gauge r \<Longrightarrow> seg_gauge (rotate_seg st cfg cid env r)"
  by (simp add: seg_gauge_def rotate_seg_def finish_active)

lemma rotate_seg_None [simp]: "rSeg (rotate_seg st cfg cid env r) = None"
  by (simp add: rotate_seg_def)

lemma write_takes: "rSeg r \<noteq> None \<Longrightarrow> takes cid 1 r (write_frame st cfg cid env ts r)"
proof -
  assume "rSeg r \<noteq> None"
  then obtain a where a: "rSeg r = Some a" by blast
  let ?o = "encoder_output st (snd (evWrite env)) r"
  let ?r = "?o\<lparr>rSeg := map_option (\<lambda>b. b\<lparr>asLastRecorded := ts\<rparr>) (rSeg ?o), rMetrics := IncFramesRecorded cid (rMetrics ?o)\<rparr>"
  have "takes cid 1 r ?r" by (simp add: takes_def count_defs)
  with takes_trans [OF this rotate_takes [of cid ?r st cfg "evRotateAfter env"]] a
  show ?thesis
    by (simp add: write_frame_def Let_def) (simp add: takes_def discardSegment_rec_def count_defs)
qed

lemma write_gauge: "seg_gauge r \<Longrightarrow> rSeg r \<noteq> None \<Longrightarrow> seg_gauge (write_frame st cfg cid env ts r)"
  by (auto simp: write_frame_def Let_def intro!: rotate_gauge)
     (auto simp: seg_gauge_def discardSegment_rec_def inc_defs)

lemma write_span:
  assumes "seg_span cfg r"
  shows "seg_span cfg (write_frame st cfg cid env ts r)"
  using assms
  by (auto simp: write_frame_def Let_def seg_span_def shouldRotate_def split: option.splits if_splits)

lemma open_takes:
  "openSegment st cfg cid env ts r = (sg, r') \<Longrightarrow> takes cid 0 r r' \<and>
     activeEncoders (rMetrics r') = activeEncoders (rMetrics r) + (if sg = None then 0 else 1) \<and>
     rSeg r' = rSeg r \<and> (\<forall>a. sg = Some a \<longrightarrow> asLastRecorded a = asStartedAt a)"
  by (auto simp: openSegment_def takes_def count_defs split: prod.splits sum.splits if_splits)

lemma keep_inv:
  assumes "seg_gauge r1" "seg_span cfg r1" and d: "0 < cSegmentRawDuration cfg"
    and r'_def: "r' = keep_frame st cfg cid env ts r1"
  shows "takes cid 1 r1 r' \<and> seg_gauge r' \<and> seg_span cfg r'"
proof -
  define r2 where "r2 = (if shouldRotate cfg (rSeg r1) ts then rotate_seg st cfg cid (evRotateBefore env) r1 else r1)"
  have t2: "takes cid 0 r1 r2" by (simp add: r2_def rotate_takes)
  have g2: "seg_gauge r2" using assms(1) by (simp add: r2_def rotate_gauge)
  have s2: "seg_span cfg r2" using assms(2) by (simp add: r2_def) (simp add: seg_span_def)
  show ?thesis
  proof (cases "rSeg r2")
    case (Some a)
    then have r': "r' = write_frame st cfg cid env ts r2" by (simp add: r'_def keep_frame_def flip: r2_def)
    with Some takes_trans [OF t2 write_takes] write_gauge [OF g2] write_span [OF s2] show ?thesis by simp
  next
    case None
    obtain sg r3 where o: "openSegment st cfg cid env ts r2 = (sg, r3)" by fastforce
    note op = open_takes [OF o]
    show ?thesis
    proof (cases sg)
      case sg: None
      with None o have r': "r' = r3\<lparr>rMetrics := IncEncoderError (rMetrics r3)\<rparr>" by (simp add: r'_def keep_frame_def flip: r2_def)
      have "takes cid 1 r3 r'" by (simp add: r' takes_def count_defs)
      with takes_trans [OF takes_trans [OF t2], of 0 r3 1 r'] op g2 sg None show ?thesis
        by (simp add: r' seg_gauge_def seg_span_def inc_defs)
    next
      case (Some a)
      let ?r = "r3\<lparr>rSeg := Some a\<rparr>"
      from None o Some have r': "r' = write_frame st cfg cid env ts ?r" by (simp add: r'_def keep_frame_def flip: r2_def)
      have t: "takes cid 0 r1 ?r" using takes_trans [OF t2, of 0 r3] op by (simp add: takes_def received_def handled_def)
      have g: "seg_gauge ?r" using op g2 Some None by (simp add: seg_gauge_def)
      have s: "seg_span cfg ?r" using op Some d by (simp add: seg_span_def time_sub_def)
      from takes_trans [OF t write_takes, of st cfg env ts] write_gauge [OF g] write_span [OF s] show ?thesis
        by (simp add: r')
    qed
  qed
qed

lemma handle_inv:
  assumes h: "handleFrame st cfg cid env f r = Some r'"
    and i: "seg_gauge r" "seg_span cfg r" "0 < cSegmentRawDuration cfg"
  shows "takes cid 1 r r' \<and> seg_gauge r' \<and> seg_span cfg r'"
proof -
  let ?e = "encoder_output st (evArrived env) r"
  have e: "seg_gauge ?e" "seg_span cfg ?e" using i output_span by (simp_all add: seg_gauge_def)
  from h show ?thesis
  proof (cases rule: handleFrame_cases)
    case (dropped nx)
    with e show ?thesis by (simp add: takes_def count_defs seg_gauge_def seg_span_def)
  next
    case (kept nx)
    let ?k = "?e\<lparr>rLastFrameAt := frame_time env f, rNextKeepAt := nx\<rparr>"
    have "seg_gauge ?k" "seg_span cfg ?k" using e by (simp_all add: seg_gauge_def seg_span_def)
    from keep_inv [OF this i(3) kept(2)] show ?thesis
      by (simp add: takes_def received_def handled_def)
  qed
qed

definition camera_inv :: "cam_cfg \<Rightarrow> string \<Rightarrow> 's camera \<Rightarrow> bool" where
  "camera_inv cfg cid c \<longleftrightarrow> chan_ok (cQueue c) \<and> ccap (cQueue c) = cQueueSize cfg \<and>
     handled cid (cLoop c) + int (length (cbuf (cQueue c))) \<le> received cid (cLoop c) \<and>
     received cid (cLoop c) \<le> handled cid (cLoop c) + int (length (cbuf (cQueue c))) + encoderErrors (rMetrics (cLoop c)) \<and>
     (if cRunning c then seg_gauge (cLoop c) \<and> seg_span cfg (cLoop c) else activeEncoders (rMetrics (cLoop c)) = 0)"

lemma takes_inv:
  assumes "takes cid 0 (cLoop c) r" "camera_inv cfg cid c"
    "if run then seg_gauge r \<and> seg_span cfg r else activeEncoders (rMetrics r) = 0"
  shows "camera_inv cfg cid (c\<lparr>cLoop := r, cRunning := run\<rparr>)"
  using assms by (auto simp: camera_inv_def takes_def)

lemma camera_step_inv:
  assumes s: "camera_step st cfg cid e c = Some c'" and i: "camera_inv cfg cid c" and d: "0 < cSegmentRawDuration cfg"
  shows "camera_inv cfg cid c'"
proof (cases e)
  case (SubmitFrame f)
  from i have q: "chan_ok (cQueue c)" by (simp add: camera_inv_def)
  from s SubmitFrame i show ?thesis
    by (auto simp: cam_Submit_def Let_def Send_chan_ok [OF q] camera_inv_def count_defs Lost_def lastn_def chan_ok_def
        seg_gauge_def seg_span_def split: if_splits)
next
  case (HandleNext env)
  show ?thesis
  proof (cases "cRunning c \<and> cbuf (cQueue c) \<noteq> []")
    case False
    with s HandleNext i show ?thesis by (auto split: list.splits if_splits)
  next
    case True
    then obtain f fs where q: "cbuf (cQueue c) = f # fs" by (cases "cbuf (cQueue c)") auto
    with s HandleNext True obtain r where r: "handleFrame st cfg cid env f (cLoop c) = Some r"
      "c' = c\<lparr>cLoop := r, cQueue := (cQueue c)\<lparr>cbuf := fs\<rparr>\<rparr>" by auto
    from handle_inv [OF r(1) _ _ d] i True q show ?thesis
      by (auto simp: camera_inv_def r(2) takes_def chan_ok_def)
  qed
next
  case (Tick now out env)
  show ?thesis
  proof (cases "cRunning c")
    case False
    with s Tick i show ?thesis by simp
  next
    case True
    let ?e = "encoder_output st out (cLoop c)"
    from i True have e: "seg_gauge ?e" "seg_span cfg ?e" using output_span
      by (auto simp: camera_inv_def seg_gauge_def)
    have te: "takes cid 0 (cLoop c) ?e" by (simp add: takes_def received_def handled_def)
    have "takes cid 0 (cLoop c) (tick st cfg cid now out env (cLoop c))"
      using takes_trans [OF te rotate_takes [of cid ?e st cfg env]] te by (simp add: tick_def Let_def)
    moreover have "seg_gauge (tick st cfg cid now out env (cLoop c)) \<and> seg_span cfg (tick st cfg cid now out env (cLoop c))"
      using e rotate_gauge [OF e(1), of st cfg cid env] by (simp add: tick_def Let_def) (simp add: seg_span_def)
    ultimately have "camera_inv cfg cid (c\<lparr>cLoop := tick st cfg cid now out env (cLoop c), cRunning := True\<rparr>)"
      by (intro takes_inv i) simp_all
    with s Tick True show ?thesis by (cases c) simp
  qed
next
  case (RecDone env)
  show ?thesis
  proof (cases "cRunning c")
    case False
    with s RecDone i show ?thesis by simp
  next
    case True
    with i have "activeEncoders (rMetrics (finishSegment st cfg cid env (rSeg (cLoop c)) (cLoop c))) = 0"
      by (simp add: camera_inv_def seg_gauge_def finish_active)
    with s RecDone True show ?thesis using takes_inv [OF finish_takes i, of False] by auto
  qed
qed

lemma newCamera_inv: "0 < cQueueSize cfg \<Longrightarrow> camera_inv cfg cid (newCamera cfg metrics_New s)"
  by (simp add: camera_inv_def newCamera_def chan_ok_make seg_gauge_def seg_span_def received_def handled_def
      metrics_New_def ensureCamera_def)

subsection \<open>Sessions\<close>

text \<open>All cameras of the process share the store and the metrics; the rest of a camera's state is its own.
  \<open>with_camera\<close> runs a camera operation on the shared state. The cameras are listed in the order of their
  first frame.\<close>

record cam_private =
  pvSeg :: "active_seg option"
  pvNextKeepAt :: gotime
  pvLastFrameAt :: gotime
  pvQueue :: "sframe chan"
  pvRunning :: bool

record 's sessions =
  smCameras :: "(camera_id \<times> cam_private) list"
  smMetrics :: rec_metrics
  smStore :: 's

definition NewSessions :: "rec_metrics \<Rightarrow> 's \<Rightarrow> 's sessions" where
  "NewSessions m s = \<lparr>smCameras = [], smMetrics = m, smStore = s\<rparr>"

definition attach :: "cam_private \<Rightarrow> 's sessions \<Rightarrow> 's camera" where
  "attach p s = \<lparr>cLoop = \<lparr>rSeg = pvSeg p, rNextKeepAt = pvNextKeepAt p, rLastFrameAt = pvLastFrameAt p,
     rMetrics = smMetrics s, rStore = smStore s\<rparr>, cQueue = pvQueue p, cRunning = pvRunning p\<rparr>"

definition detach :: "'s camera \<Rightarrow> cam_private" where
  "detach c = \<lparr>pvSeg = rSeg (cLoop c), pvNextKeepAt = rNextKeepAt (cLoop c), pvLastFrameAt = rLastFrameAt (cLoop c),
     pvQueue = cQueue c, pvRunning = cRunning c\<rparr>"

definition with_camera :: "camera_id \<Rightarrow> ('s camera \<Rightarrow> 's camera option) \<Rightarrow> 's sessions \<Rightarrow> 's sessions option" where
  "with_camera cid op s =
     (case map_of (smCameras s) cid of
        None \<Rightarrow> Some s
      | Some p \<Rightarrow>
          map_option (\<lambda>c. \<lparr>smCameras = AList.update cid (detach c) (smCameras s),
                           smMetrics = rMetrics (cLoop c), smStore = rStore (cLoop c)\<rparr>) (op (attach p s)))"

definition sess_camera :: "cam_cfg \<Rightarrow> camera_id \<Rightarrow> 's sessions \<Rightarrow> 's sessions" where
  "sess_camera cfg cid s =
     (case map_of (smCameras s) cid of
        Some p \<Rightarrow> s
      | None \<Rightarrow> s\<lparr>smCameras := smCameras s @ [(cid, detach (newCamera cfg (smMetrics s) (smStore s)))]\<rparr>)"

definition sess_Submit :: "cam_cfg \<Rightarrow> sframe \<Rightarrow> 's sessions \<Rightarrow> 's sessions option" where
  "sess_Submit cfg f s =
     with_camera (fCameraID f) (cam_Submit (CameraID_String (fCameraID f)) f) (sess_camera cfg (fCameraID f) s)"

definition sess_event :: "'s store_ops \<Rightarrow> cam_cfg \<Rightarrow> camera_id \<Rightarrow> rec_event \<Rightarrow> 's sessions \<Rightarrow> 's sessions option" where
  "sess_event st cfg cid ev s = with_camera cid (camera_step st cfg (CameraID_String cid) ev) s"

definition ActiveCameraIDs :: "'s sessions \<Rightarrow> string list" where
  "ActiveCameraIDs s = sort (map (\<lambda>(cid, p). CameraID_String cid) (smCameras s))"

text \<open>\<open>Close\<close> cancels the cameras one after the other and waits for each; \<open>env\<close> is what closing the segment
  of each camera meets.\<close>

fun close_cameras :: "'s store_ops \<Rightarrow> cam_cfg \<Rightarrow> (camera_id \<Rightarrow> fin_env) \<Rightarrow> camera_id list \<Rightarrow> 's sessions \<Rightarrow> 's sessions option" where
  "close_cameras st cfg env [] s = Some s"
| "close_cameras st cfg env (cid # cids) s =
     (case sess_event st cfg cid (RecDone (env cid)) s of
        None \<Rightarrow> None | Some s' \<Rightarrow> close_cameras st cfg env cids s')"

definition sess_Close :: "'s store_ops \<Rightarrow> cam_cfg \<Rightarrow> (camera_id \<Rightarrow> fin_env) \<Rightarrow> 's sessions \<Rightarrow> 's sessions option" where
  "sess_Close st cfg env s = close_cameras st cfg env (map fst (smCameras s)) s"

fun submit_all :: "cam_cfg \<Rightarrow> sframe list \<Rightarrow> 's sessions \<Rightarrow> 's sessions option" where
  "submit_all cfg [] s = Some s"
| "submit_all cfg (f # fs) s =
     (case sess_Submit cfg f s of None \<Rightarrow> None | Some s' \<Rightarrow> submit_all cfg fs s')"

lemma CameraID_String_eq [simp]: "CameraID_String a = CameraID_String b \<longleftrightarrow> a = b"
  by (metis CameraID_String_def format_uint_inj word_unat_eq_iff)

lemma pv_upd: "\<lparr>pvSeg = pvSeg p, pvNextKeepAt = pvNextKeepAt p, pvLastFrameAt = pvLastFrameAt p, pvQueue = q,
     pvRunning = pvRunning p\<rparr> = p\<lparr>pvQueue := q\<rparr>"
  by (cases p) simp

lemma upd_camera_other [simp]: "c \<noteq> d \<Longrightarrow> ensureCamera c (upd_camera d f m) = ensureCamera c m"
  by (simp add: ensureCamera_def upd_camera_def update_conv')

lemma ensure_New [simp]: "ensureCamera c metrics_New = \<lparr>framesReceived = 0, framesRecorded = 0, framesDropped = 0, camSegmentsDone = 0\<rparr>"
  by (simp add: ensureCamera_def metrics_New_def)

text \<open>What a burst of frames leaves in a camera's queue and counters.\<close>

definition burst_ok :: "cam_cfg \<Rightarrow> sframe list \<Rightarrow> camera_id \<Rightarrow> 's sessions \<Rightarrow> bool" where
  "burst_ok cfg fs cid s \<longleftrightarrow>
     (let mine = filter (\<lambda>f. fCameraID f = cid) fs; q = lastn (cQueueSize cfg) mine;
          m = ensureCamera (CameraID_String cid) (smMetrics s)
      in map_option (cbuf \<circ> pvQueue) (map_of (smCameras s) cid) = (if mine = [] then None else Some q) \<and>
         framesReceived m = int (length mine) \<and> framesDropped m = int (length mine) - int (length q))"

definition sess_ok :: "cam_cfg \<Rightarrow> 's sessions \<Rightarrow> bool" where
  "sess_ok cfg s \<longleftrightarrow> distinct (map fst (smCameras s)) \<and>
     (\<forall>(cid, p) \<in> set (smCameras s). chan_ok (pvQueue p) \<and> ccap (pvQueue p) = cQueueSize cfg)"

lemma sess_camera_ok:
  assumes "sess_ok cfg s" "0 < cQueueSize cfg"
  shows "sess_ok cfg (sess_camera cfg cid s) \<and> smMetrics (sess_camera cfg cid s) = smMetrics s \<and>
    (\<exists>p. map_of (smCameras (sess_camera cfg cid s)) cid = Some p \<and> chan_ok (pvQueue p) \<and> ccap (pvQueue p) = cQueueSize cfg \<and>
      cbuf (pvQueue p) = (case map_of (smCameras s) cid of None \<Rightarrow> [] | Some q \<Rightarrow> cbuf (pvQueue q))) \<and>
    (\<forall>d. d \<noteq> cid \<longrightarrow> map_of (smCameras (sess_camera cfg cid s)) d = map_of (smCameras s) d)"
proof (cases "map_of (smCameras s) cid")
  case (Some p)
  with assms map_of_SomeD [OF Some] show ?thesis by (auto simp: sess_camera_def sess_ok_def)
next
  case None
  let ?p = "detach (newCamera cfg (smMetrics s) (smStore s))"
  have p: "pvQueue ?p = make_chan (cQueueSize cfg)" by (simp add: detach_def newCamera_def)
  from None have e: "sess_camera cfg cid s = s\<lparr>smCameras := smCameras s @ [(cid, ?p)]\<rparr>" by (simp add: sess_camera_def)
  from None have n: "cid \<notin> fst ` set (smCameras s)" by (simp add: map_of_eq_None_iff)
  with assms have "sess_ok cfg (sess_camera cfg cid s)" by (simp add: e sess_ok_def p chan_ok_make)
  with None assms show ?thesis by (simp add: e p chan_ok_make map_add_def split: option.split)
qed

lemma set_alist_update: "set (AList.update k v al) \<subseteq> insert (k, v) (set al)"
  by (induction al) auto

lemma submit_step:
  assumes s: "sess_ok cfg s" "0 < cQueueSize cfg" and b: "\<And>cid. burst_ok cfg fs cid s"
  shows "\<exists>s'. sess_Submit cfg f s = Some s' \<and> sess_ok cfg s' \<and> (\<forall>cid. burst_ok cfg (fs @ [f]) cid s')"
proof -
  let ?c = "fCameraID f" and ?n = "cQueueSize cfg" and ?s1 = "sess_camera cfg (fCameraID f) s"
  from sess_camera_ok [OF s, of ?c] obtain p where
    ok: "sess_ok cfg ?s1" "smMetrics ?s1 = smMetrics s" and
    p: "map_of (smCameras ?s1) ?c = Some p" "chan_ok (pvQueue p)" "ccap (pvQueue p) = ?n"
      "cbuf (pvQueue p) = (case map_of (smCameras s) ?c of None \<Rightarrow> [] | Some q \<Rightarrow> cbuf (pvQueue q))" and
    oth: "\<And>d. d \<noteq> ?c \<Longrightarrow> map_of (smCameras ?s1) d = map_of (smCameras s) d" by blast
  let ?mine = "filter (\<lambda>g. fCameraID g = ?c) fs"
  have q: "cbuf (pvQueue p) = lastn ?n ?mine"
    using b [of ?c] p(4) by (auto simp: burst_ok_def Let_def lastn_def split: option.splits if_splits)
  define q' where "q' = (pvQueue p)\<lparr>cbuf := lastn ?n (?mine @ [f])\<rparr>"
  define m' where "m' = (let m = IncFramesReceived (CameraID_String ?c) (smMetrics s)
    in if length (lastn ?n ?mine) < ?n then m else IncFramesDropped (CameraID_String ?c) m)"
  define s' where "s' = \<lparr>smCameras = AList.update ?c (p\<lparr>pvQueue := q'\<rparr>) (smCameras ?s1), smMetrics = m', smStore = smStore ?s1\<rparr>"
  have "sess_Submit cfg f s = Some s'"
    using p(1-3) ok(2) q
    by (simp add: sess_Submit_def with_camera_def cam_Submit_def Send_chan_ok attach_def detach_def Let_def Lost_def
        s'_def m'_def q'_def lastn_snoc_lastn pv_upd)
  moreover have "sess_ok cfg s'"
  proof -
    have "chan_ok q'" "ccap q' = ?n" using chan_ok_Send [OF p(2), of f] p(3) q by (simp_all add: q'_def lastn_snoc_lastn)
    with ok(1) show ?thesis
      using set_alist_update [of ?c "p\<lparr>pvQueue := q'\<rparr>" "smCameras ?s1"]
      by (fastforce simp: sess_ok_def s'_def distinct_update)
  qed
  moreover have "burst_ok cfg (fs @ [f]) cid s'" for cid
  proof (cases "cid = ?c")
    case True
    with b [of ?c] show ?thesis
      by (auto simp: burst_ok_def Let_def s'_def update_conv' q'_def m'_def inc_defs lastn_def)
  next
    case False
    with b [of cid] oth [of cid] show ?thesis
      by (simp add: burst_ok_def Let_def s'_def update_conv' m'_def inc_defs)
  qed
  ultimately show ?thesis by blast
qed

lemma submit_all_burst:
  assumes "sess_ok cfg s" "0 < cQueueSize cfg" "\<And>cid. burst_ok cfg gs cid s"
  shows "\<exists>s'. submit_all cfg fs s = Some s' \<and> sess_ok cfg s' \<and> (\<forall>cid. burst_ok cfg (gs @ fs) cid s')"
  using assms
proof (induction fs arbitrary: s gs)
  case (Cons f fs)
  from submit_step [OF Cons.prems, of f] obtain s1 where
    "sess_Submit cfg f s = Some s1" "sess_ok cfg s1" "\<And>cid. burst_ok cfg (gs @ [f]) cid s1" by blast
  with Cons.IH [of s1 "gs @ [f]"] Cons.prems(2) show ?case by simp
qed simp

subsection \<open>The loop returns\<close>

lemma advance_stuck: "advance i nx ts = None \<longleftrightarrow> i \<le> 0 \<and> nx \<le> ts"
proof -
  have "advance i nx ts \<noteq> None" if "ts < nx" using that by (subst advance.simps) simp
  moreover have "advance i nx ts \<noteq> None" if "0 < i" using that by (simp add: advance_reaches)
  moreover have "0 < i \<or> ts < nx" if "advance i nx ts \<noteq> None" using that advance_result by blast
  ultimately show ?thesis by (meson not_less)
qed

lemma shouldKeep_stuck: "shouldKeep ts nx i = None \<longleftrightarrow> nx \<noteq> zero_time \<and> nx \<le> ts \<and> i \<le> 0"
  by (auto simp: shouldKeep_def advance_stuck)

lemma handle_stuck:
  "handleFrame st cfg cid env f r = None \<longleftrightarrow>
     LooksLikeJPEG (fPayload f) \<and> rNextKeepAt r \<noteq> zero_time \<and> rNextKeepAt r \<le> frame_time env f \<and> keepEvery cfg \<le> 0"
proof -
  have nk: "rNextKeepAt (encoder_output st out r) = rNextKeepAt r" for out
    by (simp add: encoder_output_def split: option.split prod.split)
  have "handleFrame st cfg cid env f r = None \<longleftrightarrow>
      LooksLikeJPEG (fPayload f) \<and> shouldKeep (frame_time env f) (rNextKeepAt r) (keepEvery cfg) = None"
    by (simp add: handleFrame_def Let_def nk split: option.split bool.split prod.split)
  then show ?thesis by (simp add: shouldKeep_stuck)
qed

lemma step_returns:
  assumes "0 < keepEvery cfg" "camera_inv cfg cid c"
  shows "\<exists>c'. camera_step st cfg cid e c = Some c'"
proof (cases e)
  case (SubmitFrame f)
  with assms(2) Send_chan_ok [of "cQueue c" f] show ?thesis by (simp add: camera_inv_def cam_Submit_def Let_def)
next
  case (HandleNext env)
  have "\<exists>r. handleFrame st cfg cid env f (cLoop c) = Some r" for f
    using handle_stuck [of st cfg cid env f "cLoop c"] assms(1) by (cases "handleFrame st cfg cid env f (cLoop c)") auto
  with HandleNext show ?thesis by (cases "cbuf (cQueue c)") auto
qed simp_all

lemma run_returns:
  assumes "0 < keepEvery cfg" "0 < cSegmentRawDuration cfg" "camera_inv cfg cid c"
  shows "\<exists>c'. camera_run st cfg cid es c = Some c' \<and> camera_inv cfg cid c'"
  using assms(3)
proof (induction es arbitrary: c)
  case (Cons e es)
  from step_returns [OF assms(1) Cons.prems, of st e] obtain d where d: "camera_step st cfg cid e c = Some d" by blast
  from Cons.IH [OF camera_step_inv [OF d Cons.prems assms(2)]] d show ?case by simp
qed simp

lemma step_stops: "camera_step st cfg cid e c = Some c' \<Longrightarrow> \<not> cRunning c \<or> (\<exists>env. e = RecDone env) \<Longrightarrow> \<not> cRunning c'"
  by (cases e) (auto simp: cam_Submit_def Let_def split: option.splits prod.splits if_splits list.splits)

lemma run_stops:
  "camera_run st cfg cid es c = Some c' \<Longrightarrow> \<not> cRunning c \<or> RecDone env \<in> set es \<Longrightarrow> \<not> cRunning c'"
proof (induction es arbitrary: c)
  case (Cons e es)
  then obtain d where d: "camera_step st cfg cid e c = Some d" "camera_run st cfg cid es d = Some c'"
    by (auto split: option.splits)
  from Cons.IH [OF d(2)] step_stops [OF d(1)] Cons.prems(2) show ?case by auto
qed simp

lemma run_accounts:
  assumes "camera_run st cfg cid es (newCamera cfg metrics_New s) = Some c"
    and "0 < cQueueSize cfg" "0 < cSegmentRawDuration cfg"
  shows "camera_inv cfg cid c"
  using camera_run_inv [OF assms(1), of "camera_inv cfg cid", OF newCamera_inv [OF assms(2)]]
    camera_step_inv [OF _ _ assms(3)] by blast

lemma no_temp_run:
  assumes "0 < keepEvery cfg" "0 < cQueueSize cfg" "0 < cSegmentRawDuration cfg"
    and "RecDone env \<in> set es" "\<forall>e\<in>set es. good_event e"
  shows "\<exists>c. camera_run (local_store stamp) cfg cid es (newCamera cfg metrics_New fs) = Some c \<and>
    \<not> cRunning c \<and> tmp_files (rStore (cLoop c)) \<subseteq> tmp_files fs"
proof -
  from run_returns [OF assms(1,3) newCamera_inv [OF assms(2)], of "local_store stamp" cid es fs] obtain c where
    c: "camera_run (local_store stamp) cfg cid es (newCamera cfg metrics_New fs) = Some c" by blast
  from run_stops [OF c] assms(4) have "\<not> cRunning c" by blast
  with local.bound_run [OF c assms(5)] c show ?thesis by blast
qed

subsection \<open>Properties\<close>

text \<open>C23: decimation: for frames in time order, a camera keeps exactly one frame of each interval of
  \<open>keepEvery\<close> (counted from its first frame) in which frames arrive, and no other.\<close>

theorem timelapse_keeps_one_per_slot:
  assumes "0 < keepEvery cfg" "zero_time < t" "sorted (t # ts)"
  shows "\<exists>ks. kept_times (keepEvery cfg) zero_time (t # ts) = Some (t # ks) \<and> subseq ks ts \<and>
    map (slot (keepEvery cfg) t) (t # ks) = remdups_adj (map (slot (keepEvery cfg) t) (t # ts))"
proof -
  have z: "slot (keepEvery cfg) t t = 0" by (simp add: slot_def)
  from kept_times_grid [OF assms(1,2) order.refl assms(3) z] obtain ks where
    "kept_times (keepEvery cfg) (t + keepEvery cfg) ts = Some ks" "subseq ks ts"
    "0 # map (slot (keepEvery cfg) t) ks = remdups_adj (0 # map (slot (keepEvery cfg) t) ts)" by auto
  with z show ?thesis by (simp add: shouldKeep_def)
qed

definition sample_cam_cfg :: cam_cfg where
  "sample_cam_cfg = \<lparr>cOutputFPS = 10, cTimelapseFactor = 10, cSegmentRawDuration = 600 * second,
     cMaxFileBytes = 1000, cKeepFilesPerCamera = 144, cQueueSize = 2, cInactiveClose = 30 * second\<rparr>"

lemma sample_keepEvery: "keepEvery sample_cam_cfg = second"
  by (simp add: keepEvery_def sample_cam_cfg_def second_def in_i64_def)

theorem timelapse_keeps_one_per_slot_witness:
  "\<exists>ks. kept_times second zero_time [5 * second, 5 * second + 1, 7 * second] = Some (5 * second # ks) \<and>
     map (slot second (5 * second)) (5 * second # ks) = [0, 2]"
proof -
  have "map (slot second (5 * second)) [5 * second, 5 * second + 1, 7 * second] = [0, 0, 2]"
    by (simp add: slot_def second_def)
  with timelapse_keeps_one_per_slot [of sample_cam_cfg "5 * second" "[5 * second + 1, 7 * second]", unfolded sample_keepEvery]
  show ?thesis by (auto simp: second_def zero_time_def)
qed



definition sample_fin :: fin_env where
  "sample_fin = \<lparr>feClose = (True, [9]), feWriterClose = True, feComplete = no_faults\<lparr>flt_rename := True\<rparr>,
     feAbort = no_faults, fePrune = no_faults\<rparr>"

definition sample_env :: frame_env where
  "sample_env = \<lparr>evNow = second, evArrived = [1, 2], evRotateBefore = sample_fin, evBegin = no_faults, evStart = True,
     evStartDiscard = no_faults, evWrite = (True, [3]), evDiscard = no_faults, evRotateAfter = sample_fin\<rparr>"

definition sample_jpeg :: sframe where
  "sample_jpeg = \<lparr>fTimestamp = 5 * second, fSequence = 1, fCameraID = 7, fPayload = [0xFF, 0xD8, 0xFF, 0xD9]\<rparr>"

definition sample_rec_events :: "rec_event list" where
  "sample_rec_events = [SubmitFrame sample_jpeg, HandleNext sample_env, SubmitFrame sample_jpeg, RecDone sample_fin]"

lemma sample_good: "\<forall>e\<in>set sample_rec_events. good_event e"
  by (simp add: sample_rec_events_def sample_env_def sample_fin_def good_fin_def no_faults_def)


text \<open>C7: accounting and segment limits, over every run of a camera: each received frame is recorded, counted as
  dropped, still queued, or covered by a counted encoder error; the encoder gauge is one exactly while a
  segment is open and zero after the goroutine returned; the queue respects its capacity; and an open
  segment covers less than \<open>SegmentRawDuration\<close>.\<close>

theorem recorder_accounts_for_frames:
  assumes "camera_run st cfg cid es (newCamera cfg metrics_New s) = Some c"
    and "0 < cQueueSize cfg" "0 < cSegmentRawDuration cfg"
  shows "let r = cLoop c; m = ensureCamera cid (rMetrics r); q = cbuf (cQueue c);
             accounted = framesRecorded m + framesDropped m + int (length q)
    in accounted \<le> framesReceived m \<and> framesReceived m \<le> accounted + encoderErrors (rMetrics r) \<and>
       length q \<le> cQueueSize cfg \<and>
       activeEncoders (rMetrics r) = (if cRunning c \<and> rSeg r \<noteq> None then 1 else 0) \<and>
       (if cRunning c
        then (case rSeg r of None \<Rightarrow> True
              | Some a \<Rightarrow> time_sub (asLastRecorded a) (asStartedAt a) < cSegmentRawDuration cfg) else True)"
  using run_accounts [OF assms]
  by (auto simp: camera_inv_def Let_def received_def handled_def chan_ok_def seg_gauge_def seg_span_def
      split: option.split)

theorem recorder_accounts_for_frames_witness:
  "\<exists>c. camera_run (local_store (\<lambda>t. ''T'')) sample_cam_cfg ''7'' sample_rec_events (newCamera sample_cam_cfg metrics_New sample_fs) =
     Some c \<and> framesReceived (ensureCamera ''7'' (rMetrics (cLoop c))) \<le>
       framesRecorded (ensureCamera ''7'' (rMetrics (cLoop c))) + framesDropped (ensureCamera ''7'' (rMetrics (cLoop c))) +
       int (length (cbuf (cQueue c))) + encoderErrors (rMetrics (cLoop c))"
proof -
  have c: "0 < keepEvery sample_cam_cfg" "0 < cSegmentRawDuration sample_cam_cfg" "0 < cQueueSize sample_cam_cfg"
    by (simp_all add: sample_keepEvery second_def) (simp_all add: sample_cam_cfg_def second_def)
  from run_returns [OF c(1,2) newCamera_inv [OF c(3)], of "local_store (\<lambda>t. ''T'')" "''7''" sample_rec_events sample_fs]
  obtain c' where r: "camera_run (local_store (\<lambda>t. ''T'')) sample_cam_cfg ''7'' sample_rec_events
      (newCamera sample_cam_cfg metrics_New sample_fs) = Some c'" by blast
  from recorder_accounts_for_frames [OF r c(3,2)] r show ?thesis by (auto simp: Let_def)
qed

text \<open>sessions: after a burst of frames from any cameras, before any recording goroutine runs, each camera
  that sent a frame has its newest \<open>QueueSizePerCamera\<close> frames queued, in order, its counters show what
  was received and what was displaced, and \<open>ActiveCameraIDs\<close> lists exactly these cameras, sorted, once each.\<close>

theorem sessions_route_frames:
  assumes "0 < cQueueSize cfg"
  shows "\<exists>s'. submit_all cfg fs (NewSessions metrics_New s) = Some s' \<and>
    (\<forall>cid. let mine = filter (\<lambda>f. fCameraID f = cid) fs; q = lastn (cQueueSize cfg) mine;
               m = ensureCamera (CameraID_String cid) (smMetrics s')
           in map_option (cbuf \<circ> pvQueue) (map_of (smCameras s') cid) = (if mine = [] then None else Some q) \<and>
              framesReceived m = int (length mine) \<and> framesDropped m = int (length mine - length q)) \<and>
    sorted (ActiveCameraIDs s') \<and> distinct (ActiveCameraIDs s') \<and>
    set (ActiveCameraIDs s') = CameraID_String ` fCameraID ` set fs"
proof -
  have i: "sess_ok cfg (NewSessions metrics_New s)" "\<And>cid. burst_ok cfg [] cid (NewSessions metrics_New s)"
    by (simp_all add: sess_ok_def NewSessions_def burst_ok_def lastn_def)
  from submit_all_burst [OF i(1) assms i(2), of fs] obtain s' where
    s': "submit_all cfg fs (NewSessions metrics_New s) = Some s'" "sess_ok cfg s'" "\<And>cid. burst_ok cfg fs cid s'" by auto
  have ids: "cid \<in> fst ` set (smCameras s') \<longleftrightarrow> cid \<in> fCameraID ` set fs" for cid
    using s'(3) [of cid] map_of_eq_None_iff [of "smCameras s'" cid]
    by (auto simp: burst_ok_def Let_def filter_empty_conv image_iff split: if_splits)
  have act: "ActiveCameraIDs s' = sort (map CameraID_String (map fst (smCameras s')))"
    by (simp add: ActiveCameraIDs_def case_prod_unfold comp_def)
  have "distinct (ActiveCameraIDs s')" using s'(2) by (simp add: act distinct_map inj_on_def sess_ok_def)
  moreover have "set (ActiveCameraIDs s') = CameraID_String ` fCameraID ` set fs"
    unfolding act set_sort set_map using ids by (metis (no_types, lifting) subset_antisym subsetI image_mono)
  moreover have "sorted (ActiveCameraIDs s')" by (simp add: act)
  moreover have "let mine = filter (\<lambda>f. fCameraID f = cid) fs; q = lastn (cQueueSize cfg) mine;
               m = ensureCamera (CameraID_String cid) (smMetrics s')
           in map_option (cbuf \<circ> pvQueue) (map_of (smCameras s') cid) = (if mine = [] then None else Some q) \<and>
              framesReceived m = int (length mine) \<and> framesDropped m = int (length mine - length q)" for cid
    using s'(3) [of cid] by (simp add: burst_ok_def Let_def lastn_def of_nat_diff)
  ultimately show ?thesis using s'(1) by blast
qed

theorem sessions_route_frames_witness:
  "\<exists>s'. submit_all sample_cam_cfg [sample_jpeg, sample_jpeg\<lparr>fCameraID := 3\<rparr>, sample_jpeg, sample_jpeg] (NewSessions metrics_New ()) = Some s' \<and>
     framesDropped (ensureCamera (CameraID_String 7) (smMetrics s')) = 1 \<and> sorted (ActiveCameraIDs s')"
  using sessions_route_frames [of sample_cam_cfg "[sample_jpeg, sample_jpeg\<lparr>fCameraID := 3\<rparr>, sample_jpeg, sample_jpeg]" "()"]
  by (auto simp: sample_cam_cfg_def sample_jpeg_def Let_def lastn_def)

end
