(* ===== verification/Recorder_Encoder.thy ===== *)
theory Recorder_Encoder
  imports Prelude
begin

section \<open>The encoder process (camera-recorder/internal/encoder/ffmpeg.go)\<close>

text \<open>
  The ffmpeg child of one open segment, with the goroutine that copies its output to the segment file.
  The child is a parameter: what it has to say after each byte it reads and at the end of its input, and
  whether it then exits cleanly. Its standard input and output are pipes of \<open>cap\<close> bytes. A step is one move of
  the recorder (a call, or a write that makes progress), of the child, or of the copying goroutine; the
  recorder uses one encoder from one goroutine, so one call is in progress at a time.
\<close>

subsection \<open>The child program\<close>

record 'q program =
  pgStart :: 'q
  pgByte :: "'q \<Rightarrow> byte \<Rightarrow> 'q \<times> bytes"
  pgEof :: "'q \<Rightarrow> bytes \<times> bool"

fun pg_feed :: "'q program \<Rightarrow> 'q \<Rightarrow> bytes \<Rightarrow> 'q \<times> bytes" where
  "pg_feed p q [] = (q, [])"
| "pg_feed p q (b # bs) = (let (q1, o1) = pgByte p q b; (q2, o2) = pg_feed p q1 bs in (q2, o1 @ o2))"

text \<open>Everything it writes when it reads \<open>bs\<close> and then the end of its input.\<close>

definition pg_tail :: "'q program \<Rightarrow> 'q \<Rightarrow> bytes \<Rightarrow> bytes" where
  "pg_tail p q bs = (case pg_feed p q bs of (q', out) \<Rightarrow> out @ fst (pgEof p q'))"

definition pg_output :: "'q program \<Rightarrow> bytes \<Rightarrow> bytes" where
  "pg_output p bs = pg_tail p (pgStart p) bs"

lemma pg_feed_append:
  "pg_feed p q (a @ b) = (let (q1, o1) = pg_feed p q a; (q2, o2) = pg_feed p q1 b in (q2, o1 @ o2))"
  by (induction a arbitrary: q) (simp_all split: prod.splits)

lemma pg_tail_append: "pg_tail p q (a @ b) = snd (pg_feed p q a) @ pg_tail p (fst (pg_feed p q a)) b"
  by (simp add: pg_tail_def pg_feed_append split: prod.splits)

lemma pg_tail_Nil [simp]: "pg_tail p q [] = fst (pgEof p q)"
  by (simp add: pg_tail_def)

subsection \<open>State\<close>

datatype enc_result = EncOk | EncCopyFailed | EncExitFailed

datatype enc_return = WroteOk | WroteErr | Closed enc_result | Killed

datatype enc_call = Idle | Writing bytes | Waiting bool

datatype 'q child = Running 'q bytes | Flushing bytes bool | Exited bool

datatype copier = Copying | CopyEnded bool | Finished

record 'q encoder =
  eIn :: bytes
  eInOpen :: bool
  eChild :: "'q child"
  eOut :: bytes
  eCopy :: copier
  eFile :: bytes
  eDone :: "enc_result option"
  eCancelled :: bool
  eCall :: enc_call
  eReturns :: "enc_return list"

datatype start_error = StdinPipeErr | StdoutPipeErr | StartErr

text \<open>\<open>Start\<close>: the pipes, the process and the goroutine; each of the three system calls may fail.\<close>

definition enc_Start :: "'q program \<Rightarrow> bool \<Rightarrow> bool \<Rightarrow> bool \<Rightarrow> start_error + 'q encoder" where
  "enc_Start p stdinOk stdoutOk startOk =
     (if \<not> stdinOk then Inl StdinPipeErr
      else if \<not> stdoutOk then Inl StdoutPipeErr
      else if \<not> startOk then Inl StartErr
      else Inr \<lparr>eIn = [], eInOpen = True, eChild = Running (pgStart p) [], eOut = [], eCopy = Copying, eFile = [],
                eDone = None, eCancelled = False, eCall = Idle, eReturns = []\<rparr>)"

subsection \<open>Steps\<close>

text \<open>The calls of the recorder, the progress of a write, the return of a wait; the child's reads, writes, end of
  input, exit, and death by itself or by the cancelled context; the copying goroutine's reads, the failure of the
  file (with how much of what it had read it still wrote), the end of the stream and the return of \<open>cmd.Wait\<close>.\<close>

datatype enc_event =
    CallWrite bytes | CallClose | CallKill
  | Put nat | PutFails | Receive
  | ChildRead nat | ChildWrite nat | ChildEof | ChildExit | ChildDies | ChildKilled
  | CopyRead nat | CopyFails nat nat | CopyEof | WaitReturns

definition returns :: "enc_return \<Rightarrow> 'q encoder \<Rightarrow> 'q encoder" where
  "returns r e = e\<lparr>eCall := Idle, eReturns := eReturns e @ [r]\<rparr>"

definition WriteJPEG :: "bytes \<Rightarrow> 'q encoder \<Rightarrow> 'q encoder" where
  "WriteJPEG jpeg e =
     (if jpeg = [] then returns WroteOk e
      else if \<not> eInOpen e then returns WroteErr e
      else e\<lparr>eCall := Writing jpeg\<rparr>)"

definition enc_Close :: "'q encoder \<Rightarrow> 'q encoder" where
  "enc_Close e = e\<lparr>eInOpen := False, eCall := Waiting False\<rparr>"

definition enc_Kill :: "'q encoder \<Rightarrow> 'q encoder" where
  "enc_Kill e = e\<lparr>eCancelled := True, eInOpen := False, eCall := Waiting True\<rparr>"

definition enc_put :: "nat \<Rightarrow> nat \<Rightarrow> 'q encoder \<Rightarrow> 'q encoder option" where
  "enc_put cap n e =
     (case eCall e of
        Writing bs \<Rightarrow>
          if 0 < n \<and> n \<le> length bs \<and> length (eIn e) + n \<le> cap \<and> (\<forall>ok. eChild e \<noteq> Exited ok)
          then let e' = e\<lparr>eIn := eIn e @ take n bs\<rparr>
               in Some (if drop n bs = [] then returns WroteOk e' else e'\<lparr>eCall := Writing (drop n bs)\<rparr>)
          else None
      | _ \<Rightarrow> None)"

definition enc_receive :: "'q encoder \<Rightarrow> 'q encoder option" where
  "enc_receive e =
     (case (eCall e, eDone e) of
        (Waiting kill, Some r) \<Rightarrow> Some (returns (if kill then Killed else Closed r) (e\<lparr>eDone := None\<rparr>))
      | _ \<Rightarrow> None)"

text \<open>What the goroutine sends to \<open>done\<close>: a failed copy takes precedence over the exit status.\<close>

definition done_result :: "bool \<Rightarrow> bool \<Rightarrow> enc_result" where
  "done_result copyOk exitOk = (if \<not> copyOk then EncCopyFailed else if \<not> exitOk then EncExitFailed else EncOk)"

fun child_step :: "'q program \<Rightarrow> nat \<Rightarrow> enc_event \<Rightarrow> 'q encoder \<Rightarrow> 'q encoder option" where
  "child_step p cap (ChildRead n) e =
     (case eChild e of
        Running q [] \<Rightarrow>
          if 0 < n \<and> n \<le> length (eIn e)
          then (let (q', out) = pg_feed p q (take n (eIn e))
                in Some (e\<lparr>eIn := drop n (eIn e), eChild := Running q' out\<rparr>))
          else None
      | _ \<Rightarrow> None)"
| "child_step p cap (ChildWrite n) e =
     (case eChild e of
        Running q out \<Rightarrow>
          if 0 < n \<and> n \<le> length out \<and> length (eOut e) + n \<le> cap
          then Some (e\<lparr>eOut := eOut e @ take n out, eChild := Running q (drop n out)\<rparr>) else None
      | Flushing out ok \<Rightarrow>
          if 0 < n \<and> n \<le> length out \<and> length (eOut e) + n \<le> cap
          then Some (e\<lparr>eOut := eOut e @ take n out, eChild := Flushing (drop n out) ok\<rparr>) else None
      | Exited ok \<Rightarrow> None)"
| "child_step p cap ChildEof e =
     (case eChild e of
        Running q [] \<Rightarrow>
          if eIn e = [] \<and> \<not> eInOpen e
          then Some (e\<lparr>eChild := Flushing (fst (pgEof p q)) (snd (pgEof p q))\<rparr>) else None
      | _ \<Rightarrow> None)"
| "child_step p cap ChildExit e =
     (case eChild e of Flushing [] ok \<Rightarrow> Some (e\<lparr>eChild := Exited ok\<rparr>) | _ \<Rightarrow> None)"
| "child_step p cap ChildDies e =
     (case eChild e of Exited ok \<Rightarrow> None | _ \<Rightarrow> Some (e\<lparr>eChild := Exited False\<rparr>))"
| "child_step p cap ChildKilled e =
     (case eChild e of Exited ok \<Rightarrow> None
      | _ \<Rightarrow> if eCancelled e then Some (e\<lparr>eChild := Exited False\<rparr>) else None)"
| "child_step p cap _ e = None"

fun copy_step :: "enc_event \<Rightarrow> 'q encoder \<Rightarrow> 'q encoder option" where
  "copy_step (CopyRead n) e =
     (if eCopy e = Copying \<and> 0 < n \<and> n \<le> length (eOut e)
      then Some (e\<lparr>eOut := drop n (eOut e), eFile := eFile e @ take n (eOut e)\<rparr>) else None)"
| "copy_step (CopyFails n m) e =
     (if eCopy e = Copying \<and> 0 < n \<and> n \<le> length (eOut e) \<and> m \<le> n
      then Some (e\<lparr>eOut := drop n (eOut e), eFile := eFile e @ take m (eOut e), eCopy := CopyEnded False\<rparr>) else None)"
| "copy_step CopyEof e =
     (case eChild e of
        Exited ok \<Rightarrow> if eCopy e = Copying \<and> eOut e = [] then Some (e\<lparr>eCopy := CopyEnded True\<rparr>) else None
      | _ \<Rightarrow> None)"
| "copy_step WaitReturns e =
     (case (eChild e, eCopy e) of
        (Exited ok, CopyEnded clean) \<Rightarrow> Some (e\<lparr>eCopy := Finished, eDone := Some (done_result clean ok)\<rparr>)
      | _ \<Rightarrow> None)"
| "copy_step _ e = None"

fun enc_step :: "'q program \<Rightarrow> nat \<Rightarrow> enc_event \<Rightarrow> 'q encoder \<Rightarrow> 'q encoder option" where
  "enc_step p cap (CallWrite jpeg) e = (if eCall e = Idle then Some (WriteJPEG jpeg e) else None)"
| "enc_step p cap CallClose e = (if eCall e = Idle then Some (enc_Close e) else None)"
| "enc_step p cap CallKill e = (if eCall e = Idle then Some (enc_Kill e) else None)"
| "enc_step p cap (Put n) e = enc_put cap n e"
| "enc_step p cap PutFails e =
     (case (eCall e, eChild e) of (Writing bs, Exited ok) \<Rightarrow> Some (returns WroteErr e) | _ \<Rightarrow> None)"
| "enc_step p cap Receive e = enc_receive e"
| "enc_step p cap (CopyRead n) e = copy_step (CopyRead n) e"
| "enc_step p cap (CopyFails n m) e = copy_step (CopyFails n m) e"
| "enc_step p cap CopyEof e = copy_step CopyEof e"
| "enc_step p cap WaitReturns e = copy_step WaitReturns e"
| "enc_step p cap ev e = child_step p cap ev e"

fun enc_run :: "'q program \<Rightarrow> nat \<Rightarrow> enc_event list \<Rightarrow> 'q encoder \<Rightarrow> 'q encoder option" where
  "enc_run p cap [] e = Some e"
| "enc_run p cap (ev # evs) e = (case enc_step p cap ev e of None \<Rightarrow> None | Some e' \<Rightarrow> enc_run p cap evs e')"


text \<open>Which steps are calls, and which are faults of the child or of the file.\<close>

fun is_call :: "enc_event \<Rightarrow> bool" where
  "is_call (CallWrite j) = True"
| "is_call CallClose = True"
| "is_call CallKill = True"
| "is_call _ = False"

fun is_copy_fault :: "enc_event \<Rightarrow> bool" where
  "is_copy_fault (CopyFails n m) = True"
| "is_copy_fault _ = False"

definition is_fault :: "enc_event \<Rightarrow> bool" where
  "is_fault ev \<longleftrightarrow> is_copy_fault ev \<or> ev = ChildDies"

text \<open>The bytes given to \<open>WriteJPEG\<close> before the encoder is closed or killed.\<close>

fun enc_input :: "enc_event list \<Rightarrow> bytes" where
  "enc_input [] = []"
| "enc_input (CallWrite j # evs) = j @ enc_input evs"
| "enc_input (CallClose # evs) = []"
| "enc_input (CallKill # evs) = []"
| "enc_input (ev # evs) = enc_input evs"

definition ended :: "'q encoder \<Rightarrow> bool" where
  "ended e \<longleftrightarrow> (\<exists>r \<in> set (eReturns e). r \<noteq> WroteOk \<and> r \<noteq> WroteErr)"

definition in_hand :: "'q encoder \<Rightarrow> bytes" where
  "in_hand e = (case eCall e of Writing bs \<Rightarrow> bs | _ \<Rightarrow> [])"

subsection \<open>Invariants\<close>

definition enc_shape :: "'q encoder \<Rightarrow> bool" where
  "enc_shape e \<longleftrightarrow>
     (\<forall>bs. eCall e = Writing bs \<longrightarrow> eInOpen e) \<and>
     (\<forall>kill. eCall e = Waiting kill \<longrightarrow> \<not> eInOpen e \<and> (kill \<longrightarrow> eCancelled e)) \<and>
     (\<forall>out ok. eChild e = Flushing out ok \<longrightarrow> \<not> eInOpen e) \<and>
     (eChild e = Exited True \<longrightarrow> \<not> eInOpen e) \<and>
     (eCopy e = CopyEnded True \<or> eCopy e = Finished \<longrightarrow> (\<exists>ok. eChild e = Exited ok)) \<and>
     (eCopy e = Finished \<longrightarrow> eDone e \<noteq> None \<or> ended e) \<and>
     (eCopy e \<noteq> Finished \<longrightarrow> eDone e = None \<and> \<not> ended e)"

text \<open>What the child has written so far, as long as no byte of it was lost.\<close>

definition enc_content :: "'q program \<Rightarrow> bytes \<Rightarrow> 'q encoder \<Rightarrow> bool" where
  "enc_content p inp e \<longleftrightarrow>
     (case eChild e of
        Running q out \<Rightarrow> (\<exists>c. inp = c @ eIn e @ in_hand e \<and> pg_feed p (pgStart p) c = (q, eFile e @ eOut e @ out))
      | Flushing out ok \<Rightarrow> pg_output p inp = eFile e @ eOut e @ out
      | Exited ok \<Rightarrow> ok \<longrightarrow> pg_output p inp = eFile e @ eOut e)"

definition enc_inv :: "'q program \<Rightarrow> bytes \<Rightarrow> 'q encoder \<Rightarrow> bool" where
  "enc_inv p inp e \<longleftrightarrow> enc_shape e \<and>
     (eCopy e = Copying \<longrightarrow> enc_content p inp e) \<and>
     (eCopy e = CopyEnded True \<longrightarrow> enc_content p inp e \<and> eOut e = []) \<and>
     (eDone e = Some EncOk \<or> Closed EncOk \<in> set (eReturns e) \<longrightarrow> \<not> eInOpen e \<and> eFile e = pg_output p inp)"

definition new_input :: "enc_event \<Rightarrow> 'q encoder \<Rightarrow> bytes" where
  "new_input ev e = (case ev of CallWrite j \<Rightarrow> if eInOpen e then j else [] | _ \<Rightarrow> [])"

lemmas enc_inv_defs = enc_inv_def enc_shape_def enc_content_def ended_def in_hand_def

lemma enc_inv_start: "enc_Start p a b c = Inr e \<Longrightarrow> enc_inv p [] e"
  by (auto simp: enc_Start_def enc_inv_defs split: if_splits)

lemmas step_defs = WriteJPEG_def returns_def enc_Close_def enc_Kill_def enc_put_def enc_receive_def done_result_def
  new_input_def Let_def

text \<open>The steps, one case per branch.\<close>

lemma enc_put_iff:
  "enc_put cap n e = Some e' \<longleftrightarrow> (\<exists>bs. eCall e = Writing bs \<and> 0 < n \<and> n \<le> length bs \<and> length (eIn e) + n \<le> cap \<and>
     (\<forall>ok. eChild e \<noteq> Exited ok) \<and>
     e' = (if drop n bs = [] then e\<lparr>eIn := eIn e @ take n bs, eCall := Idle, eReturns := eReturns e @ [WroteOk]\<rparr>
           else e\<lparr>eIn := eIn e @ take n bs, eCall := Writing (drop n bs)\<rparr>))"
  by (cases "eCall e") (auto simp: enc_put_def returns_def)

lemma enc_receive_iff:
  "enc_receive e = Some e' \<longleftrightarrow> (\<exists>kill r. eCall e = Waiting kill \<and> eDone e = Some r \<and>
     e' = e\<lparr>eDone := None, eCall := Idle, eReturns := eReturns e @ [if kill then Killed else Closed r]\<rparr>)"
  by (auto simp: enc_receive_def returns_def split: enc_call.splits option.splits)

lemma call_step_cases:
  assumes "enc_step p cap ev e = Some e'" "is_call ev"
  obtains (write_nothing) "ev = CallWrite []" "eCall e = Idle" "e' = e\<lparr>eReturns := eReturns e @ [WroteOk]\<rparr>"
  | (write_closed) j where "ev = CallWrite j" "j \<noteq> []" "eCall e = Idle" "\<not> eInOpen e" "e' = e\<lparr>eReturns := eReturns e @ [WroteErr]\<rparr>"
  | (write_open) j where "ev = CallWrite j" "j \<noteq> []" "eCall e = Idle" "eInOpen e" "e' = e\<lparr>eCall := Writing j\<rparr>"
  | (closing) "ev = CallClose" "eCall e = Idle" "e' = e\<lparr>eInOpen := False, eCall := Waiting False\<rparr>"
  | (killing) "ev = CallKill" "eCall e = Idle" "e' = e\<lparr>eCancelled := True, eInOpen := False, eCall := Waiting True\<rparr>"
proof -
  from assms(2) consider j where "ev = CallWrite j" | "ev = CallClose" | "ev = CallKill" by (cases ev) simp_all
  then show ?thesis
  proof cases
    case 1
    from assms(1) 1 have i: "eCall e = Idle" and e': "e' = WriteJPEG j e" by (simp_all split: if_splits)
    show ?thesis
    proof (cases "j = []")
      case True
      with 1 i e' show ?thesis by (intro write_nothing) (simp_all add: WriteJPEG_def returns_def)
    next
      case j: False
      show ?thesis
      proof (cases "eInOpen e")
        case True
        with 1 i e' j show ?thesis by (intro write_open) (simp_all add: WriteJPEG_def)
      next
        case False
        with 1 i e' j show ?thesis by (intro write_closed) (simp_all add: WriteJPEG_def returns_def)
      qed
    qed
  next
    case 2
    with assms(1) closing show ?thesis by (simp add: enc_Close_def split: if_splits)
  next
    case 3
    with assms(1) killing show ?thesis by (simp add: enc_Kill_def split: if_splits)
  qed
qed

lemma inner_step_cases:
  assumes "enc_step p cap ev e = Some e'" "\<not> is_call ev"
  obtains (put) n bs where "ev = Put n" "eCall e = Writing bs" "0 < n" "n < length bs" "length (eIn e) + n \<le> cap"
      "\<forall>ok. eChild e \<noteq> Exited ok" "e' = e\<lparr>eIn := eIn e @ take n bs, eCall := Writing (drop n bs)\<rparr>"
  | (put_all) n bs where "ev = Put n" "eCall e = Writing bs" "0 < n" "length bs = n" "length (eIn e) + n \<le> cap"
      "\<forall>ok. eChild e \<noteq> Exited ok" "e' = e\<lparr>eIn := eIn e @ bs, eCall := Idle, eReturns := eReturns e @ [WroteOk]\<rparr>"
  | (put_fails) bs ok where "ev = PutFails" "eCall e = Writing bs" "eChild e = Exited ok"
      "e' = e\<lparr>eCall := Idle, eReturns := eReturns e @ [WroteErr]\<rparr>"
  | (receive) kill r where "ev = Receive" "eCall e = Waiting kill" "eDone e = Some r"
      "e' = e\<lparr>eDone := None, eCall := Idle, eReturns := eReturns e @ [if kill then Killed else Closed r]\<rparr>"
  | (child_read) n q q' out where "ev = ChildRead n" "eChild e = Running q []" "0 < n" "n \<le> length (eIn e)"
      "pg_feed p q (take n (eIn e)) = (q', out)" "e' = e\<lparr>eIn := drop n (eIn e), eChild := Running q' out\<rparr>"
  | (child_write) n q out where "ev = ChildWrite n" "eChild e = Running q out" "0 < n" "n \<le> length out"
      "length (eOut e) + n \<le> cap" "e' = e\<lparr>eOut := eOut e @ take n out, eChild := Running q (drop n out)\<rparr>"
  | (child_flush) n out ok where "ev = ChildWrite n" "eChild e = Flushing out ok" "0 < n" "n \<le> length out"
      "length (eOut e) + n \<le> cap" "e' = e\<lparr>eOut := eOut e @ take n out, eChild := Flushing (drop n out) ok\<rparr>"
  | (child_eof) q where "ev = ChildEof" "eChild e = Running q []" "eIn e = []" "\<not> eInOpen e"
      "e' = e\<lparr>eChild := Flushing (fst (pgEof p q)) (snd (pgEof p q))\<rparr>"
  | (child_exit) ok where "ev = ChildExit" "eChild e = Flushing [] ok" "e' = e\<lparr>eChild := Exited ok\<rparr>"
  | (child_dies) "ev = ChildDies \<or> ev = ChildKilled \<and> eCancelled e" "\<forall>ok. eChild e \<noteq> Exited ok"
      "e' = e\<lparr>eChild := Exited False\<rparr>"
  | (copy_read) n where "ev = CopyRead n" "eCopy e = Copying" "0 < n" "n \<le> length (eOut e)"
      "e' = e\<lparr>eOut := drop n (eOut e), eFile := eFile e @ take n (eOut e)\<rparr>"
  | (copy_fails) n m where "ev = CopyFails n m" "eCopy e = Copying" "0 < n" "n \<le> length (eOut e)" "m \<le> n"
      "e' = e\<lparr>eOut := drop n (eOut e), eFile := eFile e @ take m (eOut e), eCopy := CopyEnded False\<rparr>"
  | (copy_eof) ok where "ev = CopyEof" "eChild e = Exited ok" "eCopy e = Copying" "eOut e = []"
      "e' = e\<lparr>eCopy := CopyEnded True\<rparr>"
  | (wait_returns) ok clean where "ev = WaitReturns" "eChild e = Exited ok" "eCopy e = CopyEnded clean"
      "e' = e\<lparr>eCopy := Finished, eDone := Some (done_result clean ok)\<rparr>"
proof (cases ev)
  case (Put n)
  with assms(1) obtain bs where bs: "eCall e = Writing bs" "0 < n" "n \<le> length bs" "length (eIn e) + n \<le> cap"
    "\<forall>ok. eChild e \<noteq> Exited ok" and e': "e' = (if drop n bs = [] then e\<lparr>eIn := eIn e @ take n bs, eCall := Idle,
        eReturns := eReturns e @ [WroteOk]\<rparr> else e\<lparr>eIn := eIn e @ take n bs, eCall := Writing (drop n bs)\<rparr>)"
    by (auto simp: enc_put_iff)
  show ?thesis
  proof (cases "n = length bs")
    case True
    with e' show ?thesis by (intro put_all [OF Put bs(1,2) _ bs(4,5)]) simp_all
  next
    case False
    with bs(3) e' show ?thesis by (intro put [OF Put bs(1,2) _ bs(4,5)]) simp_all
  qed
next
  case Receive
  with assms(1) receive show ?thesis by (auto simp: enc_receive_iff)
next
  case PutFails
  with assms(1) put_fails show ?thesis by (auto simp: returns_def split: enc_call.splits child.splits)
next
  case (ChildRead n)
  with assms(1) child_read [of n] show ?thesis by (auto split: child.splits list.splits if_splits prod.splits)
next
  case (ChildWrite n)
  with assms(1) child_write [of n] child_flush [of n] show ?thesis by (auto split: child.splits if_splits)
next
  case ChildEof
  with assms(1) child_eof show ?thesis by (auto split: child.splits list.splits if_splits)
next
  case ChildExit
  with assms(1) child_exit show ?thesis by (auto split: child.splits list.splits)
next
  case ChildDies
  with assms(1) child_dies show ?thesis by (auto split: child.splits)
next
  case ChildKilled
  with assms(1) child_dies show ?thesis by (auto split: child.splits if_splits)
next
  case CopyEof
  with assms(1) copy_eof show ?thesis by (auto split: child.splits if_splits)
next
  case WaitReturns
  with assms(1) wait_returns show ?thesis by (auto split: child.splits copier.splits)
next
  case (CopyRead n)
  with assms(1) copy_read [of n] show ?thesis by (simp split: if_splits)
next
  case (CopyFails n m)
  with assms(1) copy_fails [of n m] show ?thesis by (simp split: if_splits)
next
  case (CallWrite j)
  with assms(2) show ?thesis by simp
next
  case CallClose
  with assms(2) show ?thesis by simp
next
  case CallKill
  with assms(2) show ?thesis by simp
qed

lemma shape_call: "enc_step p cap ev e = Some e' \<Longrightarrow> is_call ev \<Longrightarrow> enc_shape e \<Longrightarrow> enc_shape e'"
  by (erule call_step_cases, assumption) (auto simp: enc_shape_def ended_def)

lemma shape_inner: "enc_step p cap ev e = Some e' \<Longrightarrow> \<not> is_call ev \<Longrightarrow> enc_shape e \<Longrightarrow> enc_shape e'"
  by (erule inner_step_cases, assumption) (auto simp: enc_shape_def ended_def)


lemma shape_step: "enc_step p cap ev e = Some e' \<Longrightarrow> enc_shape e \<Longrightarrow> enc_shape e'"
  using shape_call shape_inner by blast

lemma inv_call:
  assumes "enc_step p cap ev e = Some e'" "is_call ev" "enc_inv p inp e"
  shows "enc_inv p (inp @ new_input ev e) e'"
proof -
  from assms have sh: "enc_shape e'" by (auto simp: enc_inv_def intro: shape_step)
  from assms(1,2) show ?thesis
  proof (cases rule: call_step_cases)
    case (write_open j)
    with assms(3) have d: "eDone e \<noteq> Some EncOk" "Closed EncOk \<notin> set (eReturns e)" by (auto simp: enc_inv_def)
    have c: "enc_content p (inp @ j) e'" if "enc_content p inp e"
      using that write_open assms(3)
      by (auto simp: enc_content_def in_hand_def enc_inv_def enc_shape_def split: child.splits)
    from sh c d write_open assms(3) show ?thesis by (simp add: enc_inv_def new_input_def)
  qed (use sh assms(3) in \<open>auto simp: enc_inv_def new_input_def enc_content_def in_hand_def split: child.splits\<close>)
qed

lemma content_inner:
  assumes "enc_step p cap ev e = Some e'" "\<not> is_call ev" "\<not> is_copy_fault ev" "enc_content p inp e" "enc_shape e"
  shows "enc_content p inp e'"
  using assms(1,2)
proof (cases rule: inner_step_cases)
  case (put n bs)
  with assms(4) show ?thesis by (auto simp: enc_content_def in_hand_def split: child.splits)
next
  case (put_all n bs)
  with assms(4) show ?thesis by (auto simp: enc_content_def in_hand_def split: child.splits)
next
  case (put_fails bs ok)
  with assms(4) show ?thesis by (simp add: enc_content_def)
next
  case (receive kill r)
  with assms(4) show ?thesis by (simp add: enc_content_def in_hand_def split: child.splits)
next
  case (child_read n q q' out)
  from assms(4) child_read(2) obtain c where c: "inp = c @ eIn e @ in_hand e"
    "pg_feed p (pgStart p) c = (q, eFile e @ eOut e)" by (auto simp: enc_content_def)
  then have "pg_feed p (pgStart p) (c @ take n (eIn e)) = (q', eFile e @ eOut e @ out)"
    using child_read(5) by (simp add: pg_feed_append)
  moreover from c(1) have "inp = (c @ take n (eIn e)) @ drop n (eIn e) @ in_hand e" by simp
  ultimately show ?thesis using child_read(6) by (auto simp: enc_content_def in_hand_def simp del: append_assoc)
next
  case (child_eof q)
  with assms(5) have "in_hand e = []" by (auto simp: in_hand_def enc_shape_def split: enc_call.splits)
  with assms(4) child_eof show ?thesis by (auto simp: enc_content_def pg_output_def pg_tail_def)
next
  case (child_write n q out)
  with assms(4) show ?thesis by (auto simp: enc_content_def in_hand_def)
next
  case (copy_read n)
  with assms(4) show ?thesis by (auto simp: enc_content_def in_hand_def split: child.splits)
qed (use assms(3,4) in \<open>simp_all add: enc_content_def in_hand_def\<close>)

lemma inv_inner:
  assumes "enc_step p cap ev e = Some e'" "\<not> is_call ev" "enc_inv p inp e"
  shows "enc_inv p inp e'"
proof -
  from assms have s0: "enc_shape e" and sh: "enc_shape e'" by (auto simp: enc_inv_def intro: shape_step)
  have c: "enc_content p inp e'" if "\<not> is_copy_fault ev" "enc_content p inp e"
    using content_inner [OF assms(1,2) that s0] .
  from assms(1,2) show ?thesis
  proof (cases rule: inner_step_cases)
    case (receive kill r)
    with sh c assms(3) show ?thesis by (auto simp: enc_inv_def)
  next
    case (wait_returns ok clean)
    with s0 assms(3) have "eFile e = pg_output p inp \<and> \<not> eInOpen e" if "done_result clean ok = EncOk"
      using that by (auto simp: enc_inv_def enc_content_def enc_shape_def done_result_def split: if_splits)
    with sh c wait_returns assms(3) show ?thesis by (auto simp: enc_inv_def)
  next
    case (copy_read n)
    with s0 have "eDone e = None" "Closed EncOk \<notin> set (eReturns e)" by (auto simp: enc_shape_def ended_def)
    with sh c copy_read assms(3) show ?thesis by (simp add: enc_inv_def)
  next
    case (copy_fails n m)
    with s0 have "eDone e = None" "Closed EncOk \<notin> set (eReturns e)" by (auto simp: enc_shape_def ended_def)
    with sh copy_fails show ?thesis by (simp add: enc_inv_def)
  next
    case (child_write n q out)
    with s0 have "eCopy e \<noteq> CopyEnded True" by (auto simp: enc_shape_def)
    with sh c child_write assms(3) show ?thesis by (simp add: enc_inv_def)
  next
    case (child_flush n out ok)
    with s0 have "eCopy e \<noteq> CopyEnded True" by (auto simp: enc_shape_def)
    with sh c child_flush assms(3) show ?thesis by (simp add: enc_inv_def)
  next
    case child_dies
    with sh assms(3) show ?thesis by (simp add: enc_inv_def) (simp add: enc_content_def)
  qed (use sh c assms(3) in \<open>simp_all add: enc_inv_def\<close>)
qed

lemma enc_run_append:
  "enc_run p cap (evs1 @ evs2) e = (case enc_run p cap evs1 e of None \<Rightarrow> None | Some e' \<Rightarrow> enc_run p cap evs2 e')"
  by (induction evs1 arbitrary: e) (auto split: option.split)

lemma shape_run: "enc_run p cap evs e = Some e' \<Longrightarrow> enc_shape e \<Longrightarrow> enc_shape e'"
proof (induction evs arbitrary: e)
  case (Cons ev evs)
  then show ?case by (auto split: option.splits intro: shape_step)
qed simp

text \<open>What is put into the encoder from a state where it is open, or closed already.\<close>

lemma step_open: "enc_step p cap ev e = Some e' \<Longrightarrow> eInOpen e' \<longleftrightarrow> eInOpen e \<and> ev \<noteq> CallClose \<and> ev \<noteq> CallKill"
proof (cases "is_call ev")
  case True
  assume "enc_step p cap ev e = Some e'"
  from this True show ?thesis by (cases rule: call_step_cases) simp_all
next
  case False
  assume "enc_step p cap ev e = Some e'"
  from this False show ?thesis by (cases rule: inner_step_cases) auto
qed

lemma enc_input_Cons:
  "enc_step p cap ev e = Some e' \<Longrightarrow>
     (if eInOpen e then enc_input (ev # evs) else []) = new_input ev e @ (if eInOpen e' then enc_input evs else [])"
  by (drule step_open) (cases ev; simp add: new_input_def)

lemma inv_step: "enc_step p cap ev e = Some e' \<Longrightarrow> enc_inv p inp e \<Longrightarrow> enc_inv p (inp @ new_input ev e) e'"
proof (cases "is_call ev")
  case False
  assume "enc_step p cap ev e = Some e'" "enc_inv p inp e"
  from inv_inner [OF this(1) False this(2)] False show ?thesis by (cases ev) (simp_all add: new_input_def)
qed (rule inv_call)

lemma inv_run:
  "enc_run p cap evs e = Some e' \<Longrightarrow> enc_inv p inp e \<Longrightarrow> enc_inv p (inp @ (if eInOpen e then enc_input evs else [])) e'"
proof (induction evs arbitrary: e inp)
  case Nil
  then show ?case by simp
next
  case (Cons ev evs)
  from Cons.prems(1) obtain e1 where e1: "enc_step p cap ev e = Some e1" "enc_run p cap evs e1 = Some e'"
    by (auto split: option.splits)
  from Cons.IH [OF e1(2) inv_step [OF e1(1) Cons.prems(2)]] show ?case
    unfolding enc_input_Cons [OF e1(1)] by simp
qed

subsection \<open>A closed encoder has written the whole video\<close>

text \<open>A run of one encoder from its start.\<close>

definition enc_reaches :: "'q program \<Rightarrow> nat \<Rightarrow> enc_event list \<Rightarrow> 'q encoder \<Rightarrow> bool" where
  "enc_reaches p cap evs e \<longleftrightarrow> (\<exists>e0. enc_Start p True True True = Inr e0 \<and> enc_run p cap evs e0 = Some e)"

lemma reaches_inv: "enc_reaches p cap evs e \<Longrightarrow> enc_inv p (enc_input evs) e"
proof -
  assume "enc_reaches p cap evs e"
  then obtain e0 where e0: "enc_Start p True True True = Inr e0" "enc_run p cap evs e0 = Some e"
    by (auto simp: enc_reaches_def)
  from inv_run [OF e0(2) enc_inv_start [OF e0(1)]] e0(1) show ?thesis by (auto simp: enc_Start_def)
qed

text \<open>A clean close can be trusted: when \<open>Close\<close> returns no error, the segment file holds exactly what the
  encoder writes for the concatenated frames it was given up to the close, whatever the schedule of the pipes, with
  no byte lost, doubled or reordered.\<close>
theorem closed_video_complete:
  assumes "enc_reaches p cap evs e" "Closed EncOk \<in> set (eReturns e)"
  shows "eFile e = pg_output p (enc_input evs)"
  using reaches_inv [OF assms(1)] assms(2) by (simp add: enc_inv_def)

subsection \<open>Calls return\<close>

definition enc_rest :: "'q program \<Rightarrow> 'q encoder \<Rightarrow> bytes" where
  "enc_rest p e =
     (case eChild e of
        Running q out \<Rightarrow> out @ pg_tail p q (eIn e @ in_hand e)
      | Flushing out ok \<Rightarrow> out
      | Exited ok \<Rightarrow> [])"

text \<open>How much the processes still have to do before they come to rest.\<close>

definition enc_work :: "'q program \<Rightarrow> 'q encoder \<Rightarrow> nat" where
  "enc_work p e = length (eIn e) + length (eOut e) + 2 * length (enc_rest p e) +
     (case eCall e of Idle \<Rightarrow> 0 | Writing bs \<Rightarrow> 2 * length bs + 1 | Waiting kill \<Rightarrow> 1) +
     (case eChild e of Running q out \<Rightarrow> 2 | Flushing out ok \<Rightarrow> 1 | Exited ok \<Rightarrow> 0) +
     (case eCopy e of Copying \<Rightarrow> 2 | CopyEnded clean \<Rightarrow> 1 | Finished \<Rightarrow> 0)"

lemma work_step:
  assumes "enc_step p cap ev e = Some e'" "\<not> is_call ev" "enc_shape e"
  shows "enc_work p e' < enc_work p e"
  using assms(1,2)
proof (cases rule: inner_step_cases)
  case (put n bs)
  then have "enc_rest p e' = enc_rest p e" by (simp add: enc_rest_def in_hand_def split: child.splits)
  with put show ?thesis by (simp add: enc_work_def)
next
  case (put_all n bs)
  then have "enc_rest p e' = enc_rest p e" by (simp add: enc_rest_def in_hand_def split: child.splits)
  with put_all show ?thesis by (simp add: enc_work_def)
next
  case (child_read n q q' out)
  have "pg_tail p q (eIn e @ in_hand e) = out @ pg_tail p q' (drop n (eIn e) @ in_hand e)"
    using pg_tail_append [of p q "take n (eIn e)" "drop n (eIn e) @ in_hand e"] child_read(5)
    by (simp flip: append_assoc)
  with child_read have "enc_rest p e' = enc_rest p e" by (simp add: enc_rest_def in_hand_def)
  with child_read show ?thesis by (simp add: enc_work_def)
next
  case (child_eof q)
  with assms(3) have "in_hand e = []" by (auto simp: in_hand_def enc_shape_def split: enc_call.splits)
  with child_eof have "enc_rest p e' = enc_rest p e" by (simp add: enc_rest_def)
  with child_eof show ?thesis by (simp add: enc_work_def)
next
  case (child_write n q out)
  then have "length (enc_rest p e) = length (enc_rest p e') + n" by (simp add: enc_rest_def in_hand_def)
  with child_write show ?thesis by (simp add: enc_work_def)
next
  case (child_flush n out ok)
  then have "length (enc_rest p e) = length (enc_rest p e') + n" by (simp add: enc_rest_def)
  with child_flush show ?thesis by (simp add: enc_work_def)
next
  case child_dies
  then show ?thesis by (cases "eChild e") (auto simp: enc_work_def enc_rest_def simp del: not_all)
next
  case (receive kill r)
  then have "enc_rest p e' = enc_rest p e" by (simp add: enc_rest_def in_hand_def split: child.splits)
  with receive show ?thesis by (simp add: enc_work_def)
next
  case (put_fails bs ok)
  then show ?thesis by (simp add: enc_work_def enc_rest_def)
next
  case (copy_read n)
  then have "enc_rest p e' = enc_rest p e" by (simp add: enc_rest_def in_hand_def split: child.splits)
  with copy_read show ?thesis by (simp add: enc_work_def)
next
  case (copy_fails n m)
  then have "enc_rest p e' = enc_rest p e" by (simp add: enc_rest_def in_hand_def split: child.splits)
  with copy_fails show ?thesis by (simp add: enc_work_def)
qed (simp_all add: enc_work_def enc_rest_def)


lemma work_run:
  "enc_run p cap evs e = Some e' \<Longrightarrow> \<forall>ev \<in> set evs. \<not> is_call ev \<Longrightarrow> enc_shape e \<Longrightarrow>
     length evs + enc_work p e' \<le> enc_work p e"
proof (induction evs arbitrary: e)
  case (Cons ev evs)
  from Cons.prems(1) obtain e1 where e1: "enc_step p cap ev e = Some e1" "enc_run p cap evs e1 = Some e'"
    by (auto split: option.splits)
  from Cons.IH [OF e1(2)] Cons.prems shape_step [OF e1(1)] work_step [OF e1(1)] show ?case by fastforce
qed simp

lemma child_can_move:
  assumes "\<forall>ok. eChild e \<noteq> Exited ok" "\<not> eInOpen e" "0 < cap"
    and "eCancelled e \<or> eCopy e = Copying" "enc_shape e"
  shows "\<exists>ev e'. \<not> is_call ev \<and> \<not> is_fault ev \<and> enc_step p cap ev e = Some e'"
proof (cases "eCancelled e")
  case True
  with assms(1) have "enc_step p cap ChildKilled e = Some (e\<lparr>eChild := Exited False\<rparr>)"
    by (auto split: child.split)
  moreover have "\<not> is_call ChildKilled" "\<not> is_fault ChildKilled" by (simp_all add: is_fault_def)
  ultimately show ?thesis by blast
next
  case False
  with assms(4) have copying: "eCopy e = Copying" by simp
  have inner: "?thesis" if "enc_step p cap ev e \<noteq> None" "\<not> is_call ev" "\<not> is_fault ev" for ev
    using that by auto
  show ?thesis
  proof (cases "eOut e = []")
    case out: False
    with copying have "enc_step p cap (CopyRead 1) e \<noteq> None" by (cases "eOut e") auto
    then show ?thesis by (rule inner) (simp_all add: is_fault_def)
  next
    case out: True
    show ?thesis
    proof (cases "eChild e")
      case (Running q pend)
      show ?thesis
      proof (cases "pend = []")
        case pend: False
        with Running out assms(3) have "enc_step p cap (ChildWrite 1) e \<noteq> None" by (cases pend) auto
        then show ?thesis by (rule inner) (simp_all add: is_fault_def)
      next
        case pend: True
        show ?thesis
        proof (cases "eIn e = []")
          case True
          with Running pend assms(2) have "enc_step p cap ChildEof e \<noteq> None" by simp
          then show ?thesis by (rule inner) (simp_all add: is_fault_def)
        next
          case False
          with Running pend have "enc_step p cap (ChildRead 1) e \<noteq> None"
            by (cases "eIn e") (auto split: prod.splits)
          then show ?thesis by (rule inner) (simp_all add: is_fault_def)
        qed
      qed
    next
      case (Flushing pend ok)
      show ?thesis
      proof (cases "pend = []")
        case True
        with Flushing have "enc_step p cap ChildExit e \<noteq> None" by simp
        then show ?thesis by (rule inner) (simp_all add: is_fault_def)
      next
        case False
        with Flushing out assms(3) have "enc_step p cap (ChildWrite 1) e \<noteq> None" by (cases pend) auto
        then show ?thesis by (rule inner) (simp_all add: is_fault_def)
      qed
    next
      case (Exited ok)
      with assms(1) show ?thesis by blast
    qed
  qed
qed

lemma waiting_can_move:
  assumes "eCall e = Waiting kill" "\<not> ended e" "0 < cap" "eCancelled e \<or> eCopy e \<noteq> CopyEnded False" "enc_shape e"
  shows "\<exists>ev e'. \<not> is_call ev \<and> \<not> is_fault ev \<and> enc_step p cap ev e = Some e'"
proof -
  have inner: "?thesis" if "enc_step p cap ev e \<noteq> None" "\<not> is_call ev" "\<not> is_fault ev" for ev
    using that by auto
  from assms(1,5) have closed: "\<not> eInOpen e" by (simp add: enc_shape_def)
  show ?thesis
  proof (cases "eCopy e = Finished")
    case True
    with assms(2,5) have "eDone e \<noteq> None" by (simp add: enc_shape_def)
    with assms(1) have "enc_step p cap Receive e \<noteq> None" by (auto simp: enc_receive_def)
    then show ?thesis by (rule inner) (simp_all add: is_fault_def)
  next
    case running: False
    show ?thesis
    proof (cases "\<exists>ok. eChild e = Exited ok")
      case True
      then obtain ok where ok: "eChild e = Exited ok" ..
      show ?thesis
      proof (cases "eCopy e")
        case Copying
        show ?thesis
        proof (cases "eOut e = []")
          case True
          with ok Copying have "enc_step p cap CopyEof e \<noteq> None" by simp
          then show ?thesis by (rule inner) (simp_all add: is_fault_def)
        next
          case False
          with Copying have "enc_step p cap (CopyRead 1) e \<noteq> None" by (cases "eOut e") auto
          then show ?thesis by (rule inner) (simp_all add: is_fault_def)
        qed
      next
        case (CopyEnded clean)
        with ok have "enc_step p cap WaitReturns e \<noteq> None" by simp
        then show ?thesis by (rule inner) (simp_all add: is_fault_def)
      next
        case Finished
        with running show ?thesis by simp
      qed
    next
      case False
      with assms(5) have "eCopy e \<noteq> CopyEnded True" by (auto simp: enc_shape_def)
      with running assms(4) have "eCancelled e \<or> eCopy e = Copying" by (cases "eCopy e") auto
      from child_can_move [OF _ closed assms(3) this assms(5)] False show ?thesis by simp
    qed
  qed
qed

lemma shape_waiting: "enc_shape e \<Longrightarrow> eCall e = Waiting kill \<Longrightarrow> \<not> eInOpen e \<and> (kill \<longrightarrow> eCancelled e)"
  by (simp add: enc_shape_def)

text \<open>While no step is a call, the call in progress stays until it returns.\<close>

lemma waiting_step:
  assumes "enc_step p cap ev e = Some e'" "\<not> is_call ev" "ended e \<or> eCall e = Waiting kill"
  shows "(ended e' \<or> eCall e' = Waiting kill) \<and> eCancelled e' = eCancelled e"
  using assms(1,2)
proof (cases rule: inner_step_cases)
  case (receive k r)
  then show ?thesis by (auto simp: ended_def)
qed (use assms(3) in \<open>auto simp: ended_def\<close>)

lemma waiting_run:
  "enc_run p cap evs e = Some e' \<Longrightarrow> \<forall>ev \<in> set evs. \<not> is_call ev \<Longrightarrow> ended e \<or> eCall e = Waiting kill \<Longrightarrow>
     (ended e' \<or> eCall e' = Waiting kill) \<and> eCancelled e' = eCancelled e"
proof (induction evs arbitrary: e)
  case (Cons ev evs)
  from Cons.prems(1) obtain e1 where e1: "enc_step p cap ev e = Some e1" "enc_run p cap evs e1 = Some e'"
    by (auto split: option.splits)
  from waiting_step [OF e1(1) _ Cons.prems(3)] Cons.prems(2) Cons.IH [OF e1(2)] show ?case by simp
qed simp

text \<open>An encoder that met no fault: nobody killed it, the file took everything, the child exits cleanly.\<close>

definition enc_healthy :: "'q encoder \<Rightarrow> bool" where
  "enc_healthy e \<longleftrightarrow> \<not> eCancelled e \<and> eCopy e \<noteq> CopyEnded False \<and> (\<forall>out ok. eChild e = Flushing out ok \<longrightarrow> ok) \<and>
     eChild e \<noteq> Exited False \<and> (eDone e = None \<or> eDone e = Some EncOk) \<and>
     set (eReturns e) \<subseteq> {WroteOk, WroteErr, Closed EncOk} \<and> eCall e \<noteq> Waiting True"

lemma healthy_step:
  assumes "enc_step p cap ev e = Some e'" "enc_healthy e" "\<not> is_fault ev" "ev \<noteq> CallKill" "\<forall>q. snd (pgEof p q)"
  shows "enc_healthy e'"
proof (cases "is_call ev")
  case True
  from assms(1) True assms(2,4) show ?thesis by (cases rule: call_step_cases) (auto simp: enc_healthy_def)
next
  case False
  from assms(1) False show ?thesis
  proof (cases rule: inner_step_cases)
    case (receive kill r)
    with assms(2) show ?thesis by (auto simp: enc_healthy_def)
  next
    case (wait_returns ok clean)
    with assms(2) show ?thesis by (auto simp: enc_healthy_def done_result_def)
  next
    case (child_eof q)
    with assms(2,5) show ?thesis by (auto simp: enc_healthy_def)
  next
    case (child_exit ok)
    with assms(2) show ?thesis by (auto simp: enc_healthy_def)
  next
    case child_dies
    with assms(2,3) show ?thesis by (auto simp: enc_healthy_def is_fault_def)
  next
    case (copy_fails n m)
    with assms(3) show ?thesis by (simp add: is_fault_def)
  qed (use assms(2) in \<open>auto simp: enc_healthy_def\<close>)
qed

lemma healthy_run:
  "enc_run p cap evs e = Some e' \<Longrightarrow> enc_healthy e \<Longrightarrow> \<forall>ev \<in> set evs. \<not> is_fault ev \<and> ev \<noteq> CallKill \<Longrightarrow>
     \<forall>q. snd (pgEof p q) \<Longrightarrow> enc_healthy e'"
proof (induction evs arbitrary: e)
  case (Cons ev evs)
  then show ?case by (auto split: option.splits dest: healthy_step)
qed simp

lemma reaches_healthy:
  "enc_reaches p cap evs e \<Longrightarrow> \<forall>ev \<in> set evs. \<not> is_fault ev \<and> ev \<noteq> CallKill \<Longrightarrow> \<forall>q. snd (pgEof p q) \<Longrightarrow> enc_healthy e"
proof -
  assume q: "\<forall>ev \<in> set evs. \<not> is_fault ev \<and> ev \<noteq> CallKill" "\<forall>q. snd (pgEof p q)" and "enc_reaches p cap evs e"
  then obtain e0 where e0: "enc_Start p True True True = Inr e0" "enc_run p cap evs e0 = Some e"
    by (auto simp: enc_reaches_def)
  from e0(1) have "enc_healthy e0" by (auto simp: enc_Start_def enc_healthy_def)
  from healthy_run [OF e0(2) this q] show ?thesis .
qed

text \<open>C32: Without a fault of the disk or the child, \<open>Close\<close> returns: after at most \<open>enc_work\<close> steps, in every schedule,
  it has returned without an error and the file holds the whole video; and as long as it has not, some process can
  move.\<close>
theorem close_returns:
  assumes "enc_reaches p cap evs e" "eCall e = Waiting False" "\<not> ended e" "0 < cap" "\<forall>q. snd (pgEof p q)"
    and "\<forall>ev \<in> set (evs @ evs'). \<not> is_fault ev \<and> ev \<noteq> CallKill" "\<forall>ev \<in> set evs'. \<not> is_call ev"
    and "enc_run p cap evs' e = Some e'"
  shows "length evs' + enc_work p e' \<le> enc_work p e \<and>
    (if ended e' then Closed EncOk \<in> set (eReturns e') \<and> eFile e' = pg_output p (enc_input evs)
     else \<exists>ev e''. \<not> is_call ev \<and> \<not> is_fault ev \<and> enc_step p cap ev e' = Some e'')"
proof -
  from reaches_inv [OF assms(1)] have inv: "enc_inv p (enc_input evs) e" and sh: "enc_shape e" by (simp_all add: enc_inv_def)
  from shape_waiting [OF sh assms(2)] have "\<not> eInOpen e" by simp
  with inv_run [OF assms(8) inv] have inv': "enc_inv p (enc_input evs) e'" by simp
  then have sh': "enc_shape e'" by (simp add: enc_inv_def)
  from healthy_run [OF assms(8) reaches_healthy [OF assms(1)]] assms(5,6) have h: "enc_healthy e'" by simp
  from waiting_run [OF assms(8,7)] assms(2) have w: "ended e' \<or> eCall e' = Waiting False" by blast
  show ?thesis
  proof (cases "ended e'")
    case True
    with h have "Closed EncOk \<in> set (eReturns e')" by (auto simp: ended_def enc_healthy_def)
    with inv' True work_run [OF assms(8,7) sh] show ?thesis by (simp add: enc_inv_def)
  next
    case False
    with w h waiting_can_move [OF _ False assms(4) _ sh'] work_run [OF assms(8,7) sh] show ?thesis
      by (simp add: enc_healthy_def)
  qed
qed

lemma kill_returns:
  assumes "enc_shape e" "eCall e = Waiting True" "\<not> ended e" "0 < cap" "\<forall>ev \<in> set evs. \<not> is_call ev"
    and "enc_run p cap evs e = Some e'" "\<not> ended e'"
  shows "length evs + enc_work p e' \<le> enc_work p e \<and>
    (\<exists>ev e''. \<not> is_call ev \<and> \<not> is_fault ev \<and> enc_step p cap ev e' = Some e'')"
proof -
  from shape_waiting [OF assms(1,2)] have "eCancelled e" by simp
  with waiting_run [OF assms(6,5)] assms(2,7) have "eCall e' = Waiting True" "eCancelled e'" by blast+
  with waiting_can_move [OF _ assms(7,4) _ shape_run [OF assms(6,1)]] work_run [OF assms(6,5,1)] show ?thesis by simp
qed

subsection \<open>After a failed copy nothing reads the child's output\<close>

definition child_pending :: "'q child \<Rightarrow> bytes" where
  "child_pending c = (case c of Running q out \<Rightarrow> out | Flushing out ok \<Rightarrow> out | Exited ok \<Rightarrow> [])"

text \<open>The goroutine has given up, the pipe is full and the child has more to write.\<close>

definition enc_stuck :: "nat \<Rightarrow> 'q encoder \<Rightarrow> bool" where
  "enc_stuck cap e \<longleftrightarrow> eCopy e = CopyEnded False \<and> \<not> eCancelled e \<and> length (eOut e) = cap \<and>
     child_pending (eChild e) \<noteq> [] \<and> eDone e = None"

lemma stuck_step:
  assumes "enc_step p cap ev e = Some e'" "enc_stuck cap e" "ev \<noteq> ChildDies" "ev \<noteq> CallKill"
  shows "enc_stuck cap e' \<and> (eCall e = Waiting False \<longrightarrow> eCall e' = Waiting False)"
proof (cases "is_call ev")
  case True
  from assms(1) True assms(2,4) show ?thesis by (cases rule: call_step_cases) (auto simp: enc_stuck_def)
next
  case False
  from assms(1) False assms(2,3) show ?thesis
    by (cases rule: inner_step_cases) (auto simp: enc_stuck_def child_pending_def)
qed

lemma waiting_no_kill: "enc_step p cap ev e = Some e' \<Longrightarrow> eCall e = Waiting k \<Longrightarrow> ev \<noteq> CallKill"
  by auto

text \<open>C33: When writing the segment file fails (a full disk), the goroutine stops reading the child's output and waits
  for the child to exit, while the child waits for its output to be read: a \<open>Close\<close> of that encoder never returns,
  however long the processes run, unless the child dies by itself. The recorder's loop, and with it its shutdown,
  waits for that \<open>Close\<close>.\<close>
theorem failed_copy_hangs_close:
  assumes "enc_stuck cap e" "eCall e = Idle" "ChildDies \<notin> set evs" "enc_run p cap (CallClose # evs) e = Some e'"
  shows "eCall e' = Waiting False \<and> eDone e' = None"
proof -
  have "enc_stuck cap e' \<and> eCall e' = Waiting False"
    if "enc_run p cap evs e1 = Some e'" "ChildDies \<notin> set evs" "enc_stuck cap e1" "eCall e1 = Waiting False" for e1
    using that
  proof (induction evs arbitrary: e1)
    case (Cons ev evs)
    then obtain e2 where e2: "enc_step p cap ev e1 = Some e2" "enc_run p cap evs e2 = Some e'"
      by (auto split: option.splits)
    from waiting_no_kill [OF e2(1) Cons.prems(4)] stuck_step [OF e2(1) Cons.prems(3)] Cons.prems(2,4)
    have "enc_stuck cap e2" "eCall e2 = Waiting False" by auto
    with Cons.IH [OF e2(2)] Cons.prems(2) show ?case by simp
  qed simp
  moreover from assms(1,2,4) have "enc_run p cap evs (enc_Close e) = Some e'" "enc_stuck cap (enc_Close e)"
    "eCall (enc_Close e) = Waiting False" by (simp_all add: enc_Close_def enc_stuck_def)
  ultimately show ?thesis using assms(3) by (simp add: enc_stuck_def)
qed

subsection \<open>A small child, run\<close>

text \<open>A child that writes two bytes for each byte it reads, and one at the end.\<close>

definition doubler :: "unit program" where
  "doubler = \<lparr>pgStart = (), pgByte = \<lambda>q b. ((), [b, b]), pgEof = \<lambda>q. ([0], True)\<rparr>"

definition doubler_start :: "unit encoder" where
  "doubler_start = \<lparr>eIn = [], eInOpen = True, eChild = Running () [], eOut = [], eCopy = Copying, eFile = [],
     eDone = None, eCancelled = False, eCall = Idle, eReturns = []\<rparr>"

lemma doubler_reaches: "enc_run doubler cap evs doubler_start = Some e \<Longrightarrow> enc_reaches doubler cap evs e"
  by (simp add: enc_reaches_def enc_Start_def doubler_start_def doubler_def)

definition close_evs :: "enc_event list" where
  "close_evs = [CallWrite [7], Put 1, ChildRead 1, ChildWrite 2, CallClose]"

definition finish_evs :: "enc_event list" where
  "finish_evs = [ChildEof, CopyRead 2, ChildWrite 1, ChildExit, CopyRead 1, CopyEof, WaitReturns, Receive]"

definition closing_encoder :: "unit encoder" where
  "closing_encoder = \<lparr>eIn = [], eInOpen = False, eChild = Running () [], eOut = [7, 7], eCopy = Copying, eFile = [],
     eDone = None, eCancelled = False, eCall = Waiting False, eReturns = [WroteOk]\<rparr>"

definition closed_encoder :: "unit encoder" where
  "closed_encoder = \<lparr>eIn = [], eInOpen = False, eChild = Exited True, eOut = [], eCopy = Finished, eFile = [7, 7, 0],
     eDone = None, eCancelled = False, eCall = Idle, eReturns = [WroteOk, Closed EncOk]\<rparr>"

lemma closing_run: "enc_run doubler 2 close_evs doubler_start = Some closing_encoder"
  by (simp add: close_evs_def doubler_start_def doubler_def closing_encoder_def step_defs)

lemma closed_run: "enc_run doubler 2 finish_evs closing_encoder = Some closed_encoder"
  by (simp add: finish_evs_def doubler_def closing_encoder_def closed_encoder_def step_defs)

lemma closed_reaches: "enc_reaches doubler 2 (close_evs @ finish_evs) closed_encoder"
  by (rule doubler_reaches) (simp add: enc_run_append closing_run closed_run)

theorem closed_video_complete_witness: "pg_output doubler [7] = [7, 7, 0]"
  using closed_video_complete [OF closed_reaches]
  by (simp add: closed_encoder_def close_evs_def finish_evs_def)

theorem close_returns_witness:
  "length finish_evs + enc_work doubler closed_encoder \<le> enc_work doubler closing_encoder \<and>
   Closed EncOk \<in> set (eReturns closed_encoder) \<and> eFile closed_encoder = pg_output doubler [7]"
proof -
  have f: "\<forall>ev\<in>set (close_evs @ finish_evs). \<not> is_fault ev \<and> ev \<noteq> CallKill" "\<forall>ev\<in>set finish_evs. \<not> is_call ev"
    by (simp_all add: close_evs_def finish_evs_def is_fault_def)
  have e: "eCall closing_encoder = Waiting False" "\<not> ended closing_encoder" "ended closed_encoder"
    "\<forall>q. snd (pgEof doubler q)"
    by (simp_all add: closing_encoder_def closed_encoder_def ended_def doubler_def)
  from close_returns [OF doubler_reaches [OF closing_run] e(1,2) _ e(4) f closed_run] e(3)
  show ?thesis by (simp add: close_evs_def)
qed

text \<open>The child reads two bytes and fills the pipe of two; the file takes none of them.\<close>

definition failing_evs :: "enc_event list" where
  "failing_evs = [CallWrite [7, 8], Put 2, ChildRead 2, ChildWrite 2, CopyFails 1 0, ChildWrite 1]"

definition failing_encoder :: "unit encoder" where
  "failing_encoder = \<lparr>eIn = [], eInOpen = True, eChild = Running () [8], eOut = [7, 8], eCopy = CopyEnded False,
     eFile = [], eDone = None, eCancelled = False, eCall = Idle, eReturns = [WroteOk]\<rparr>"

lemma failing_run: "enc_run doubler 2 failing_evs doubler_start = Some failing_encoder"
  by (simp add: failing_evs_def doubler_start_def doubler_def failing_encoder_def step_defs)

theorem failed_copy_hangs_close_witness:
  "enc_reaches doubler 2 failing_evs failing_encoder \<and>
   \<not> (\<exists>evs e'. ChildDies \<notin> set evs \<and> enc_run doubler 2 (CallClose # evs) failing_encoder = Some e' \<and> eCall e' \<noteq> Waiting False)"
proof -
  have "enc_stuck 2 failing_encoder" "eCall failing_encoder = Idle"
    by (simp_all add: failing_encoder_def enc_stuck_def child_pending_def)
  note h = failed_copy_hangs_close [OF this]
  have "False" if "ChildDies \<notin> set evs" "enc_run doubler 2 (CallClose # evs) failing_encoder = Some e'" "eCall e' \<noteq> Waiting False" for evs e'
    using h [OF that(1,2)] that(3) by simp
  with doubler_reaches [OF failing_run] show ?thesis by blast
qed

end
