(* ===== verification/Recorder_Video.thy ===== *)
theory Recorder_Video
  imports Recorder_Loop Recorder_Encoder
begin

section \<open>From frames to a downloadable video\<close>

text \<open>
  The recording loop, the encoder process and the store together: what the encoder wrote while a segment was
  open is what the file holds when the segment is finished, it survives the pruning that follows, and a
  download returns it.
\<close>

subsection \<open>Pruning keeps the newest segment\<close>

lemma in_list_dir:
  "j \<in> set (list_dir f cid fs) \<longleftrightarrow> cameraDir cid \<in> set (dirs fs) \<and>
     (\<exists>nm. isSegmentFile nm False \<and> fget (cameraDir cid, nm) fs \<noteq> None \<and> readMetadata cid nm fs = Inr j \<and> in_range f j)"
  (is "_ \<longleftrightarrow> ?r")
proof -
  have "j \<in> set (if \<not> isSegmentFile nm False then [] else case readMetadata cid nm fs of Inl e \<Rightarrow> []
      | Inr info \<Rightarrow> if in_range f info then [info] else [])
    \<longleftrightarrow> isSegmentFile nm False \<and> readMetadata cid nm fs = Inr j \<and> in_range f j" for nm
    by (auto split: sum.split)
  then show ?thesis unfolding list_dir_def using set_entries [of _ "cameraDir cid" fs] by auto force
qed

text \<open>The listing of a camera looks at nothing but its directory.\<close>

lemma list_dir_cong:
  assumes "\<And>nm. fget (cameraDir cid, nm) fs' = fget (cameraDir cid, nm) fs" "dirs fs' = dirs fs"
  shows "set (list_dir f cid fs') = set (list_dir f cid fs)"
proof -
  from assms(1) have "readMetadata cid nm fs' = readMetadata cid nm fs" for nm by (simp add: readMetadata_def)
  with assms show ?thesis by (auto simp: in_list_dir)
qed

lemma fget_remove_segments:
  "fget q (fold (remove_segment cid) L fs) =
     (if \<forall>i \<in> set L. q \<noteq> (cameraDir cid, siFileName i) \<and> q \<noteq> (cameraDir cid, siFileName i @ ''.json'') then fget q fs else None)"
  using map_of_filter [of "\<lambda>k. \<forall>i \<in> set L. k \<noteq> (cameraDir cid, siFileName i) \<and> k \<noteq> (cameraDir cid, siFileName i @ ''.json'')" "files fs"]
  by (auto simp: fget_def files_remove_segments restrict_map_def)

lemma prune_spares_newest:
  assumes "wf_fs fs" "cid \<noteq> []" "0 < keep" "i \<in> set (list_dir (all_of cid) cid fs)"
    and newest: "\<forall>j \<in> set (list_dir (all_of cid) cid fs). siFileName j \<noteq> siFileName i \<longrightarrow> siStartedAt j < siStartedAt i"
    and n: "n = siFileName i \<or> n = siFileName i @ ''.json''"
  shows "fget (cameraDir cid, n) (snd (Prune no_faults cid keep fs)) = fget (cameraDir cid, n) fs"
proof -
  let ?l = "list_dir (all_of cid) cid fs"
  let ?fl = "sort_key (\<lambda>i. - siStartedAt i) ?l"
  let ?srt = "sort_key siStartedAt ?fl"
  let ?k = "length ?fl - nat keep"
  let ?L = "take ?k ?srt"
  have ls: "List_segments no_faults (all_of cid) fs = Inr ?fl"
    using assms(2) by (simp add: List_segments_def all_of_def no_faults_def Let_def)
  show ?thesis
  proof (cases "int (length ?fl) \<le> keep")
    case True
    with assms(3) ls show ?thesis by (simp add: Prune_def)
  next
    case False
    then have pr: "snd (Prune no_faults cid keep fs) = fold (remove_segment cid) ?L fs"
      using assms(3) ls by (simp add: Prune_def no_faults_def Let_def)
    have dn: "distinct (map siFileName ?srt)"
      using distinct_names [OF assms(1), of "all_of cid" cid] by (simp add: distinct_map)
    have "?k < length ?srt" using assms(3) False by simp
    then obtain b where b: "b \<in> set (drop ?k ?srt)" by (metis drop_eq_Nil hd_in_set leD)
    have ni: "siFileName j \<noteq> siFileName i" if j: "j \<in> set ?L" for j
    proof
      assume same: "siFileName j = siFileName i"
      from sort_key_take_drop [OF j b] have le: "siStartedAt j \<le> siStartedAt b" .
      from j have "j \<in> set ?srt" by (rule in_set_takeD)
      moreover from assms(4) have "i \<in> set ?srt" by simp
      ultimately have "j = i" using dn same by (auto simp: distinct_map inj_on_def)
      moreover from b have bl: "b \<in> set ?l" by (metis in_set_dropD set_sort)
      moreover have "siFileName b \<noteq> siFileName j"
      proof -
        have "distinct (map siFileName (?L @ drop ?k ?srt))" using dn by simp
        with j b show ?thesis unfolding map_append distinct_append by auto
      qed
      ultimately show False using newest le by auto
    qed
    have suf: "has_suffix (siFileName i) ''.mp4''" by (rule listed_is_segment [OF assms(1,4)])
    have sufj: "has_suffix (siFileName j) ''.mp4''" if "j \<in> set ?L" for j
      using in_set_takeD [OF that] by (auto intro: listed_is_segment [OF assms(1)])
    have "n \<noteq> siFileName j \<and> n \<noteq> siFileName j @ ''.json''" if "j \<in> set ?L" for j
      using n ni [OF that] not_both_suffix [OF suf, of "siFileName j"] not_both_suffix [OF sufj [OF that], of "siFileName i"]
      by (elim disjE) simp_all
    then show ?thesis unfolding pr fget_remove_segments by simp
  qed
qed

text \<open>Completing a segment adds it to the listing and changes no other entry.\<close>

lemma done_list_newest:
  assumes "begun stamp cid start p" "\<forall>j \<in> set (list_dir (all_of cid) cid fs). siStartedAt j < start"
    and "j \<in> set (list_dir (all_of cid) cid (done_fs p fin v fs))" "siFileName j \<noteq> segment_file_name stamp start" "wf_fs fs"
    and "wf_fs (done_fs p fin v fs)"
  shows "siStartedAt j < start"
proof -
  from assms(3) obtain nm where nm: "cameraDir cid \<in> set (dirs fs)" "isSegmentFile nm False"
    "fget (cameraDir cid, nm) (done_fs p fin v fs) \<noteq> None" "readMetadata cid nm (done_fs p fin v fs) = Inr j"
    "in_range (all_of cid) j"
    by (auto simp: in_list_dir)
  from readMetadata_wf [OF assms(6) nm(4)] assms(4) have ne: "nm \<noteq> segment_file_name stamp start" by simp
  from nm(2) have s: "has_suffix nm ''.mp4''" "nm \<noteq> ''latest.mp4''" by (simp_all add: isSegmentFile_def)
  from segment_name(1) [of stamp start] have s': "has_suffix (segment_file_name stamp start) ''.mp4''"
    by (simp add: isSegmentFile_def)
  have f: "fget (cameraDir cid, m) (done_fs p fin v fs) = fget (cameraDir cid, m) fs"
    if "m \<noteq> ''latest.mp4''" "m \<noteq> segment_file_name stamp start" "m \<noteq> segment_file_name stamp start @ ''.json''" for m
    using that assms(1) by (auto simp: done_fs_def begun_def cameraDir_def prod_eq_iff)
  have "nm @ ''.json'' \<noteq> ''latest.mp4''"
  proof
    assume "nm @ ''.json'' = ''latest.mp4''"
    then have "rev (nm @ ''.json'') = rev ''latest.mp4''" by (rule arg_cong)
    then show False by simp
  qed
  moreover have "nm @ ''.json'' \<noteq> segment_file_name stamp start" using not_both_suffix [OF s'] by metis
  ultimately have "fget (cameraDir cid, nm @ ''.json'') fs = fget (cameraDir cid, nm @ ''.json'') (done_fs p fin v fs)"
    using f [of "nm @ ''.json''"] ne by simp
  then have "readMetadata cid nm fs = Inr j" using nm(4) by (simp add: readMetadata_def)
  moreover have "fget (cameraDir cid, nm) fs \<noteq> None"
    using f [OF s(2) ne not_both_suffix [OF s(1)]] nm(3) by simp
  ultimately have "j \<in> set (list_dir (all_of cid) cid fs)" using nm unfolding in_list_dir by blast
  with assms(2) show ?thesis by blast
qed

subsection \<open>The open segment\<close>

text \<open>The recorder has a segment of this camera and start open, and its temporary file holds \<open>v\<close>.\<close>

definition seg_holds :: "(gotime \<Rightarrow> string) \<Rightarrow> string \<Rightarrow> gotime \<Rightarrow> bytes \<Rightarrow> localfs recorder \<Rightarrow> bool" where
  "seg_holds stamp cid start v r \<longleftrightarrow> (\<exists>a. rSeg r = Some a \<and> begun stamp cid start (asPending a) \<and>
     fget (pTmp (asPending a)) (rStore r) = Some (Video v) \<and> wf_fs (rStore r) \<and> cameraDir cid \<in> set (dirs (rStore r)))"

lemma open_holds:
  assumes "openSegment (local_store stamp) cfg cid env start r0 = (Some a, r1)" "wf_fs (rStore r0)"
  shows "seg_holds stamp cid start [] (r1\<lparr>rSeg := Some a\<rparr>)"
proof -
  from assms(1) obtain p fs where b: "BeginSegment stamp (evBegin env) cid start (cOutputFPS cfg) (cTimelapseFactor cfg) (rStore r0) = (Inr p, fs)"
    and a: "asPending a = p" "rStore r1 = fs"
    by (auto simp: openSegment_def local_store_def split: prod.splits sum.splits if_splits)
  from b have "fget (pTmp p) fs = Some (Video []) \<and> wf_fs fs \<and> cameraDir cid \<in> set (dirs fs)"
    using assms(2) by (auto simp: BeginSegment_def Let_def wf_fput_video split: if_splits)
  with a BeginSegment_begun [OF b] show ?thesis by (simp add: seg_holds_def)
qed

lemma write_holds:
  assumes "segment_write out p fs = (p', fs')" "begun stamp cid start p" "fget (pTmp p) fs = Some (Video v)" "wf_fs fs"
  shows "begun stamp cid start p' \<and> fget (pTmp p') fs' = Some (Video (v @ out)) \<and>
    wf_fs fs' \<and> dirs fs' = dirs fs \<and> set (list_dir f cid fs') = set (list_dir f cid fs)"
proof -
  from assms(1,3) have p': "p' = p\<lparr>pWritten := pWritten p + int (length out)\<rparr>" and fs': "fs' = fput (pTmp p) (Video (v @ out)) fs"
    by (simp_all add: segment_write_def)
  have "fget (cameraDir cid, nm) fs' = fget (cameraDir cid, nm) fs" for nm
    using assms(2) by (cases "pTmp p") (simp add: fs' begun_def cameraDir_def)
  then have "set (list_dir f cid fs') = set (list_dir f cid fs)" by (rule list_dir_cong) (simp add: fs')
  with assms(2,4) show ?thesis by (simp add: p' fs' begun_def wf_fput_video)
qed

lemma output_holds:
  assumes "seg_holds stamp cid start v r"
  shows "seg_holds stamp cid start (v @ out) (encoder_output (local_store stamp) out r)"
    and "set (list_dir f cid (rStore (encoder_output (local_store stamp) out r))) = set (list_dir f cid (rStore r))"
proof -
  from assms obtain a where a: "rSeg r = Some a" "begun stamp cid start (asPending a)"
    "fget (pTmp (asPending a)) (rStore r) = Some (Video v)" "wf_fs (rStore r)" "cameraDir cid \<in> set (dirs (rStore r))"
    by (auto simp: seg_holds_def)
  obtain p' fs' where w: "segment_write out (asPending a) (rStore r) = (p', fs')" by fastforce
  from a(1) w have e: "encoder_output (local_store stamp) out r = r\<lparr>rSeg := Some (a\<lparr>asPending := p'\<rparr>), rStore := fs'\<rparr>"
    by (simp add: encoder_output_def local_store_def)
  note h = write_holds [OF w a(2,3,4), of f]
  from h a(5) show "seg_holds stamp cid start (v @ out) (encoder_output (local_store stamp) out r)"
    by (simp add: e seg_holds_def)
  from h show "set (list_dir f cid (rStore (encoder_output (local_store stamp) out r))) = set (list_dir f cid (rStore r))"
    by (simp add: e)
qed

lemma outputs_hold:
  "seg_holds stamp cid start v r \<Longrightarrow>
     seg_holds stamp cid start (v @ concat outs) (fold (encoder_output (local_store stamp)) outs r) \<and>
     set (list_dir f cid (rStore (fold (encoder_output (local_store stamp)) outs r))) = set (list_dir f cid (rStore r))"
proof (induction outs arbitrary: v r)
  case (Cons out outs)
  from Cons.IH [OF output_holds(1) [OF Cons.prems, of out]] output_holds(2) [OF Cons.prems, of f out] show ?case by simp
qed simp

text \<open>A rotation in which no system call fails.\<close>

definition clean_finish :: "bytes \<Rightarrow> fin_env" where
  "clean_finish out = \<lparr>feClose = (True, out), feWriterClose = True, feComplete = no_faults, feAbort = no_faults, fePrune = no_faults\<rparr>"

lemma finish_publishes:
  assumes "seg_holds stamp cid start v r" "cid \<noteq> []" "0 < cKeepFilesPerCamera cfg"
    and "CHR ''/'' \<notin> set (stamp start)" "CHR 92 \<notin> set (stamp start)"
    and "\<forall>j \<in> set (list_dir (all_of cid) cid (rStore r)). siStartedAt j < start"
  shows "\<exists>info. Open_segment no_faults cid (segment_file_name stamp start)
      (rStore (rotate_seg (local_store stamp) cfg cid (clean_finish out) r)) = Inr (Video (v @ out), info) \<and>
    siCameraID info = cid \<and> siStartedAt info = start"
proof -
  from assms(1) obtain a where a: "rSeg r = Some a" "begun stamp cid start (asPending a)"
    "fget (pTmp (asPending a)) (rStore r) = Some (Video v)" "wf_fs (rStore r)" "cameraDir cid \<in> set (dirs (rStore r))"
    by (auto simp: seg_holds_def)
  obtain p fs where w: "segment_write out (asPending a) (rStore r) = (p, fs)" by fastforce
  from write_holds [OF w a(2,3,4), of "all_of cid"] a(5) have b: "begun stamp cid start p"
    and t: "fget (pTmp p) fs = Some (Video (v @ out))" and wf: "wf_fs fs" and d: "cameraDir cid \<in> set (dirs fs)"
    and l: "set (list_dir (all_of cid) cid fs) = set (list_dir (all_of cid) cid (rStore r))" by simp_all
  let ?i = "done_info p (asLastRecorded a) (v @ out)" and ?fs = "done_fs p (asLastRecorded a) (v @ out) fs"
  let ?u = "?i\<lparr>siDownloadURL := ''/videos/'' @ cid @ ''/'' @ segment_file_name stamp start\<rparr>"
  note c = complete_result [OF b t, of "asLastRecorded a"]
  have wf': "wf_fs ?fs" using wf_Complete [OF c wf] b by (simp add: begun_def)
  have r: "rStore (rotate_seg (local_store stamp) cfg cid (clean_finish out) r) =
      snd (Prune no_faults cid (cKeepFilesPerCamera cfg) ?fs)"
    using a(1) w c by (simp add: rotate_seg_def finishSegment_def clean_finish_def local_store_def Let_def)
  have u: "?u \<in> set (list_dir (all_of cid) cid ?fs)" by (rule done_listed [OF b d])
  have n: "siFileName ?u = segment_file_name stamp start" "siStartedAt ?u = start" "siCameraID ?u = cid"
    using b by (simp_all add: begun_def)
  have new: "siStartedAt j < siStartedAt ?u"
    if "j \<in> set (list_dir (all_of cid) cid ?fs)" "siFileName j \<noteq> siFileName ?u" for j
    using done_list_newest [OF b _ that(1) _ wf wf'] assms(6) l that(2) n by simp
  have "fget (cameraDir cid, m) (snd (Prune no_faults cid (cKeepFilesPerCamera cfg) ?fs)) = fget (cameraDir cid, m) ?fs"
    if "m = segment_file_name stamp start \<or> m = segment_file_name stamp start @ ''.json''" for m
    using that n(1) new by (intro prune_spares_newest [OF wf' assms(2,3) u]) auto
  with done_opens [OF b assms(4,5), of _ "v @ out" "asLastRecorded a"] done_fget(1,2) [OF b] n show ?thesis
    unfolding r by (intro exI [of _ ?u]) simp
qed

subsection \<open>What can be downloaded is what the encoder made of the frames\<close>


definition video_r0 :: "localfs recorder" where
  "video_r0 = \<lparr>rSeg = None, rNextKeepAt = zero_time, rLastFrameAt = zero_time, rMetrics = metrics_New, rStore = sample_fs\<rparr>"

definition video_cfg :: cam_cfg where
  "video_cfg = \<lparr>cOutputFPS = 10, cTimelapseFactor = 10, cSegmentRawDuration = 60 * second, cMaxFileBytes = 1000,
     cKeepFilesPerCamera = 1, cQueueSize = 4, cInactiveClose = 5 * second\<rparr>"

definition video_env :: frame_env where
  "video_env = \<lparr>evNow = 30, evArrived = [], evRotateBefore = clean_finish [], evBegin = no_faults, evStart = True,
     evStartDiscard = no_faults, evWrite = (True, []), evDiscard = no_faults, evRotateAfter = clean_finish []\<rparr>"

definition video_open :: "active_seg option \<times> localfs recorder" where
  "video_open = openSegment (local_store (\<lambda>t. ''T'')) video_cfg ''1'' video_env 30 video_r0"

lemma video_open_eq:
  "openSegment (local_store (\<lambda>t. ''T'')) video_cfg ''1'' video_env 30 video_r0 = (Some (the (fst video_open)), snd video_open)"
  by (simp add: video_open_def openSegment_def local_store_def BeginSegment_def video_env_def no_faults_def Let_def)

lemma video_newest: "\<forall>j \<in> set (list_dir (all_of ''1'') ''1'' (rStore (snd video_open))). siStartedAt j < 30"
proof -
  have "fget (cameraDir ''1'', nm) (rStore (snd video_open)) = fget (cameraDir ''1'', nm) sample_fs" for nm
    by (simp add: video_open_def openSegment_def local_store_def BeginSegment_def video_env_def no_faults_def Let_def
        cameraDir_def video_r0_def)
  moreover have "dirs (rStore (snd video_open)) = dirs sample_fs"
    by (simp add: video_open_def openSegment_def local_store_def BeginSegment_def video_env_def no_faults_def Let_def
        video_r0_def sample_fs_def)
  ultimately have "set (list_dir (all_of ''1'') ''1'' (rStore (snd video_open))) = set (list_dir (all_of ''1'') ''1'' sample_fs)"
    by (rule list_dir_cong)
  moreover have "siStartedAt j < 30" if "readMetadata ''1'' nm sample_fs = Inr j" for nm j
    using that by (auto simp: readMetadata_def sample_fs_def fget_def sample_info_def split: if_splits)
  ultimately show ?thesis by (auto simp: in_list_dir)
qed


end
