(* ===== verification/Go_Float.thy ===== *)
theory Go_Float
  imports Complex_Main
begin

section \<open>Floating point\<close>

text \<open>
  Go's \<open>float32\<close> and \<open>float64\<close> as rationals, each operation's exact result rounded to the
  nearest number of 24 or 53 significant bits, ties to even. Exponents are unbounded, so overflow to an
  infinity, NaN and gradual underflow are not represented. The lemmas bound the rounding error; that the
  scaled significand has \<open>p\<close> bits is \<open>scaled_bounds\<close>.
\<close>

fun bits :: "nat \<Rightarrow> nat" where
  "bits n = (if n = 0 then 0 else Suc (bits (n div 2)))"

declare bits.simps [simp del]

definition pow2 :: "int \<Rightarrow> rat" where
  "pow2 e = (if 0 \<le> e then 2 ^ nat e else 1 / 2 ^ nat (- e))"

definition round_even :: "rat \<Rightarrow> int" where
  "round_even q =
     (let f = \<lfloor>q\<rfloor>; r = q - of_int f
      in if r < 1 / 2 then f else if 1 / 2 < r then f + 1 else if even f then f else f + 1)"

text \<open>The exponent of the last of \<open>p\<close> significant bits of \<open>x\<close>.\<close>

definition last_bit :: "nat \<Rightarrow> rat \<Rightarrow> int" where
  "last_bit p x =
     (let (n, d) = quotient_of x; e = int (bits (nat n)) - int (bits (nat d)) - int p
      in if 2 ^ p \<le> x / pow2 e then e + 1 else e)"

definition round_bits :: "nat \<Rightarrow> rat \<Rightarrow> rat" where
  "round_bits p x =
     (if x = 0 then 0
      else let e = last_bit p \<bar>x\<bar> in sgn x * of_int (round_even (\<bar>x\<bar> / pow2 e)) * pow2 e)"

definition fl32 :: "rat \<Rightarrow> rat" where "fl32 = round_bits 24"
definition fl64 :: "rat \<Rightarrow> rat" where "fl64 = round_bits 53"

text \<open>Conversion to an integer type truncates towards zero.\<close>

definition f_trunc :: "rat \<Rightarrow> int" where
  "f_trunc x = (if 0 \<le> x then \<lfloor>x\<rfloor> else \<lceil>x\<rceil>)"

lemma pow2_pos [simp]: "0 < pow2 e"
  by (simp add: pow2_def)

lemma pow2_nz [simp]: "pow2 e \<noteq> 0"
  using pow2_pos [of e] by linarith

lemma pow2_diff: "pow2 (int a - int b) = 2 ^ a / 2 ^ b"
proof (cases "b \<le> a")
  case True
  then have "nat (int a - int b) = a - b" by simp
  with True show ?thesis by (simp add: pow2_def power_diff)
next
  case False
  then have "nat (- (int a - int b)) = b - a" by simp
  with False show ?thesis by (simp add: pow2_def power_diff)
qed

lemma pow2_Suc: "pow2 (e + 1) = 2 * pow2 e"
proof (cases "0 \<le> e")
  case True
  then show ?thesis by (simp add: pow2_def nat_add_distrib)
next
  case False
  then obtain k where k: "nat (- e) = Suc k" by (cases "nat (- e)") auto
  then have "nat (- (e + 1)) = k" by simp
  moreover have "0 \<le> e + 1 \<longleftrightarrow> k = 0" using False k by auto
  ultimately show ?thesis using False k by (auto simp: pow2_def)
qed

lemma pow2_minus_nat: "pow2 (e - int p) = pow2 e / 2 ^ p"
proof (induction p)
  case (Suc p)
  have "pow2 (e - int p) = 2 * pow2 (e - int (Suc p))" using pow2_Suc [of "e - int (Suc p)"] by simp
  with Suc show ?case by simp
qed simp

lemma round_even_err: "\<bar>of_int (round_even q) - q\<bar> \<le> 1 / 2"
  using floor_correct [of q] by (auto simp: round_even_def Let_def abs_le_iff)

lemma bits_bounds: "0 < n \<Longrightarrow> 2 ^ (bits n - 1) \<le> n \<and> n < 2 ^ bits n \<and> 0 < bits n"
proof (induction n rule: bits.induct)
  case (1 n)
  show ?case
  proof (cases "n div 2 = 0")
    case True
    with 1 have "n = 1" by (cases n) auto
    then show ?thesis by (simp add: bits.simps)
  next
    case False
    with 1 have ih: "2 ^ (bits (n div 2) - 1) \<le> n div 2" "n div 2 < 2 ^ bits (n div 2)" "0 < bits (n div 2)" by auto
    have b: "bits n = Suc (bits (n div 2))" using 1 by (subst bits.simps) simp
    from ih(1) have "2 * 2 ^ (bits (n div 2) - 1) \<le> n" by linarith
    moreover have "(2::nat) * 2 ^ (bits (n div 2) - 1) = 2 ^ bits (n div 2)"
      using ih(3) by (metis Suc_diff_1 power_Suc)
    moreover from ih(2) have "n < 2 * 2 ^ bits (n div 2)" by linarith
    ultimately show ?thesis by (simp add: b)
  qed
qed

lemma nat_pow_le: "2 ^ k \<le> nat z \<Longrightarrow> 0 < z \<Longrightarrow> (2::rat) ^ k \<le> of_int z"
proof -
  assume "2 ^ k \<le> nat z" "0 < z"
  then have "(2::int) ^ k \<le> z" by (simp add: le_nat_iff)
  then have "of_int ((2::int) ^ k) \<le> (of_int z :: rat)" by (simp only: of_int_le_iff)
  then show ?thesis by simp
qed

lemma nat_less_pow: "nat z < 2 ^ k \<Longrightarrow> 0 < z \<Longrightarrow> of_int z < (2::rat) ^ k"
proof -
  assume "nat z < 2 ^ k" "0 < z"
  then have "z < (2::int) ^ k" by (simp add: nat_less_iff)
  then have "(of_int z :: rat) < of_int ((2::int) ^ k)" by (simp only: of_int_less_iff)
  then show ?thesis by simp
qed

lemma scaled_bounds:
  assumes "0 < x" "0 < p"
  shows "2 ^ (p - 1) \<le> x / pow2 (last_bit p x) \<and> x / pow2 (last_bit p x) < 2 ^ p"
proof -
  obtain n d where nd: "quotient_of x = (n, d)" by fastforce
  then have d: "0 < d" and x: "x = of_int n / of_int d" using quotient_of_denom_pos quotient_of_div by blast+
  with assms have n: "0 < n" by (simp add: zero_less_divide_iff)
  define a b where "a = bits (nat n)" and "b = bits (nat d)"
  from bits_bounds [of "nat n"] n have a: "2 ^ (a - 1) \<le> nat n" "nat n < 2 ^ a" "0 < a" by (simp_all add: a_def)
  from bits_bounds [of "nat d"] d have b: "2 ^ (b - 1) \<le> nat d" "nat d < 2 ^ b" "0 < b" by (simp_all add: b_def)
  have up: "(2::rat) ^ k = 2 * 2 ^ (k - 1)" if "0 < k" for k using that by (cases k) auto
  have A: "(2::rat) ^ (a - 1) \<le> of_int n" "of_int n < (2::rat) ^ a"
    using nat_pow_le [OF a(1)] nat_less_pow [OF a(2)] n by simp_all
  have B: "(2::rat) ^ (b - 1) \<le> of_int d" "of_int d < (2::rat) ^ b"
    using nat_pow_le [OF b(1)] nat_less_pow [OF b(2)] d by simp_all
  define e where "e = int a - int b - int p"
  define y where "y = x / pow2 e"
  have pe: "pow2 e = 2 ^ a / 2 ^ b / 2 ^ p" by (simp add: e_def pow2_minus_nat) (simp add: pow2_def)
  have y: "y = (of_int n / 2 ^ a) * (2 ^ b / of_int d) * 2 ^ p" by (simp add: y_def x pe mult.commute)
  have d0: "(0::rat) < of_int d" using d by simp
  have n1: "1 / 2 \<le> of_int n / (2::rat) ^ a" "of_int n / (2::rat) ^ a < 1" using A up [OF a(3)] by (simp_all add: field_simps)
  have d1: "1 \<le> (2::rat) ^ b / of_int d" "(2::rat) ^ b / of_int d \<le> 2" using B up [OF b(3)] d0 by (simp_all add: field_simps)
  define z where "z = (of_int n / 2 ^ a) * ((2::rat) ^ b / of_int d)"
  have z1: "1 / 2 * 1 \<le> z"
    unfolding z_def
  proof (rule mult_mono)
    show "0 \<le> rat_of_int n / 2 ^ a" using n1 by linarith
  qed (use d1 n1 in linarith)+
  have z2: "z < 1 * 2"
    unfolding z_def
  proof (rule mult_less_le_imp_less)
    show "0 \<le> rat_of_int n / 2 ^ a" using n1 by linarith
  qed (use d1 n1 in linarith)+
  have yz: "y = z * 2 ^ p" by (simp add: y z_def)
  have P: "(0::rat) < 2 ^ p" by simp
  have "1 / 2 * 2 ^ p \<le> y" unfolding yz by (rule mult_right_mono) (use z1 in simp_all)
  moreover have "y < 2 * 2 ^ p" unfolding yz using z2 mult_strict_right_mono [of z 2 "2 ^ p"] by simp
  ultimately have ye: "2 ^ p / 2 \<le> y" "y < 2 * 2 ^ p" by simp_all
  have pp: "(2::rat) ^ p / 2 = 2 ^ (p - 1)" using up [OF assms(2)] by simp
  have lb: "last_bit p x = (if 2 ^ p \<le> y then e + 1 else e)"
    by (simp add: last_bit_def nd a_def [symmetric] b_def [symmetric] e_def [symmetric] y_def)
  have y2: "x / pow2 (e + 1) = y / 2" by (simp add: pow2_Suc y_def)
  show ?thesis using ye pp by (simp add: lb y2 flip: y_def)
qed

lemma round_bits_err:
  assumes "0 < p"
  shows "\<bar>round_bits p x - x\<bar> * 2 ^ p \<le> \<bar>x\<bar>"
proof (cases "x = 0")
  case True
  then show ?thesis by (simp add: round_bits_def)
next
  case False
  define e q where "e = last_bit p \<bar>x\<bar>" and "q = \<bar>x\<bar> / pow2 e"
  have q: "2 ^ (p - 1) \<le> q" using scaled_bounds [of "\<bar>x\<bar>" p] False assms by (simp add: q_def e_def)
  have xq: "x = sgn x * q * pow2 e" by (simp add: q_def sgn_mult_abs)
  have r: "round_bits p x = sgn x * of_int (round_even q) * pow2 e" using False by (simp add: round_bits_def Let_def q_def e_def)
  have "round_bits p x - x = sgn x * (of_int (round_even q) - q) * pow2 e"
    by (subst (2) xq) (simp add: r algebra_simps)
  then have "\<bar>round_bits p x - x\<bar> = \<bar>of_int (round_even q) - q\<bar> * pow2 e"
    using False by (simp add: abs_mult abs_sgn_eq less_imp_le)
  also have "\<dots> \<le> 1 / 2 * pow2 e" using round_even_err [of q] by (intro mult_right_mono) (auto simp: less_imp_le)
  finally have "\<bar>round_bits p x - x\<bar> * 2 ^ p \<le> 1 / 2 * pow2 e * 2 ^ p" by (intro mult_right_mono) auto
  also have "\<dots> = 2 ^ (p - 1) * pow2 e" using assms by (cases p) auto
  also have "\<dots> \<le> q * pow2 e" using q by (intro mult_right_mono) (auto simp: less_imp_le)
  also have "\<dots> = \<bar>x\<bar>" by (simp add: q_def)
  finally show ?thesis .
qed

lemma fl64_err: "\<bar>fl64 x - x\<bar> * 2 ^ 53 \<le> \<bar>x\<bar>" and fl32_err: "\<bar>fl32 x - x\<bar> * 2 ^ 24 \<le> \<bar>x\<bar>"
  unfolding fl64_def fl32_def by (rule round_bits_err, simp)+

lemma fl64_nonneg: "0 \<le> x \<Longrightarrow> 0 \<le> fl64 x"
  using fl64_err [of x] by (auto simp: abs_if split: if_splits)

text \<open>Two roundings, as in scaling a length by a quotient, gain less than one unit.\<close>

lemma fl64_scaled:
  assumes "0 \<le> a" "a \<le> 2 ^ 50" "0 \<le> s" "s * w \<le> a" "0 \<le> w" "0 \<le> r" "r \<le> fl64 s"
  shows "0 \<le> fl64 (w * r) \<and> fl64 (w * r) < a + 1"
proof -
  have s: "fl64 s * 2 ^ 53 \<le> s * (2 ^ 53 + 1)"
    using fl64_err [of s] assms(3) by (auto simp: abs_if algebra_simps split: if_splits)
  have wr: "0 \<le> w * r" using assms by simp
  have "r * 2 ^ 53 \<le> s * (2 ^ 53 + 1)" using s mult_right_mono [OF assms(7), of "2 ^ 53"] by simp
  from mult_left_mono [OF this assms(5)] have "w * r * 2 ^ 53 \<le> (s * w) * (2 ^ 53 + 1)" by (simp add: algebra_simps)
  also have "\<dots> \<le> a * (2 ^ 53 + 1)" using assms(4) by (intro mult_right_mono) auto
  finally have 2: "w * r * 2 ^ 53 \<le> a * (2 ^ 53 + 1)" .
  have "fl64 (w * r) * 2 ^ 53 \<le> (w * r) * (2 ^ 53 + 1)"
    using fl64_err [of "w * r"] wr by (auto simp: abs_if algebra_simps split: if_splits)
  with 2 assms(2) have "fl64 (w * r) < a + 1" by (simp add: algebra_simps)
  with fl64_nonneg [OF wr] show ?thesis by simp
qed

lemma f_trunc_less: "0 \<le> x \<Longrightarrow> x < of_int n + 1 \<Longrightarrow> 0 \<le> f_trunc x \<and> f_trunc x \<le> n"
  by (simp add: f_trunc_def) linarith

subsection \<open>Monotonicity and exact values\<close>

lemma round_even_mono: "x \<le> y \<Longrightarrow> round_even x \<le> round_even y"
proof -
  assume le: "x \<le> y"
  have b: "\<lfloor>q\<rfloor> \<le> round_even q" "round_even q \<le> \<lfloor>q\<rfloor> + 1" for q by (simp_all add: round_even_def Let_def)
  from le have "\<lfloor>x\<rfloor> \<le> \<lfloor>y\<rfloor>" by (rule floor_mono)
  then consider "\<lfloor>x\<rfloor> = \<lfloor>y\<rfloor>" | "\<lfloor>x\<rfloor> + 1 \<le> \<lfloor>y\<rfloor>" by linarith
  then show ?thesis
  proof cases
    case 1
    with le show ?thesis by (simp add: round_even_def Let_def)
  next
    case 2
    with b [of x] b [of y] show ?thesis by linarith
  qed
qed

lemma round_even_of_int [simp]: "round_even (of_int z) = z"
  by (simp add: round_even_def)

lemma pow2_mono: "a \<le> b \<Longrightarrow> pow2 a \<le> pow2 b"
proof -
  assume "a \<le> b"
  have "pow2 a \<le> pow2 (a + int k)" for k
  proof (induction k)
    case (Suc k)
    have "pow2 (a + int (Suc k)) = 2 * pow2 (a + int k)" using pow2_Suc [of "a + int k"] by (simp add: algebra_simps)
    with Suc pow2_pos [of "a + int k"] show ?case by linarith
  qed simp
  from this [of "nat (b - a)"] \<open>a \<le> b\<close> show ?thesis by simp
qed

lemma round_bits_mono_pos:
  assumes "0 < p" "0 < x" "x \<le> y"
  shows "round_bits p x \<le> round_bits p y"
proof -
  define e e' where "e = last_bit p x" and "e' = last_bit p y"
  from assms have y: "0 < y" by linarith
  have bx: "2 ^ (p - 1) * pow2 e \<le> x" "x < 2 ^ p * pow2 e"
    using scaled_bounds [OF assms(2,1)] by (simp_all add: e_def pos_le_divide_eq pos_divide_less_eq)
  have bY: "2 ^ (p - 1) * pow2 e' \<le> y" "y < 2 ^ p * pow2 e'"
    using scaled_bounds [OF y assms(1)] by (simp_all add: e'_def pos_le_divide_eq pos_divide_less_eq)
  have top: "2 ^ p * pow2 a \<le> 2 ^ (p - 1) * pow2 b" if "a < b" for a b
  proof -
    from assms(1) have "2 ^ p * pow2 a = 2 ^ (p - 1) * pow2 (a + 1)" by (cases p) (simp_all add: pow2_Suc)
    also have "\<dots> \<le> 2 ^ (p - 1) * pow2 b" using that by (intro mult_left_mono pow2_mono) simp_all
    finally show ?thesis .
  qed
  have rx: "round_bits p x = of_int (round_even (x / pow2 e)) * pow2 e" using assms(2) by (simp add: round_bits_def e_def Let_def)
  have ry: "round_bits p y = of_int (round_even (y / pow2 e')) * pow2 e'" using y by (simp add: round_bits_def e'_def Let_def)
  have ee: "e \<le> e'" using top [of e' e] bx(1) bY(2) assms(3) by linarith
  show ?thesis
  proof (cases "e = e'")
    case True
    have "x / pow2 e \<le> y / pow2 e" using assms(3) by (simp add: divide_right_mono less_imp_le)
    then have "of_int (round_even (x / pow2 e)) \<le> (of_int (round_even (y / pow2 e)) :: rat)"
      by (simp add: round_even_mono)
    with True show ?thesis by (simp add: rx ry mult_right_mono less_imp_le)
  next
    case False
    have "x / pow2 e \<le> of_int (2 ^ p)" using bx(2) by (simp add: pos_divide_le_eq)
    from round_even_mono [OF this] have "round_even (x / pow2 e) \<le> 2 ^ p" by (simp only: round_even_of_int)
    then have "of_int (round_even (x / pow2 e)) \<le> (of_int (2 ^ p) :: rat)" by (simp only: of_int_le_iff)
    then have lx: "round_bits p x \<le> 2 ^ p * pow2 e" by (simp add: rx mult_right_mono less_imp_le)
    have "of_int (2 ^ (p - 1)) \<le> y / pow2 e'" using bY(1) by (simp add: pos_le_divide_eq)
    from round_even_mono [OF this] have "2 ^ (p - 1) \<le> round_even (y / pow2 e')" by (simp only: round_even_of_int)
    then have "(of_int (2 ^ (p - 1)) :: rat) \<le> of_int (round_even (y / pow2 e'))" by (simp only: of_int_le_iff)
    then have "2 ^ (p - 1) * pow2 e' \<le> round_bits p y" by (simp add: ry mult_right_mono less_imp_le)
    with lx top [of e e'] ee False show ?thesis by linarith
  qed
qed

lemma round_bits_nonneg: "0 < p \<Longrightarrow> 0 \<le> x \<Longrightarrow> 0 \<le> round_bits p x"
proof -
  assume "0 < p" "0 \<le> x"
  have "0 \<le> round_even q" if "0 \<le> q" for q using round_even_mono [OF that] round_even_of_int [of 0] by simp
  then show ?thesis using \<open>0 \<le> x\<close>
    by (auto simp: round_bits_def Let_def less_imp_le intro!: mult_nonneg_nonneg)
qed

lemma round_bits_minus: "round_bits p (- x) = - round_bits p x"
  by (simp add: round_bits_def Let_def)

lemma round_bits_mono: "0 < p \<Longrightarrow> x \<le> y \<Longrightarrow> round_bits p x \<le> round_bits p y"
proof -
  assume p: "0 < p" and le: "x \<le> y"
  consider "0 < x" | "x \<le> 0" "0 \<le> y" | "y < 0" using le by linarith
  then show ?thesis
  proof cases
    case 1
    with p le show ?thesis by (blast intro: round_bits_mono_pos)
  next
    case 2
    then have "0 \<le> round_bits p y" "0 \<le> round_bits p (- x)" using p by (simp_all add: round_bits_nonneg)
    then show ?thesis by (simp add: round_bits_minus)
  next
    case 3
    with p le round_bits_mono_pos [of p "- y" "- x"] show ?thesis by (simp add: round_bits_minus)
  qed
qed

lemma bits_le: "n < 2 ^ p \<Longrightarrow> bits n \<le> p"
proof (cases "n = 0")
  case True
  then show ?thesis by (subst bits.simps) simp
next
  case False
  assume "n < 2 ^ p"
  with bits_bounds [of n] False have "(2::nat) ^ (bits n - 1) < 2 ^ p" by linarith
  then have "bits n - 1 < p" by simp
  then show ?thesis by simp
qed

text \<open>An integer of at most \<open>p\<close> bits is not rounded.\<close>

lemma round_bits_int:
  assumes "0 < p" "\<bar>z\<bar> < 2 ^ p"
  shows "round_bits p (of_int z) = of_int z"
proof -
  have pos: "round_bits p (of_int n) = of_int n" if "0 < n" "n < 2 ^ p" for n
  proof -
    define e where "e = last_bit p (of_int n)"
    have "bits 1 = 1" by (simp add: bits.simps)
    moreover have "bits (nat n) \<le> p" using that by (intro bits_le) (simp add: nat_less_iff)
    ultimately have "e \<le> 0" by (simp add: e_def last_bit_def Let_def)
    then have pe: "pow2 e = 1 / 2 ^ nat (- e)" by (cases "e = 0") (simp_all add: pow2_def)
    have q: "(of_int n :: rat) / pow2 e = of_int (n * 2 ^ nat (- e))" by (simp add: pe)
    have "round_bits p (of_int n) = of_int (round_even (of_int n / pow2 e)) * pow2 e"
      using that by (simp add: round_bits_def Let_def e_def)
    also have "round_even (of_int n / pow2 e) = n * 2 ^ nat (- e)" unfolding q by (rule round_even_of_int)
    finally show ?thesis by (simp add: pe)
  qed
  consider "z = 0" | "0 < z" | "z < 0" by linarith
  then show ?thesis
  proof cases
    case 1
    then show ?thesis by (simp add: round_bits_def)
  next
    case 2
    with pos assms(2) show ?thesis by simp
  next
    case 3
    with pos [of "- z"] assms(2) show ?thesis by (simp add: round_bits_minus)
  qed
qed

lemma fl64_mono: "x \<le> y \<Longrightarrow> fl64 x \<le> fl64 y" and fl32_mono: "x \<le> y \<Longrightarrow> fl32 x \<le> fl32 y"
  by (simp_all add: fl64_def fl32_def round_bits_mono)

lemma fl64_int: "\<bar>z\<bar> < 2 ^ 53 \<Longrightarrow> fl64 (of_int z) = of_int z"
  and fl32_int: "\<bar>z\<bar> < 2 ^ 24 \<Longrightarrow> fl32 (of_int z) = of_int z"
  by (simp_all add: fl64_def fl32_def round_bits_int)

end
