(* ===== verification/Envconf.thy ===== *)
theory Envconf
  imports Decimal Go_Float
begin

section \<open>Settings from the environment (shared/envconf)\<close>

text \<open>
  The readers of environment variables, over an environment that maps a variable to its text (an unset
  variable to the empty one, as \<open>os.Getenv\<close> does), and \<open>time.ParseDuration\<close>, on which
  \<open>Duration\<close> and the recorder's configuration rest: \<open>parse_duration\<close> follows the library's scanner
  with its overflow checks, the fraction of a unit computed in \<open>float64\<close>. Texts are ASCII, so the micro
  sign is not among the units. The lemmas say what whole numbers of a unit parse to and that a bare
  number is rejected.
\<close>

type_synonym env = "string \<Rightarrow> string"

subsection \<open>Durations\<close>

datatype dur_err = InvalidDuration | MissingUnit | UnknownUnit

definition is_digit :: "char \<Rightarrow> bool" where
  "is_digit c \<longleftrightarrow> digit_val c \<noteq> None"

text \<open>The leading digits of a text, \<open>None\<close> when their number exceeds \<open>2 ^ 63\<close>.\<close>

fun leading_int :: "nat \<Rightarrow> string \<Rightarrow> (nat \<times> string) option" where
  "leading_int x [] = Some (x, [])"
| "leading_int x (c # s) =
     (case digit_val c of
        None \<Rightarrow> Some (x, c # s)
      | Some d \<Rightarrow>
          if x > 2 ^ 63 div 10 then None
          else let x' = x * 10 + d in if x' > 2 ^ 63 then None else leading_int x' s)"

text \<open>The digits after the point: their number and its scale, digits that no longer fit being skipped.\<close>

fun leading_fraction :: "bool \<Rightarrow> nat \<Rightarrow> nat \<Rightarrow> string \<Rightarrow> nat \<times> nat \<times> string" where
  "leading_fraction over x scale [] = (x, scale, [])"
| "leading_fraction over x scale (c # s) =
     (case digit_val c of
        None \<Rightarrow> (x, scale, c # s)
      | Some d \<Rightarrow>
          if over then leading_fraction True x scale s
          else if x > (2 ^ 63 - 1) div 10 then leading_fraction True x scale s
          else let y = x * 10 + d in
               if y > 2 ^ 63 then leading_fraction True x scale s
               else leading_fraction False y (scale * 10) s)"

definition unit_map :: "string \<Rightarrow> nat option" where
  "unit_map = map_of [(''ns'', 1), (''us'', 1000), (''ms'', 1000000), (''s'', 1000000000),
     (''m'', 60000000000), (''h'', 3600000000000)]"

definition unit_char :: "char \<Rightarrow> bool" where
  "unit_char c \<longleftrightarrow> c \<noteq> CHR ''.'' \<and> \<not> is_digit c"

definition add_fraction :: "nat \<Rightarrow> nat \<Rightarrow> nat \<Rightarrow> nat \<Rightarrow> nat" where
  "add_fraction v f unit scale =
     v + nat (f_trunc (fl64 (fl64 (of_nat f) * fl64 (of_nat unit / of_nat scale))))"

text \<open>One number with its unit: the nanoseconds it adds and the rest of the text.\<close>

definition duration_part :: "string \<Rightarrow> dur_err + (nat \<times> string)" where
  "duration_part s =
     (case s of
        [] \<Rightarrow> Inl InvalidDuration
      | c # _ \<Rightarrow>
          if \<not> (c = CHR ''.'' \<or> is_digit c) then Inl InvalidDuration
          else
            case leading_int 0 s of
              None \<Rightarrow> Inl InvalidDuration
            | Some (v, s1) \<Rightarrow>
                let pre = length s \<noteq> length s1;
                    point = (s1 \<noteq> [] \<and> hd s1 = CHR ''.'');
                    (f, scale, s2) = (if point then leading_fraction False 0 1 (tl s1) else (0, 1, s1));
                    post = (point \<and> length (tl s1) \<noteq> length s2)
                in if \<not> pre \<and> \<not> post then Inl InvalidDuration
                   else
                     let u = takeWhile unit_char s2; s3 = dropWhile unit_char s2
                     in if u = [] then Inl MissingUnit
                        else case unit_map u of
                               None \<Rightarrow> Inl UnknownUnit
                             | Some unit \<Rightarrow>
                                 if v > 2 ^ 63 div unit then Inl InvalidDuration
                                 else let v1 = v * unit; v2 = (if 0 < f then add_fraction v1 f unit scale else v1)
                                      in if v2 > 2 ^ 63 then Inl InvalidDuration else Inr (v2, s3))"

text \<open>The loop over the parts; each part consumes at least a character, so the length of the text is fuel
  enough.\<close>

fun duration_loop :: "nat \<Rightarrow> nat \<Rightarrow> string \<Rightarrow> dur_err + nat" where
  "duration_loop n d [] = Inr d"
| "duration_loop 0 d (c # s) = Inl InvalidDuration"
| "duration_loop (Suc n) d (c # s) =
     (case duration_part (c # s) of
        Inl e \<Rightarrow> Inl e
      | Inr (v, s') \<Rightarrow> let d' = (d + v) mod 2 ^ 64
          in if d' > 2 ^ 63 then Inl InvalidDuration else duration_loop n d' s')"

definition parse_duration :: "string \<Rightarrow> dur_err + int" where
  "parse_duration orig =
     (let neg = (orig \<noteq> [] \<and> hd orig = CHR ''-'');
          s = (if orig \<noteq> [] \<and> (hd orig = CHR ''-'' \<or> hd orig = CHR ''+'') then tl orig else orig)
      in if s = ''0'' then Inr 0
         else if s = [] then Inl InvalidDuration
         else case duration_loop (length s) 0 s of
                Inl e \<Rightarrow> Inl e
              | Inr d \<Rightarrow>
                  if neg then Inr (- int d)
                  else if d > 2 ^ 63 - 1 then Inl InvalidDuration else Inr (int d))"

subsection \<open>Readers\<close>

definition env_String :: "env \<Rightarrow> string \<Rightarrow> string \<Rightarrow> string" where
  "env_String e key fallback = (let v = e key in if v \<noteq> [] then v else fallback)"

definition env_LookupString :: "env \<Rightarrow> string \<Rightarrow> string \<times> bool" where
  "env_LookupString e key = (let v = e key in (v, v \<noteq> []))"

definition env_Int :: "env \<Rightarrow> string \<Rightarrow> int \<Rightarrow> int" where
  "env_Int e key fallback =
     (let v = e key in if v \<noteq> [] then (case atoi v of Inr n \<Rightarrow> n | Inl _ \<Rightarrow> fallback) else fallback)"

definition env_Int64 :: "env \<Rightarrow> string \<Rightarrow> int \<Rightarrow> int" where
  "env_Int64 e key fallback =
     (let v = e key in if v \<noteq> [] then (case parse_int 64 v of Inr n \<Rightarrow> n | Inl _ \<Rightarrow> fallback) else fallback)"

definition env_Uint32 :: "env \<Rightarrow> string \<Rightarrow> u32 \<Rightarrow> u32" where
  "env_Uint32 e key fallback =
     (let v = e key in if v \<noteq> [] then (case parse_uint 32 v of Inr n \<Rightarrow> of_nat n | Inl _ \<Rightarrow> fallback) else fallback)"

definition to_lower :: "char \<Rightarrow> char" where
  "to_lower c = (let k = of_char c :: nat in if 65 \<le> k \<and> k \<le> 90 then char_of (k + 32) else c)"

definition env_Bool :: "env \<Rightarrow> string \<Rightarrow> bool \<Rightarrow> bool" where
  "env_Bool e key fallback =
     (let v = map to_lower (e key)
      in if v \<in> {''true'', ''1'', ''yes'', ''on''} then True
         else if v \<in> {''false'', ''0'', ''no'', ''off''} then False
         else fallback)"

definition env_Duration :: "env \<Rightarrow> string \<Rightarrow> int \<Rightarrow> int" where
  "env_Duration e key fallback =
     (let v = e key in if v \<noteq> [] then (case parse_duration v of Inr d \<Rightarrow> d | Inl _ \<Rightarrow> fallback) else fallback)"

definition env_Seconds :: "env \<Rightarrow> string \<Rightarrow> int \<Rightarrow> int" where
  "env_Seconds e key fallback =
     (let v = e key
      in if v \<noteq> [] then (case atoi v of Inr n \<Rightarrow> i64 (n * second) | Inl _ \<Rightarrow> fallback) else fallback)"

lemmas env_defs = env_String_def env_LookupString_def env_Int_def env_Int64_def env_Uint32_def env_Bool_def
  env_Duration_def env_Seconds_def

subsection \<open>Lemmas\<close>

lemma leading_int_digits:
  "list_all is_digit s \<Longrightarrow> leading_int x s = None \<or> (\<exists>v. leading_int x s = Some (v, []))"
proof (induction s arbitrary: x)
  case (Cons c s)
  then obtain d where "digit_val c = Some d" by (auto simp: is_digit_def)
  with Cons.IH [of "x * 10 + d"] Cons.prems show ?case by (simp add: Let_def del: leading_int.simps(1))
qed simp

text \<open>The digits of a number followed by a text that starts with no digit.\<close>

lemma leading_int_format_aux:
  assumes "n \<le> 2 ^ 63" "rest = [] \<or> \<not> is_digit (hd rest)"
  shows "leading_int 0 (format_uint n @ rest) = Some (n, rest)"
proof -
  have app: "leading_int x (ds @ rest) = (case leading_int x ds of None \<Rightarrow> None | Some (v, r) \<Rightarrow> leading_int v rest)"
    if "list_all is_digit ds" for x ds
    using that by (induction ds arbitrary: x) (auto simp: is_digit_def Let_def)
  have dig: "list_all is_digit (format_uint k)" for k
    by (auto simp: list_all_iff is_digit_def dest: format_uint_digits)
  have stop: "leading_int v rest = Some (v, rest)" for v
    using assms(2) by (cases rest) (auto simp: is_digit_def)
  have "leading_int 0 (format_uint n) = Some (n, [])"
    using assms(1)
  proof (induction n rule: format_uint.induct)
    case (1 n)
    show ?case
    proof (cases "n < 10")
      case True
      then show ?thesis by (subst format_uint.simps) simp
    next
      case False
      then have ih: "leading_int 0 (format_uint (n div 10)) = Some (n div 10, [])" using 1 by simp
      have l: "n div 10 \<le> 2 ^ 63 div 10" using 1(2) by (rule div_le_mono)
      have d: "leading_int x (ds @ [c]) = (case leading_int x ds of None \<Rightarrow> None | Some (v, r) \<Rightarrow> leading_int v [c])"
        if "list_all is_digit ds" for x ds c
        using that by (induction ds arbitrary: x) (auto simp: is_digit_def Let_def)
      have "leading_int 0 (format_uint n) = leading_int (n div 10) [digit_char (n mod 10)]"
        using False by (subst format_uint.simps) (simp add: d [OF dig] ih)
      also have "\<dots> = Some (n, [])" using l 1(2) by (simp add: Let_def)
      finally show ?thesis .
    qed
  qed
  with app [OF dig, of 0 n] show ?thesis by (simp add: stop)
qed

lemma is_digit_format: "list_all is_digit (format_uint k)"
  by (auto simp: list_all_iff is_digit_def dest: format_uint_digits)

lemma hd_format_uint: "is_digit (hd (format_uint n))"
  using is_digit_format [of n] by (cases "format_uint n") auto

lemma digits_no_unit:
  assumes "list_all is_digit s"
  shows "\<exists>e. duration_part s = Inl e"
  using leading_int_digits [OF assms, of 0]
  by (auto simp: duration_part_def Let_def split: list.split)

lemma unit_part:
  assumes "unit_map u = Some k" "0 < k" "n \<le> 2 ^ 63 div k" "list_all unit_char u" "u \<noteq> []"
  shows "duration_part (format_uint n @ u) = Inr (n * k, [])"
proof -
  have n: "n * k \<le> 2 ^ 63" using assms(2,3) by (metis div_times_less_eq_dividend le_trans mult_le_mono1)
  with assms(2) have n1: "n \<le> 2 ^ 63" by (metis One_nat_def Suc_leI le_trans mult.right_neutral mult_le_mono2)
  have hu: "\<not> is_digit (hd u)" "hd u \<noteq> CHR ''.''" using assms(4,5) by (cases u; simp add: unit_char_def)+
  have l: "leading_int 0 (format_uint n @ u) = Some (n, u)" using leading_int_format_aux [OF n1] hu by simp
  have tw: "takeWhile unit_char u = u" "dropWhile unit_char u = []"
    using assms(4) by (simp_all add: takeWhile_eq_all_conv dropWhile_eq_Nil_conv list_all_iff)
  obtain c cs where c: "format_uint n = c # cs" by (cases "format_uint n") auto
  have "is_digit c" using hd_format_uint [of n] c by simp
  with l c have "duration_part (format_uint n @ u) =
      (if n > 2 ^ 63 div k then Inl InvalidDuration else if n * k > 2 ^ 63 then Inl InvalidDuration else Inr (n * k, []))"
    using assms(1,5) hu(2) by (simp add: tw duration_part_def Let_def del: leading_int.simps)
  with assms(3) n show ?thesis by simp
qed

lemma format_uint_not_sign: "hd (format_uint n) \<noteq> CHR ''-''" "hd (format_uint n) \<noteq> CHR ''+''"
  using hd_format_uint [of n] by (auto simp: is_digit_def digit_val_def)

lemma atoi_format: "n < 2 ^ 63 \<Longrightarrow> atoi (format_uint n) = Inr (int n)"
  using format_uint_not_sign [of n] parse_uint_format [of n 64]
  by (cases "format_uint n") (auto simp: atoi_def parse_int_def Let_def)

lemma unit_text_not_zero: "u \<noteq> [] \<Longrightarrow> format_uint n @ u \<noteq> ''0''"
  by (cases "format_uint n") auto

lemma parse_unit:
  assumes "unit_map u = Some k" "0 < k" "n * k < 2 ^ 63" "list_all unit_char u" "u \<noteq> []"
  shows "parse_duration (format_uint n @ u) = Inr (int (n * k))"
proof -
  have "n \<le> 2 ^ 63 div k" using assms(2,3) by (simp add: less_eq_div_iff_mult_less_eq)
  note part = unit_part [OF assms(1,2) this assms(4,5)]
  obtain c cs where c: "format_uint n @ u = c # cs" by (cases "format_uint n @ u") auto
  have h: "hd (format_uint n @ u) = hd (format_uint n)" by simp
  have loop: "duration_loop (length (format_uint n @ u)) 0 (format_uint n @ u) = Inr (n * k)"
    using part assms(3) by (simp add: c Let_def)
  have z: "format_uint n @ u \<noteq> ''0''" "format_uint n @ u \<noteq> []" using unit_text_not_zero assms(5) by auto
  show ?thesis
    using loop z format_uint_not_sign [of n] assms(3) unfolding parse_duration_def h by (simp add: Let_def)
qed

lemma unit_map_simps [simp]:
  "unit_map ''s'' = Some 1000000000" "unit_map ''ms'' = Some 1000000" "unit_map ''m'' = Some 60000000000"
  "unit_map ''h'' = Some 3600000000000" "unit_map ''ns'' = Some 1" "unit_map ''us'' = Some 1000"
  by (simp_all add: unit_map_def)

lemma unit_chars [simp]:
  "unit_char CHR ''s''" "unit_char CHR ''m''" "unit_char CHR ''h''"
  by (simp_all add: unit_char_def is_digit_def digit_val_def)

lemma bare_number:
  assumes "list_all is_digit s" "s \<noteq> ''0''"
  shows "\<exists>e. parse_duration s = Inl e"
proof (cases s)
  case (Cons c cs)
  with assms have "is_digit c" by simp
  then have s: "c \<noteq> CHR ''-''" "c \<noteq> CHR ''+''" by (auto simp: is_digit_def digit_val_def)
  from digits_no_unit [OF assms(1)] Cons obtain e where "duration_part (c # cs) = Inl e" by auto
  with s Cons assms(2) show ?thesis by (simp add: parse_duration_def Let_def)
qed (simp add: parse_duration_def)

subsection \<open>Properties\<close>

text \<open>the duration syntax: a whole number of seconds, milliseconds, minutes or hours that fits 63 bits is
  read exactly; a bare number has no unit and leaves the setting at its fallback, with one exception: the
  text \<open>0\<close> is read as a zero duration.\<close>

theorem duration_setting_syntax:
  assumes "n * 1000000000 < 2 ^ 63" "list_all is_digit s" "s \<noteq> ''0''"
  shows "env_Duration (\<lambda>k. format_uint n @ ''s'') key fallback = int n * second \<and>
    env_Duration (\<lambda>k. format_uint n @ ''ms'') key fallback = int n * millisecond \<and>
    env_Duration (\<lambda>k. s) key fallback = fallback \<and>
    env_Duration (\<lambda>k. ''0'') key fallback = 0"
proof -
  have "parse_duration (format_uint n @ ''s'') = Inr (int (n * 1000000000))"
    by (rule parse_unit) (use assms(1) in simp_all)
  moreover have "parse_duration (format_uint n @ ''ms'') = Inr (int (n * 1000000))"
    by (rule parse_unit) (use assms(1) in simp_all)
  moreover have "parse_duration ''0'' = Inr 0" by (simp add: parse_duration_def)
  ultimately show ?thesis
    using bare_number [OF assms(2,3)] by (auto simp: env_Duration_def Let_def time_units)
qed

theorem duration_setting_syntax_witness:
  "env_Duration (\<lambda>k. format_uint 10 @ ''s'') ''FFMPEG_RESTART_DELAY'' (5 * second) = 10 * second \<and>
   env_Duration (\<lambda>k. ''10'') ''FFMPEG_RESTART_DELAY'' (5 * second) = 5 * second"
  using duration_setting_syntax [of 10 "''10''" "''FFMPEG_RESTART_DELAY''" "5 * second"]
  by (simp add: is_digit_def digit_val_def)

end
