(* ===== verification/Recorder_Config.thy ===== *)
theory Recorder_Config
  imports Recorder_Loop Envconf
begin

section \<open>Configuration of the recorder (camera-recorder/internal/config, app/run.go)\<close>

text \<open>
  Defaults, the environment overlay, validation and loading, and the configuration that \<open>Run\<close> hands to
  the recording sessions. The file is a parameter: whether it can be read and what decoding it into a
  given configuration yields (\<open>json.Unmarshal\<close> keeps the fields the file does not name). The properties
  say what an accepted configuration guarantees to the recording loop.
\<close>

record recording_config =
  rcOutputFPS :: int
  rcTimelapseFactor :: int
  rcSegmentRawDuration :: string
  rcMaxFileBytes :: int
  rcKeepFilesPerCamera :: int
  rcQueueSizePerCamera :: int
  rcInactiveCloseDuration :: string

record storage_config =
  scType :: string
  scRootDir :: string

record ffmpeg_config =
  fcPath :: string
  fcPreset :: string
  fcCRF :: int

record rec_config =
  cfgHTTPAddr :: string
  cfgUpstreamTCPAddr :: string
  cfgRecording :: recording_config
  cfgStorage :: storage_config
  cfgFFmpeg :: ffmpeg_config
  cfgSegmentDuration :: int
  cfgInactiveTimeout :: int

datatype config_err =
    FileMissing
  | FileUnreadable
  | BadJSON
  | Required string
  | NotPositive string
  | BadDuration string dur_err
  | Unsupported string
  | OutOfRange string

datatype config_file = NoSuchFile | UnreadableFile | FileContent "rec_config \<Rightarrow> rec_config option"

definition rec_Defaults :: rec_config where
  "rec_Defaults = \<lparr>cfgHTTPAddr = '':8094'', cfgUpstreamTCPAddr = ''localhost:9001'',
     cfgRecording = \<lparr>rcOutputFPS = 10, rcTimelapseFactor = 10, rcSegmentRawDuration = ''10m'',
       rcMaxFileBytes = 100 * 1024 * 1024, rcKeepFilesPerCamera = 144, rcQueueSizePerCamera = 128,
       rcInactiveCloseDuration = ''30s''\<rparr>,
     cfgStorage = \<lparr>scType = ''local'', scRootDir = ''./recordings''\<rparr>,
     cfgFFmpeg = \<lparr>fcPath = ''ffmpeg'', fcPreset = ''veryfast'', fcCRF = 23\<rparr>,
     cfgSegmentDuration = 0, cfgInactiveTimeout = 0\<rparr>"

definition rec_Validate :: "rec_config \<Rightarrow> config_err option" where
  "rec_Validate c =
     (let r = cfgRecording c in
      if cfgHTTPAddr c = [] then Some (Required ''http_addr'')
      else if cfgUpstreamTCPAddr c = [] then Some (Required ''upstream_tcp_addr'')
      else if rcOutputFPS r \<le> 0 then Some (NotPositive ''recording.output_fps'')
      else if rcTimelapseFactor r \<le> 0 then Some (NotPositive ''recording.timelapse_factor'')
      else case parse_duration (rcSegmentRawDuration r) of
        Inl e \<Rightarrow> Some (BadDuration ''recording.segment_raw_duration'' e)
      | Inr _ \<Rightarrow>
      if rcMaxFileBytes r \<le> 0 then Some (NotPositive ''recording.max_file_bytes'')
      else if rcKeepFilesPerCamera r \<le> 0 then Some (NotPositive ''recording.keep_files_per_camera'')
      else if rcQueueSizePerCamera r \<le> 0 then Some (NotPositive ''recording.queue_size_per_camera'')
      else case parse_duration (rcInactiveCloseDuration r) of
        Inl e \<Rightarrow> Some (BadDuration ''recording.inactive_close_duration'' e)
      | Inr _ \<Rightarrow>
      if scType (cfgStorage c) \<noteq> ''local'' then Some (Unsupported ''storage.type'')
      else if scRootDir (cfgStorage c) = [] then Some (Required ''storage.root_dir'')
      else if fcPath (cfgFFmpeg c) = [] then Some (Required ''ffmpeg.path'')
      else if fcPreset (cfgFFmpeg c) = [] then Some (Required ''ffmpeg.preset'')
      else if fcCRF (cfgFFmpeg c) < 0 \<or> fcCRF (cfgFFmpeg c) > 51 then Some (OutOfRange ''ffmpeg.crf'')
      else None)"

definition rec_applyEnv :: "env \<Rightarrow> rec_config \<Rightarrow> rec_config" where
  "rec_applyEnv e c =
     (let r = cfgRecording c; s = cfgStorage c; f = cfgFFmpeg c in
      c\<lparr>cfgHTTPAddr := env_String e ''HTTP_ADDR'' (cfgHTTPAddr c),
        cfgUpstreamTCPAddr := env_String e ''UPSTREAM_TCP_ADDR'' (cfgUpstreamTCPAddr c),
        cfgStorage := s\<lparr>scRootDir := env_String e ''STORAGE_ROOT_DIR'' (scRootDir s)\<rparr>,
        cfgFFmpeg := f\<lparr>fcPath := env_String e ''FFMPEG_PATH'' (fcPath f),
          fcPreset := env_String e ''FFMPEG_PRESET'' (fcPreset f),
          fcCRF := env_Int e ''FFMPEG_CRF'' (fcCRF f)\<rparr>,
        cfgRecording := r\<lparr>rcOutputFPS := env_Int e ''OUTPUT_FPS'' (rcOutputFPS r),
          rcTimelapseFactor := env_Int e ''TIMELAPSE_FACTOR'' (rcTimelapseFactor r),
          rcMaxFileBytes := env_Int64 e ''MAX_FILE_BYTES'' (rcMaxFileBytes r),
          rcKeepFilesPerCamera := env_Int e ''KEEP_FILES_PER_CAMERA'' (rcKeepFilesPerCamera r),
          rcQueueSizePerCamera := env_Int e ''QUEUE_SIZE_PER_CAMERA'' (rcQueueSizePerCamera r),
          rcSegmentRawDuration := env_String e ''SEGMENT_RAW_DURATION'' (rcSegmentRawDuration r),
          rcInactiveCloseDuration := env_String e ''INACTIVE_CLOSE_DURATION'' (rcInactiveCloseDuration r)\<rparr>\<rparr>)"

definition dur_or_zero :: "string \<Rightarrow> int" where
  "dur_or_zero s = (case parse_duration s of Inr d \<Rightarrow> d | Inl _ \<Rightarrow> 0)"

definition rec_finish :: "env \<Rightarrow> rec_config \<Rightarrow> config_err + rec_config" where
  "rec_finish e cfg0 =
     (let cfg = rec_applyEnv e cfg0
      in case rec_Validate cfg of
           Some err \<Rightarrow> Inl err
         | None \<Rightarrow> Inr (cfg\<lparr>cfgSegmentDuration := dur_or_zero (rcSegmentRawDuration (cfgRecording cfg)),
                         cfgInactiveTimeout := dur_or_zero (rcInactiveCloseDuration (cfgRecording cfg))\<rparr>))"

definition rec_Load :: "env \<Rightarrow> config_file \<Rightarrow> string \<Rightarrow> config_err + rec_config" where
  "rec_Load e file path =
     (if path \<noteq> [] then
        (case file of
           NoSuchFile \<Rightarrow> Inl FileMissing
         | UnreadableFile \<Rightarrow> Inl FileUnreadable
         | FileContent unmarshal \<Rightarrow>
             (case unmarshal rec_Defaults of None \<Rightarrow> Inl BadJSON | Some c \<Rightarrow> rec_finish e c))
      else rec_finish e rec_Defaults)"

text \<open>How \<open>Run\<close> loads it, falling back to the defaults when there is no file, and what it passes on.\<close>

definition run_config :: "env \<Rightarrow> (string \<Rightarrow> config_file) \<Rightarrow> config_err + rec_config" where
  "run_config e fs =
     (let path = env_String e ''CONFIG_FILE'' ''config.json''
      in case rec_Load e (fs path) path of
           Inr cfg \<Rightarrow> Inr cfg
         | Inl FileMissing \<Rightarrow> rec_Load e (fs []) []
         | Inl err \<Rightarrow> Inl err)"

definition recorder_config :: "rec_config \<Rightarrow> cam_cfg" where
  "recorder_config c =
     \<lparr>cOutputFPS = rcOutputFPS (cfgRecording c), cTimelapseFactor = rcTimelapseFactor (cfgRecording c),
      cSegmentRawDuration = cfgSegmentDuration c, cMaxFileBytes = rcMaxFileBytes (cfgRecording c),
      cKeepFilesPerCamera = rcKeepFilesPerCamera (cfgRecording c),
      cQueueSize = nat (rcQueueSizePerCamera (cfgRecording c)), cInactiveClose = cfgInactiveTimeout c\<rparr>"

text \<open>The arguments of the encoder process (encoder/ffmpeg.go).\<close>

definition encoder_args :: "int \<Rightarrow> string \<Rightarrow> int \<Rightarrow> string list" where
  "encoder_args fps preset crf =
     (let gop = i64 (fps * 2) in
      [''-hide_banner'', ''-loglevel'', ''warning'', ''-f'', ''mjpeg'', ''-framerate'', itoa fps, ''-i'', ''pipe:0'',
       ''-an'', ''-c:v'', ''libx264'', ''-preset'', preset, ''-crf'', itoa crf, ''-pix_fmt'', ''yuv420p'',
       ''-r'', itoa fps, ''-g'', itoa gop, ''-movflags'', ''frag_keyframe+empty_moov+default_base_moof'',
       ''-f'', ''mp4'', ''pipe:1''])"

subsection \<open>Lemmas\<close>

lemma rec_Validate_ok:
  "rec_Validate c = None \<longleftrightarrow>
     cfgHTTPAddr c \<noteq> [] \<and> cfgUpstreamTCPAddr c \<noteq> [] \<and>
     0 < rcOutputFPS (cfgRecording c) \<and> 0 < rcTimelapseFactor (cfgRecording c) \<and>
     (\<exists>d. parse_duration (rcSegmentRawDuration (cfgRecording c)) = Inr d) \<and>
     0 < rcMaxFileBytes (cfgRecording c) \<and> 0 < rcKeepFilesPerCamera (cfgRecording c) \<and>
     0 < rcQueueSizePerCamera (cfgRecording c) \<and>
     (\<exists>d. parse_duration (rcInactiveCloseDuration (cfgRecording c)) = Inr d) \<and>
     scType (cfgStorage c) = ''local'' \<and> scRootDir (cfgStorage c) \<noteq> [] \<and>
     fcPath (cfgFFmpeg c) \<noteq> [] \<and> fcPreset (cfgFFmpeg c) \<noteq> [] \<and> fcCRF (cfgFFmpeg c) \<in> {0..51}"
  by (auto simp: rec_Validate_def Let_def split: sum.splits if_splits)

lemma rec_finish_ok:
  assumes "rec_finish e c0 = Inr c"
  shows "rec_Validate c = None \<and>
    parse_duration (rcSegmentRawDuration (cfgRecording c)) = Inr (cfgSegmentDuration c) \<and>
    parse_duration (rcInactiveCloseDuration (cfgRecording c)) = Inr (cfgInactiveTimeout c)"
proof -
  define a where "a = rec_applyEnv e c0"
  from assms have v: "rec_Validate a = None" and
    c: "c = a\<lparr>cfgSegmentDuration := dur_or_zero (rcSegmentRawDuration (cfgRecording a)),
              cfgInactiveTimeout := dur_or_zero (rcInactiveCloseDuration (cfgRecording a))\<rparr>"
    by (auto simp: rec_finish_def Let_def a_def split: option.splits)
  have "rec_Validate c = rec_Validate a" by (simp add: c rec_Validate_def Let_def)
  with v show ?thesis by (auto simp: c rec_Validate_ok dur_or_zero_def)
qed

lemma run_config_ok: "run_config e fs = Inr c \<Longrightarrow> \<exists>c0. rec_finish e c0 = Inr c"
  by (auto simp: run_config_def rec_Load_def Let_def split: config_file.splits option.splits sum.splits
      config_err.splits if_splits)

lemma keepEvery_pos:
  assumes "0 < cOutputFPS cfg" "0 < cTimelapseFactor cfg" "cOutputFPS cfg \<le> second * cTimelapseFactor cfg"
    "second * cTimelapseFactor cfg < 2 ^ 63"
  shows "keepEvery cfg = second * cTimelapseFactor cfg div cOutputFPS cfg \<and> 0 < keepEvery cfg"
proof -
  let ?n = "second * cTimelapseFactor cfg"
  have n: "0 \<le> ?n" "in_i64 ?n" using assms by (simp_all add: second_def in_i64_def)
  have q: "0 < ?n div cOutputFPS cfg" using assms(1,3) by (simp add: pos_imp_zdiv_pos_iff)
  have "?n div cOutputFPS cfg \<le> ?n" using zdiv_mono2 [of ?n 1 "cOutputFPS cfg"] n(1) assms(1) by simp
  with q assms(4) have "in_i64 (?n div cOutputFPS cfg)" by (simp add: in_i64_def)
  with n assms(1) q show ?thesis by (simp add: keepEvery_def)
qed

lemma default_durations:
  "parse_duration ''10m'' = Inr (600 * second)" "parse_duration ''30s'' = Inr (30 * second)"
proof -
  have f: "format_uint 10 = ''10''" "format_uint 30 = ''30''"
    by (simp_all add: format_uint.simps digit_char_def char_of_eq_iff)
  show "parse_duration ''10m'' = Inr (600 * second)"
    using parse_unit [of "''m''" 60000000000 10] by (simp add: f second_def)
  show "parse_duration ''30s'' = Inr (30 * second)"
    using parse_unit [of "''s''" 1000000000 30] by (simp add: f second_def)
qed

lemma empty_env: "rec_applyEnv (\<lambda>k. []) c = c"
  by (simp add: rec_applyEnv_def env_defs Let_def)

lemma defaults_accepted:
  "run_config (\<lambda>k. []) (\<lambda>p. NoSuchFile) =
     Inr (rec_Defaults\<lparr>cfgSegmentDuration := 600 * second, cfgInactiveTimeout := 30 * second\<rparr>)"
proof -
  have "rec_Validate rec_Defaults = None"
    by (simp add: rec_Validate_ok rec_Defaults_def default_durations)
  then have "rec_finish (\<lambda>k. []) rec_Defaults =
      Inr (rec_Defaults\<lparr>cfgSegmentDuration := 600 * second, cfgInactiveTimeout := 30 * second\<rparr>)"
    by (simp add: rec_finish_def empty_env Let_def dur_or_zero_def) (simp add: rec_Defaults_def default_durations)
  then show ?thesis by (simp add: run_config_def rec_Load_def env_String_def Let_def)
qed

subsection \<open>Properties\<close>

text \<open>a configuration that \<open>Load\<close> accepts, with a positive segment duration and an output rate of at most
  one frame per nanosecond of covered time, starts a recorder whose loop takes every event and leaves no
  temporary file behind after shutdown; \<open>keepEvery\<close> is then the exact quotient.\<close>

theorem accepted_config_records:
  assumes "run_config e paths = Inr c"
    and "0 < cfgSegmentDuration c" "rcOutputFPS (cfgRecording c) \<le> second * rcTimelapseFactor (cfgRecording c)"
      "second * rcTimelapseFactor (cfgRecording c) < 2 ^ 63"
    and "RecDone env \<in> set es" "\<forall>ev\<in>set es. good_event ev"
  shows "keepEvery (recorder_config c) =
      second * rcTimelapseFactor (cfgRecording c) div rcOutputFPS (cfgRecording c) \<and>
    (\<exists>r. camera_run (local_store stamp) (recorder_config c) cid es (newCamera (recorder_config c) metrics_New fs) = Some r \<and>
       \<not> cRunning r \<and> tmp_files (rStore (cLoop r)) \<subseteq> tmp_files fs)"
proof -
  let ?r = "recorder_config c"
  have v: "rec_Validate c = None" using run_config_ok [OF assms(1)] rec_finish_ok by blast
  then have p: "0 < rcOutputFPS (cfgRecording c)" "0 < rcTimelapseFactor (cfgRecording c)"
    "0 < rcQueueSizePerCamera (cfgRecording c)" by (simp_all add: rec_Validate_ok)
  have sel: "cOutputFPS ?r = rcOutputFPS (cfgRecording c)" "cTimelapseFactor ?r = rcTimelapseFactor (cfgRecording c)"
    "cSegmentRawDuration ?r = cfgSegmentDuration c" "cQueueSize ?r = nat (rcQueueSizePerCamera (cfgRecording c))"
    by (simp_all add: recorder_config_def)
  have k: "keepEvery ?r = second * rcTimelapseFactor (cfgRecording c) div rcOutputFPS (cfgRecording c)" "0 < keepEvery ?r"
    using keepEvery_pos [of ?r] p assms(3,4) by (simp_all add: sel)
  have q: "0 < cQueueSize ?r" "0 < cSegmentRawDuration ?r" using p(3) assms(2) by (simp_all add: sel)
  from no_temp_run [OF k(2) q assms(5,6)] k(1) show ?thesis by blast
qed

theorem accepted_config_records_witness:
  "\<exists>c r. run_config (\<lambda>k. []) (\<lambda>p. NoSuchFile) = Inr c \<and> keepEvery (recorder_config c) = second \<and>
     camera_run (local_store (\<lambda>t. ''T'')) (recorder_config c) ''7'' sample_rec_events
       (newCamera (recorder_config c) metrics_New sample_fs) = Some r \<and> \<not> cRunning r"
proof -
  have "RecDone sample_fin \<in> set sample_rec_events" by (simp add: sample_rec_events_def)
  from accepted_config_records [OF defaults_accepted _ _ _ this sample_good] defaults_accepted
  show ?thesis by (force simp: rec_Defaults_def second_def)
qed

text \<open>what validation lets through: the only settings it does not bound above or below are those of the
  recording interval, so an accepted configuration can make the recorder hang on its second frame, and a
  segment duration of zero, which makes every frame a segment of its own, is accepted too.\<close>

theorem validation_gap:
  assumes "rec_Validate c = None"
  shows "rec_Validate (c\<lparr>cfgRecording := (cfgRecording c)\<lparr>rcOutputFPS := 2000000000, rcTimelapseFactor := 1\<rparr>\<rparr>) = None \<and>
    keepEvery (recorder_config (c\<lparr>cfgRecording := (cfgRecording c)\<lparr>rcOutputFPS := 2000000000, rcTimelapseFactor := 1\<rparr>\<rparr>)) = 0 \<and>
    rec_Validate (c\<lparr>cfgRecording := (cfgRecording c)\<lparr>rcSegmentRawDuration := ''0''\<rparr>\<rparr>) = None"
proof -
  have "parse_duration ''0'' = Inr 0" by (simp add: parse_duration_def)
  with assms show ?thesis
    by (simp add: rec_Validate_ok) (simp add: keepEvery_def recorder_config_def second_def in_i64_def)
qed

theorem validation_gap_witness:
  "rec_Validate (rec_Defaults\<lparr>cfgRecording := (cfgRecording rec_Defaults)\<lparr>rcOutputFPS := 2000000000, rcTimelapseFactor := 1\<rparr>\<rparr>) = None"
  using validation_gap [of rec_Defaults] by (simp add: rec_Validate_ok rec_Defaults_def default_durations)

end
