(* ===== verification/Service_Runs.thy ===== *)
theory Service_Runs
  imports Camera_To_Viewer Proxy_Service Recorder_Video Recorder_Config
begin

section \<open>Starting and ending the services\<close>

text \<open>
  The \<open>Run\<close> functions of tcp-camera-backend, camera-web-api and camera-recorder: their settings, the steps of their
  start that can fail, what ends them, and what is still running when they return. (The proxies' \<open>Serve\<close> is in
  \<open>Proxy_Service\<close>.)
\<close>

subsection \<open>tcp-camera-backend\<close>

record backend_config =
  bkTCPAddr :: string
  bkIPCSocketPath :: string
  bkMaxFrameBytes :: u32
  bkReadTimeout :: int

definition backend_LoadFromEnv :: "env \<Rightarrow> backend_config" where
  "backend_LoadFromEnv e =
     \<lparr>bkTCPAddr = env_String e ''TCP_ADDR'' ''0.0.0.0:5000'',
      bkIPCSocketPath = env_String e ''IPC_SOCKET_PATH'' ''/tmp/instachron/frames.sock'',
      bkMaxFrameBytes = env_Uint32 e ''MAX_FRAME_BYTES'' (5 * 1024 * 1024),
      bkReadTimeout = env_Duration e ''READ_TIMEOUT'' (30 * second)\<rparr>"

text \<open>The publisher's \<open>Listen\<close>: a stale socket is removed (a missing one is no error), then the accept loop runs.\<close>

datatype listen_error = RemoveStale nat | ListenFailed nat

definition pub_Listen :: "nat option \<Rightarrow> nat option \<Rightarrow> listen_event list \<Rightarrow> publisher \<Rightarrow> (listen_error + bool) \<times> publisher" where
  "pub_Listen removeErr listenErr es p =
     (case removeErr of
        Some e \<Rightarrow> (Inl (RemoveStale e), p)
      | None \<Rightarrow>
          (case listenErr of
             Some e \<Rightarrow> (Inl (ListenFailed e), p)
           | None \<Rightarrow> (let (returned, p') = Listen_loop es p in (Inr returned, p'))))"

datatype backend_error = SocketDir nat | TCPListen nat | AcceptGaveUp nat nat

text \<open>\<open>ListenAndServe\<close> over the accepts that are observed; \<open>None\<close> while it is serving.\<close>

definition ListenAndServe :: "nat option \<Rightarrow> accept_event list \<Rightarrow> backend_error option option" where
  "ListenAndServe listenErr es =
     (case listenErr of
        Some e \<Rightarrow> Some (Some (TCPListen e))
      | None \<Rightarrow>
          (case accept_loop es 0 minAcceptBackoff of
             (_, _, StillAccepting) \<Rightarrow> None
           | (_, _, ReturnedNil) \<Rightarrow> Some None
           | (_, _, GaveUp n e) \<Rightarrow> Some (Some (AcceptGaveUp n e))))"

text \<open>\<open>Run\<close>: its result, the error of the publisher that it logs, and what became of the publisher.\<close>

definition backend_Run ::
  "nat option \<Rightarrow> nat option \<Rightarrow> nat option \<Rightarrow> listen_event list \<Rightarrow> nat option \<Rightarrow> accept_event list \<Rightarrow>
     backend_error option option \<times> listen_error option \<times> publisher" where
  "backend_Run mkdirErr removeErr ipcErr consumers tcpErr accepts =
     (case mkdirErr of
        Some e \<Rightarrow> (Some (Some (SocketDir e)), None, Publisher_New)
      | None \<Rightarrow>
          (let (listened, p) = pub_Listen removeErr ipcErr consumers Publisher_New
           in (ListenAndServe tcpErr accepts, case listened of Inl e \<Rightarrow> Some e | Inr _ \<Rightarrow> None, p)))"

text \<open>Limits on the environment cannot disable the size check by accident: a \<open>MAX_FRAME_BYTES\<close> that is not a 32-bit
  number leaves the default in force.\<close>

lemma backend_frame_limit:
  assumes "parse_uint 32 (e ''MAX_FRAME_BYTES'') = Inl err \<or> e ''MAX_FRAME_BYTES'' = []"
  shows "bkMaxFrameBytes (backend_LoadFromEnv e) = 5242880"
  using assms by (auto simp: backend_LoadFromEnv_def env_Uint32_def Let_def)

text \<open>What the backend does for its cameras does not depend on whether its publisher could listen.\<close>

lemma backend_outlives_publisher:
  "fst (backend_Run None removeErr ipcErr consumers tcpErr accepts) = ListenAndServe tcpErr accepts"
  by (simp add: backend_Run_def split: prod.split)

subsection \<open>camera-web-api\<close>

record web_settings =
  wsHTTPAddr :: string
  wsSocketPath :: string
  wsCameraConfig :: string
  wsTCPAddr :: string
  wsTCPEnabled :: bool

definition web_settings_of :: "env \<Rightarrow> web_settings" where
  "web_settings_of e =
     \<lparr>wsHTTPAddr = env_String e ''HTTP_ADDR'' '':8080'',
      wsSocketPath = env_String e ''IPC_SOCKET_PATH'' ''/tmp/instachron/frames.sock'',
      wsCameraConfig = env_String e ''CAMERA_CONFIG'' ''./cameras.json'',
      wsTCPAddr = env_String e ''TCP_ADDR'' '':9001'',
      wsTCPEnabled = (env_String e ''TCP_ENABLED'' ''true'' \<noteq> ''false'')\<rparr>"

definition web_maxClients :: nat where "web_maxClients = 64"

definition web_options :: "rot_config \<Rightarrow> api_options" where
  "web_options rc = \<lparr>opt_Rotation = Some (Degrees rc), CreateOnSubscribe = True\<rparr>"

text \<open>The part of \<open>Run\<close> before anything is started: only the rotation file can stop it.\<close>

definition web_setup ::
  "env \<Rightarrow> (bytes \<Rightarrow> (string \<times> int) list option) \<Rightarrow> (string \<Rightarrow> file_read) \<Rightarrow> (nat \<Rightarrow> gotime) \<Rightarrow>
     config_error + web_settings \<times> web_state \<times> api_options" where
  "web_setup e parse fs ck =
     (let ws = web_settings_of e
      in case Load parse (fs (wsCameraConfig ws)) of
           Inl err \<Rightarrow> Inl err
         | Inr (rc, n) \<Rightarrow> Inr (ws, web_start rc ck, web_options rc))"

lemma web_setup_missing_file:
  "fs (env_String e ''CAMERA_CONFIG'' ''./cameras.json'') = Rotation.FileMissing \<Longrightarrow>
     \<exists>ws. web_setup e parse fs ck = Inr (ws, web_start \<lparr>angles = (\<lambda>_. None)\<rparr> ck, web_options \<lparr>angles = (\<lambda>_. None)\<rparr>)"
  by (simp add: web_setup_def web_settings_of_def Load_def Reload_def Let_def)

subsection \<open>Services that do not wait for their reader\<close>

text \<open>camera-web-api and camera-recorder run the same two activities as \<open>Serve\<close>, an HTTP server and a reader, but
  return as soon as the HTTP server has ended: on its own failure, or at the start of the shutdown.\<close>

definition run_result :: "serve_life \<Rightarrow> nat option option" where
  "run_result s = (case slHttp s of HttpServing \<Rightarrow> None | HttpEnded r \<Rightarrow> Some r)"

lemma run_leaves_reader:
  "\<exists>s. serve_reach s \<and> run_result s = Some (Some e) \<and> \<not> slCancelled s \<and> slInTransform s"
proof -
  have a: "serve_step serve_start (serve_start\<lparr>slInTransform := True\<rparr>)"
    by (rule frame_in) (simp_all add: serve_start_def)
  have b: "serve_step (serve_start\<lparr>slInTransform := True\<rparr>) (serve_start\<lparr>slInTransform := True, slHttp := HttpEnded (Some e)\<rparr>)"
    using http_fails [of "serve_start\<lparr>slInTransform := True\<rparr>" e] by (simp add: serve_start_def)
  from a b have "serve_reach (serve_start\<lparr>slInTransform := True, slHttp := HttpEnded (Some e)\<rparr>)"
    unfolding serve_reach_def by (meson converse_rtranclp_into_rtranclp rtranclp.rtrancl_refl)
  then show ?thesis
    by (intro exI [of _ "serve_start\<lparr>slInTransform := True, slHttp := HttpEnded (Some e)\<rparr>"])
      (simp add: run_result_def serve_start_def)
qed

subsection \<open>camera-recorder\<close>

text \<open>The callback of the recorder's upstream reader.\<close>

definition recorder_onFrame :: "cam_cfg \<Rightarrow> sframe \<Rightarrow> 's sessions option \<Rightarrow> 's sessions option" where
  "recorder_onFrame cfg f s = Option.bind s (sess_Submit cfg f)"

lemma fold_recorder_onFrame: "fold (recorder_onFrame cfg) fs (Some s) = submit_all cfg fs s"
proof (induction fs arbitrary: s)
  case (Cons f fs)
  have n: "fold (recorder_onFrame cfg) fs None = None" for fs
    by (induction fs) (simp_all add: recorder_onFrame_def)
  have "recorder_onFrame cfg f (Some s) = sess_Submit cfg f s" by (simp add: recorder_onFrame_def)
  with Cons n show ?case by (cases "sess_Submit cfg f s") simp_all
qed simp

text \<open>A stream of frames that breaks anywhere, as the cameras' queues see it: each camera that sent something has the
  newest frames it sent that arrived, up to its queue size, the older ones counted as dropped.\<close>

lemma recorder_reads_stream:
  assumes "list_all frame_ok fs" "0 < cQueueSize cfg"
  shows "\<exists>n s' e. n \<le> length fs \<and> (length (stream_of frame_bytes fs) \<le> k \<longrightarrow> n = length fs) \<and>
    upstream_loop (Some (recorder_onFrame cfg)) \<lparr>rbuf = take k (stream_of frame_bytes fs), rend = t\<rparr>
      (0, Some (NewSessions metrics_New st)) = ((n, Some s'), e) \<and>
    (\<forall>cid. let mine = filter (\<lambda>f. fCameraID f = cid) (take n fs); q = lastn (cQueueSize cfg) mine
       in map_option (cbuf \<circ> pvQueue) (map_of (smCameras s') cid) = (if mine = [] then None else Some q) \<and>
          framesDropped (ensureCamera (CameraID_String cid) (smMetrics s')) = int (length mine - length q))"
proof -
  from upstream_loop_cut [OF assms(1), of "recorder_onFrame cfg" k t "Some (NewSessions metrics_New st)"] obtain n e where
    n: "n \<le> length fs" "upstream_loop (Some (recorder_onFrame cfg)) \<lparr>rbuf = take k (stream_of frame_bytes fs), rend = t\<rparr>
      (0, Some (NewSessions metrics_New st)) = ((n, submit_all cfg (take n fs) (NewSessions metrics_New st)), e)"
    "length (stream_of frame_bytes fs) \<le> k \<longrightarrow> n = length fs" unfolding fold_recorder_onFrame by blast
  from sessions_route_frames [OF assms(2), of "take n fs" st] obtain s' where
    s': "submit_all cfg (take n fs) (NewSessions metrics_New st) = Some s'"
    "\<And>cid. let mine = filter (\<lambda>f. fCameraID f = cid) (take n fs); q = lastn (cQueueSize cfg) mine;
               m = ensureCamera (CameraID_String cid) (smMetrics s')
           in map_option (cbuf \<circ> pvQueue) (map_of (smCameras s') cid) = (if mine = [] then None else Some q) \<and>
              framesReceived m = int (length mine) \<and> framesDropped m = int (length mine - length q)" by blast
  show ?thesis
    by (rule exI [of _ n], rule exI [of _ s'], rule exI [of _ e]) (use n s' in \<open>simp add: Let_def\<close>)
qed

text \<open>For the recorder the reader's frames go to sessions that \<open>Run\<close> closes on its way out. A frame of a camera
  without a session arriving after that starts a new one, which nobody closes.\<close>

lemma first_frame_opens:
  assumes "rSeg r = None" "rNextKeepAt r = zero_time" "LooksLikeJPEG (fPayload f)" "evBegin env = no_faults" "evStart env"
    and "fst (evWrite env)" "0 < cSegmentRawDuration cfg" "int (length (snd (evWrite env))) < cMaxFileBytes cfg"
  shows "\<exists>r' a. handleFrame (local_store stamp) cfg cs env f r = Some r' \<and> rSeg r' = Some a \<and>
    fst (pTmp (asPending a)) = TmpDir \<and> fget (pTmp (asPending a)) (rStore r') = Some (Video (snd (evWrite env)))"
proof -
  let ?ts = "frame_time env f"
  let ?r = "r\<lparr>rLastFrameAt := ?ts, rNextKeepAt := ?ts + keepEvery cfg\<rparr>"
  obtain p fs where b: "BeginSegment stamp no_faults cs ?ts (cOutputFPS cfg) (cTimelapseFactor cfg) (rStore r) = (Inr p, fs)"
    and p: "pWritten p = 0" "fget (pTmp p) fs = Some (Video [])" "fst (pTmp p) = TmpDir"
    by (simp add: BeginSegment_def no_faults_def Let_def)
  have o: "openSegment (local_store stamp) cfg cs env ?ts ?r =
      (Some \<lparr>asPending = p, asStartedAt = ?ts, asLastRecorded = ?ts\<rparr>, ?r\<lparr>rMetrics := IncActiveEncoders (rMetrics r), rStore := fs\<rparr>)"
    using b assms(4,5) by (simp add: openSegment_def local_store_def)
  have "handleFrame (local_store stamp) cfg cs env f r = Some (keep_frame (local_store stamp) cfg cs env ?ts ?r)"
    using assms(1-3) by (simp add: handleFrame_def Let_def encoder_output_def shouldKeep_def)
  moreover have "keep_frame (local_store stamp) cfg cs env ?ts ?r =
      write_frame (local_store stamp) cfg cs env ?ts
        (?r\<lparr>rMetrics := IncActiveEncoders (rMetrics r), rStore := fs, rSeg := Some \<lparr>asPending = p, asStartedAt = ?ts, asLastRecorded = ?ts\<rparr>\<rparr>)"
    using assms(1) o by (simp add: keep_frame_def shouldRotate_def)
  ultimately show ?thesis
    using assms(6-8) p
    by (simp add: write_frame_def encoder_output_def local_store_def segment_write_def shouldRotate_def time_sub_def Let_def)
qed

text \<open>After \<open>Close\<close>, a frame of a camera that had no session opens a segment whose temporary file stays.\<close>

lemma frame_after_close_strands:
  assumes "sess_Close (local_store stamp) cfg envs s = Some s1" "map_of (smCameras s1) (fCameraID f) = None"
    and "0 < cQueueSize cfg" "LooksLikeJPEG (fPayload f)" "evBegin env = no_faults" "evStart env" "fst (evWrite env)"
    and "0 < cSegmentRawDuration cfg" "int (length (snd (evWrite env))) < cMaxFileBytes cfg"
  shows "\<exists>s2 s3 q a. sess_Submit cfg f s1 = Some s2 \<and>
    sess_event (local_store stamp) cfg (fCameraID f) (HandleNext env) s2 = Some s3 \<and>
    map_of (smCameras s3) (fCameraID f) = Some q \<and> pvRunning q \<and> pvSeg q = Some a \<and>
    snd (pTmp (asPending a)) \<in> tmp_files (smStore s3)"
proof -
  let ?cid = "fCameraID f" and ?cs = "CameraID_String (fCameraID f)"
  let ?n = "newCamera cfg (smMetrics s1) (smStore s1)"
  let ?s = "sess_camera cfg ?cid s1"
  have m: "map_of (smCameras ?s) ?cid = Some (detach ?n)" "smStore ?s = smStore s1"
    using assms(2) by (simp_all add: sess_camera_def map_add_def)
  obtain c where c: "cam_Submit ?cs f (attach (detach ?n) ?s) = Some c" "cbuf (cQueue c) = [f]" "cRunning c"
    "rSeg (cLoop c) = None" "rNextKeepAt (cLoop c) = zero_time" "rStore (cLoop c) = smStore s1"
    using assms(3) m(2)
    by (auto simp: cam_Submit_def attach_def detach_def newCamera_def make_chan_def Send_def Send_between_def try_send_def Let_def)
  let ?s2 = "\<lparr>smCameras = AList.update ?cid (detach c) (smCameras ?s), smMetrics = rMetrics (cLoop c), smStore = rStore (cLoop c)\<rparr>"
  have s2: "sess_Submit cfg f s1 = Some ?s2" using m(1) c(1) by (simp add: sess_Submit_def with_camera_def)
  let ?c = "attach (detach c) ?s2"
  have a: "rSeg (cLoop ?c) = None" "rNextKeepAt (cLoop ?c) = zero_time" "cbuf (cQueue ?c) = [f]" "cRunning ?c"
    using c by (simp_all add: attach_def detach_def)
  from first_frame_opens [OF a(1,2) assms(4-9)] obtain r' x where
    r': "handleFrame (local_store stamp) cfg ?cs env f (cLoop ?c) = Some r'" "rSeg r' = Some x"
      "fst (pTmp (asPending x)) = TmpDir" "fget (pTmp (asPending x)) (rStore r') = Some (Video (snd (evWrite env)))" by blast
  then have "snd (pTmp (asPending x)) \<in> tmp_files (rStore r')"
    by (cases "pTmp (asPending x)") (simp add: tmp_files_def)
  with s2 a r'(1,2) show ?thesis
    by (simp add: sess_event_def with_camera_def update_conv' detach_def)
qed

end
