(* ===== verification/Camera_To_Recorder.thy ===== *)
theory Camera_To_Recorder
  imports Restream_Chain Service_Runs
begin

section \<open>From the published frames to the recorder's queues\<close>

text \<open>
  camera-web-api numbers the frames it gets over IPC and republishes them to TCP clients; any chain of proxies may
  follow, and camera-recorder at its end. Its callbacks with a client's goroutine are one more instance of
  \<open>republisher\<close>; composed with the chain and the recorder's reader they give what stands in each camera's queue.
\<close>

subsection \<open>camera-web-api and one TCP client\<close>

definition web_put :: "(bytes \<Rightarrow> angle \<Rightarrow> bytes) \<Rightarrow> ipc_msg \<Rightarrow> web_state \<Rightarrow> web_state option" where
  "web_put rotf m st = ipc_dispatch (web_handler rotf) m (Some st)"

definition web_takes :: "nat \<Rightarrow> nat \<Rightarrow> web_state \<Rightarrow> sframe list \<times> web_state" where
  "web_takes i n st = (let (fs, b) = client_takes i n (wbroadcaster st) in (fs, st\<lparr>wbroadcaster := b\<rparr>))"

definition web_client_handler :: "(bytes \<Rightarrow> angle \<Rightarrow> bytes) \<Rightarrow> nat \<Rightarrow> (web_state \<times> nat list \<times> sframe list) option ipc_handler" where
  "web_client_handler rotf i =
     \<lparr>OnFrame = Some (\<lambda>c j. with_client (web_put rotf) (web_takes i) \<lparr>mKind = KindFrame, mCameraID = c, mPayload = j\<rparr>),
      OnOffline = Some (\<lambda>c. with_client (web_put rotf) (web_takes i) \<lparr>mKind = KindOffline, mCameraID = c, mPayload = []\<rparr>),
      OnDisconnect = Some (map_option (\<lambda>(st, turns, sent). (web_OnDisconnect st, turns, sent)))\<rparr>"

definition web_subscribed :: "rot_config \<Rightarrow> (nat \<Rightarrow> gotime) \<Rightarrow> nat \<times> web_state" where
  "web_subscribed rc ck =
     (let (i, b) = Broadcaster_Subscribe (wbroadcaster (web_start rc ck)) in (i, (web_start rc ck)\<lparr>wbroadcaster := b\<rparr>))"

definition web_sends ::
  "(bytes \<Rightarrow> angle \<Rightarrow> bytes) \<Rightarrow> rot_config \<Rightarrow> (nat \<Rightarrow> gotime) \<Rightarrow> nat list \<Rightarrow> nat \<Rightarrow> bytes \<Rightarrow> sframe list option" where
  "web_sends rotf rc ck turns drain bs =
     (let (i, st) = web_subscribed rc ck
      in client_wrote (web_takes i) drain
           (fst (ipc_loop (web_client_handler rotf i) \<lparr>rbuf = bs, rend = EOF\<rparr> (Some (st, turns, [])))))"

text \<open>What the callbacks emit, and what moves with it.\<close>

definition web_good :: "nat \<Rightarrow> web_state \<Rightarrow> bool" where
  "web_good i st \<longleftrightarrow> web_ok st \<and> i \<in> set (subs (wbroadcaster st)) \<and> length (cbuf (chans (wbroadcaster st) i)) \<le> bc_cap"

definition web_core :: "web_state \<Rightarrow> web_state" where
  "web_core st = st\<lparr>wregistry := NewRegistry, wbroadcaster := NewBroadcaster\<rparr>"

definition web_emit :: "(bytes \<Rightarrow> angle \<Rightarrow> bytes) \<Rightarrow> ipc_msg \<Rightarrow> web_state \<Rightarrow> sframe list" where
  "web_emit rotf m st =
     (if mKind m = KindFrame
      then [\<lparr>fTimestamp = clock st (ticks st + 1), fSequence = seqs st (mCameraID m) + 1, fCameraID = mCameraID m,
             fPayload = rotate_for rotf (wrot st) (mCameraID m) (mPayload m)\<rparr>]
      else [])"

definition web_move :: "ipc_msg \<Rightarrow> web_state \<Rightarrow> web_state" where
  "web_move m st =
     (if mKind m = KindFrame then st\<lparr>seqs := (seqs st)(mCameraID m := seqs st (mCameraID m) + 1), ticks := ticks st + 2\<rparr> else st)"

lemma web_frame_put:
  assumes "web_good i st" "mKind m = KindFrame"
  shows "\<exists>st'. web_put rotf m st = Some st' \<and> web_good i st' \<and> web_core st' = web_move m (web_core st) \<and>
    cbuf (chans (wbroadcaster st') i) = lastn bc_cap (cbuf (chans (wbroadcaster st) i) @ web_emit rotf m (web_core st))"
proof -
  let ?c = "mCameraID m" and ?j = "rotate_for rotf (wrot st) (mCameraID m) (mPayload m)" and ?t = "clock st (ticks st)"
  let ?f = "\<lparr>fTimestamp = clock st (ticks st + 1), fSequence = seqs st ?c + 1, fCameraID = ?c, fPayload = ?j\<rparr>"
  from assms(1) have ok: "reg_ok (wregistry st)" "bcast_ok bc_cap (wbroadcaster st)" and i: "i \<in> set (subs (wbroadcaster st))"
    by (simp_all add: web_good_def web_ok_def)
  from Registry_Push_ok [OF ok(1)] obtain reg where
    reg: "Registry_Push ?t (CameraID_String ?c) ?j (wregistry st) = Some reg" "reg_ok reg" by blast
  from Broadcaster_Publish_ok [OF ok(2), of ?f] i obtain b where
    b: "Broadcaster_Publish ?f (wbroadcaster st) = Some b" "bcast_ok bc_cap b" "subs b = subs (wbroadcaster st)"
      "cbuf (chans b i) = lastn bc_cap (cbuf (chans (wbroadcaster st) i) @ [?f])" by auto
  let ?st' = "st\<lparr>wregistry := reg, wbroadcaster := b, seqs := (seqs st)(?c := seqs st ?c + 1), ticks := ticks st + 2\<rparr>"
  have "web_put rotf m st = Some ?st'"
    using reg(1) b(1) assms(2)
    by (cases "IsZero (Get (wrot st) (CameraID_String ?c))")
      (simp_all add: web_put_def ipc_dispatch_def web_handler_def web_OnFrame_def rotate_for_def Let_def)
  with reg(2) b(2-4) i assms(2) show ?thesis
    by (intro exI [of _ ?st']) (simp add: web_good_def web_ok_def web_core_def web_move_def web_emit_def lastn_def)
qed

lemma web_put_ok:
  assumes "web_good i st"
  shows "\<exists>st'. web_put rotf m st = Some st' \<and> web_good i st' \<and> web_core st' = web_move m (web_core st) \<and>
    cbuf (chans (wbroadcaster st') i) = lastn bc_cap (cbuf (chans (wbroadcaster st) i) @ web_emit rotf m (web_core st))"
proof (cases "mKind m = KindFrame")
  case True
  from web_frame_put [OF assms this] show ?thesis .
next
  case False
  let ?st' = "if mKind m = KindOffline then web_OnOffline (mCameraID m) st else st"
  from assms have ok: "web_ok st" by (simp add: web_good_def)
  from OnOffline_ok [OF ok] have "web_ok ?st'" by (simp add: ok)
  moreover have "web_put rotf m st = Some ?st'" using False by (simp add: web_put_def ipc_dispatch_def web_handler_def)
  moreover have "web_core ?st' = web_core st" "wbroadcaster ?st' = wbroadcaster st"
    by (simp_all add: web_core_def web_OnOffline_def)
  ultimately show ?thesis using False assms
    by (intro exI [of _ ?st']) (simp add: web_good_def web_move_def web_emit_def lastn_def)
qed

lemma web_takes_ok:
  assumes "web_good i st"
  shows "\<exists>st'. web_takes i n st = (take n (cbuf (chans (wbroadcaster st) i)), st') \<and> web_good i st' \<and>
    web_core st' = web_core st \<and> cbuf (chans (wbroadcaster st') i) = drop n (cbuf (chans (wbroadcaster st) i))"
proof -
  from assms have "bcast_ok bc_cap (wbroadcaster st)" by (simp add: web_good_def web_ok_def)
  from client_takes_ok [OF this, of i n] obtain b where
    "client_takes i n (wbroadcaster st) = (take n (cbuf (chans (wbroadcaster st) i)), b)" "bcast_ok bc_cap b"
    "subs b = subs (wbroadcaster st)" "cbuf (chans b i) = drop n (cbuf (chans (wbroadcaster st) i))" by blast
  with assms show ?thesis
    by (intro exI [of _ "st\<lparr>wbroadcaster := b\<rparr>"]) (simp add: web_takes_def web_good_def web_ok_def web_core_def le_diff_conv)
qed

interpretation web: republisher "web_put rotf" "web_takes i" "\<lambda>st. cbuf (chans (wbroadcaster st) i)" "web_good i" web_core
    "web_emit rotf" web_move for rotf i
proof
  show "\<exists>s'. web_put rotf e s = Some s' \<and> web_good i s' \<and> web_core s' = web_move e (web_core s) \<and>
      cbuf (chans (wbroadcaster s') i) = lastn bc_cap (cbuf (chans (wbroadcaster s) i) @ web_emit rotf e (web_core s))"
    if "web_good i s" for s e
    by (rule web_put_ok [OF that])
  show "\<exists>s'. web_takes i n s = (take n (cbuf (chans (wbroadcaster s) i)), s') \<and> web_good i s' \<and> web_core s' = web_core s \<and>
      cbuf (chans (wbroadcaster s') i) = drop n (cbuf (chans (wbroadcaster s) i))" if "web_good i s" for s n
    by (rule web_takes_ok [OF that])
qed (simp add: web_good_def)

lemma web_subscribed_ok:
  "web_subscribed rc ck = (i, st) \<Longrightarrow>
     web_good i st \<and> cbuf (chans (wbroadcaster st) i) = [] \<and> web_core st = web_core (web_start rc ck)"
  using bcast_ok_subscribe [of bc_cap NewBroadcaster] web_ok_start [of rc ck]
  by (auto simp: web_subscribed_def web_good_def web_ok_def web_start_def web_core_def Broadcaster_Subscribe_def subscribe_with_eq
      NewBroadcaster_def bcast_init_def bcast_ok_def chan_ok_def bc_cap_def)

lemma web_client_dispatch:
  assumes "published_form m"
  shows "ipc_dispatch (web_client_handler rotf i) m = with_client (web_put rotf) (web_takes i) m"
proof -
  have kk: "KindOffline \<noteq> KindFrame" by (simp add: ipc_consts)
  with assms show ?thesis by (cases m) (auto simp: published_form_def ipc_dispatch_def web_client_handler_def)
qed

text \<open>The frames of a whole run.\<close>

definition web_frames :: "(bytes \<Rightarrow> angle \<Rightarrow> bytes) \<Rightarrow> rot_config \<Rightarrow> (nat \<Rightarrow> gotime) \<Rightarrow> ipc_msg list \<Rightarrow> sframe list" where
  "web_frames rotf rc ck ms = emitted (web_emit rotf) web_move ms (web_core (web_start rc ck))"

lemma emitted_append:
  "emitted emit move (xs @ ys) c = emitted emit move xs c @ emitted emit move ys (fold move xs c)"
  by (induction xs arbitrary: c) simp_all

lemma web_frames_front: "subseq (web_frames rotf rc ck (take n ms)) (web_frames rotf rc ck ms)"
  using emitted_append [of "web_emit rotf" web_move "take n ms" "drop n ms"]
  by (simp add: web_frames_def list_emb_prefix)

lemma web_sends_ok:
  assumes "list_all published_form ms"
  shows "\<exists>gs. web_sends rotf rc ck turns drain (take k (stream_of msg_bytes ms)) = Some gs \<and>
    subseq gs (web_frames rotf rc ck ms) \<and>
    (web_frames rotf rc ck ms \<noteq> [] \<and> length (stream_of msg_bytes ms) \<le> k \<and> bc_cap \<le> drain \<longrightarrow>
       gs \<noteq> [] \<and> last gs = last (web_frames rotf rc ck ms))"
proof -
  obtain i st where w: "web_subscribed rc ck = (i, st)" by fastforce
  note g = web_subscribed_ok [OF w]
  let ?h = "web_client_handler rotf i"
  from ipc_loop_cut [OF published_form_ok [OF assms], of ?h k EOF "Some (st, turns, [])"] obtain n e where n:
    "ipc_loop ?h \<lparr>rbuf = take k (stream_of msg_bytes ms), rend = EOF\<rparr> (Some (st, turns, [])) =
      (fold (ipc_dispatch ?h) (take n ms) (Some (st, turns, [])), e)"
    "length (stream_of msg_bytes ms) \<le> k \<longrightarrow> n = length ms" by blast
  have "fold (ipc_dispatch ?h) (take n ms) (Some (st, turns, [])) =
      fold (with_client (web_put rotf) (web_takes i)) (take n ms) (Some (st, turns, []))"
    by (rule fold_cong) (use assms in \<open>auto simp: list_all_iff web_client_dispatch dest: in_set_takeD\<close>)
  with web.client_keeps_newest [of i st drain rotf "take n ms" turns] g w n(1) obtain gs where gs:
    "web_sends rotf rc ck turns drain (take k (stream_of msg_bytes ms)) = Some gs"
    "subseq gs (web_frames rotf rc ck (take n ms))"
    "web_frames rotf rc ck (take n ms) \<noteq> [] \<longrightarrow> bc_cap \<le> drain \<longrightarrow> gs \<noteq> [] \<and> last gs = last (web_frames rotf rc ck (take n ms))"
    by (auto simp: web_sends_def web_frames_def)
  from subseq_order.order_trans [OF gs(2) web_frames_front] gs(1,3) n(2) show ?thesis by (intro exI [of _ gs]) auto
qed

subsection \<open>Numbers\<close>

text \<open>The pictures of a camera, and the frame that its \<open>n\<close>-th picture becomes.\<close>

definition pics :: "camera_id \<Rightarrow> ipc_msg list \<Rightarrow> bytes list" where
  "pics c ms = map mPayload (filter (\<lambda>m. mCameraID m = c \<and> mKind m = KindFrame) ms)"

definition shot :: "(bytes \<Rightarrow> angle \<Rightarrow> bytes) \<Rightarrow> rot_config \<Rightarrow> ipc_msg list \<Rightarrow> camera_id \<Rightarrow> nat \<Rightarrow> gotime \<Rightarrow> sframe" where
  "shot rotf rc ms c n t =
     \<lparr>fTimestamp = t, fSequence = of_nat (Suc n), fCameraID = c, fPayload = rotate_for rotf rc c (pics c ms ! n)\<rparr>"

lemma pics_Cons [simp]:
  "pics c (m # ms) = (if mCameraID m = c \<and> mKind m = KindFrame then mPayload m # pics c ms else pics c ms)"
  by (simp add: pics_def)

lemma emitted_numbers:
  "map (\<lambda>f. (fSequence f, fPayload f)) (filter (\<lambda>f. fCameraID f = c) (emitted (web_emit rotf) web_move ms st)) =
     map (\<lambda>n. (seqs st c + of_nat (Suc n), rotate_for rotf (wrot st) c (pics c ms ! n))) [0..<length (pics c ms)]"
proof (induction ms arbitrary: st)
  case (Cons m ms)
  from Cons.IH [of "web_move m st"] show ?case
    by (auto simp: web_emit_def web_move_def map_upt_Suc algebra_simps simp del: upt_Suc cong: map_cong)
qed (simp add: pics_def)

lemma web_frames_numbers:
  "map (\<lambda>f. (fSequence f, fPayload f)) (filter (\<lambda>f. fCameraID f = c) (web_frames rotf rc ck ms)) =
     map (\<lambda>n. (of_nat (Suc n), rotate_for rotf rc c (pics c ms ! n))) [0..<length (pics c ms)]"
  unfolding web_frames_def emitted_numbers by (simp add: web_core_def web_start_def)

lemma web_frames_shots:
  assumes "f \<in> set (web_frames rotf rc ck ms)" "fCameraID f = c"
  shows "\<exists>n < length (pics c ms). f = shot rotf rc ms c n (fTimestamp f)"
proof -
  from assms have "(fSequence f, fPayload f) \<in>
      set (map (\<lambda>f. (fSequence f, fPayload f)) (filter (\<lambda>f. fCameraID f = c) (web_frames rotf rc ck ms)))" by simp
  then obtain n where "n < length (pics c ms)" "fSequence f = of_nat (Suc n)"
    "fPayload f = rotate_for rotf rc c (pics c ms ! n)" unfolding web_frames_numbers by auto
  then show ?thesis using assms(2) by (intro exI [of _ n]) (cases f, simp add: shot_def)
qed

lemma web_frames_increase:
  assumes "length ms < 2 ^ 64"
  shows "sorted_wrt (<) (map (\<lambda>f. unat (fSequence f)) (filter (\<lambda>f. fCameraID f = c) (web_frames rotf rc ck ms)))"
proof -
  have "length (pics c ms) \<le> length ms" by (simp add: pics_def)
  with assms have u: "unat (of_nat (Suc n) :: u64) = Suc n" if "n < length (pics c ms)" for n
    using that by (simp add: unat_of_nat del: of_nat_Suc)
  have "map (\<lambda>f. unat (fSequence f)) (filter (\<lambda>f. fCameraID f = c) (web_frames rotf rc ck ms)) =
      map (unat \<circ> fst) (map (\<lambda>f. (fSequence f, fPayload f)) (filter (\<lambda>f. fCameraID f = c) (web_frames rotf rc ck ms)))" by simp
  also have "\<dots> = map Suc [0..<length (pics c ms)]"
    unfolding web_frames_numbers using u by (simp del: of_nat_Suc)
  finally show ?thesis by (simp add: sorted_wrt_map)
qed

lemma seqs_fold_move: "seqs (fold web_move ms st) c = seqs st c + of_nat (length (pics c ms))"
  by (induction ms arbitrary: st) (auto simp: web_move_def pics_def algebra_simps)

text \<open>The last frame of all is that of the last picture, under the number of pictures of its camera.\<close>

lemma web_frames_last:
  assumes "\<exists>m \<in> set ms. mKind m = KindFrame" "c = mCameraID (last (filter (\<lambda>m. mKind m = KindFrame) ms))"
  shows "web_frames rotf rc ck ms \<noteq> [] \<and> fCameraID (last (web_frames rotf rc ck ms)) = c \<and>
    fSequence (last (web_frames rotf rc ck ms)) = of_nat (length (pics c ms))"
proof -
  from split_list_last_prop [OF assms(1)] obtain xs m ys where
    m: "ms = xs @ m # ys" "mKind m = KindFrame" "\<forall>y \<in> set ys. mKind y \<noteq> KindFrame" by blast
  then have e: "emitted (web_emit rotf) web_move ys s = []" for s
    by (induction ys arbitrary: s xs ms) (simp_all add: web_emit_def)
  have p: "pics c ys = []" "filter (\<lambda>m. mKind m = KindFrame) ys = []" using m(3) by (auto simp: pics_def)
  with assms(2) m(1,2) have "c = mCameraID m" by simp
  moreover from this p m(1,2) have "length (pics c ms) = Suc (length (pics c xs))" by (simp add: pics_def)
  ultimately show ?thesis
    using m(1,2) by (simp add: web_frames_def emitted_append e web_emit_def seqs_fold_move web_core_def web_start_def algebra_simps)
qed

lemma web_frames_ok:
  assumes "\<And>n. in_i64 (ck n)"
    and "\<And>m. m \<in> set ms \<Longrightarrow> mKind m = KindFrame \<Longrightarrow> rotate_for rotf rc (mCameraID m) (mPayload m) \<noteq> [] \<and>
      length (rotate_for rotf rc (mCameraID m) (mPayload m)) \<le> DefaultMaxFrameSize"
  shows "list_all frame_ok (web_frames rotf rc ck ms)"
proof -
  have "list_all frame_ok (emitted (web_emit rotf) web_move ms st)" if "clock st = ck" "wrot st = rc" for st
    using that assms(2)
    by (induction ms arbitrary: st) (simp_all add: web_emit_def web_move_def frame_ok_def assms(1))
  then show ?thesis by (simp add: web_frames_def web_core_def web_start_def)
qed

subsection \<open>The whole way\<close>

definition recorder_reads :: "cam_cfg \<Rightarrow> 's \<Rightarrow> bytes \<Rightarrow> 's sessions option" where
  "recorder_reads cfg st bs =
     snd (fst (upstream_loop (Some (recorder_onFrame cfg)) \<lparr>rbuf = bs, rend = EOF\<rparr> (0, Some (NewSessions metrics_New st))))"

definition queued :: "camera_id \<Rightarrow> 's sessions \<Rightarrow> sframe list option" where
  "queued c s = map_option (cbuf \<circ> pvQueue) (map_of (smCameras s) c)"

lemma sorted_wrt_subseq: "subseq xs ys \<Longrightarrow> sorted_wrt P ys \<Longrightarrow> sorted_wrt P xs"
  by (induction rule: list_emb.induct) (auto dest: list_emb_set)

lemma subseqD: "subseq xs ys \<Longrightarrow> x \<in> set xs \<Longrightarrow> x \<in> set ys"
  by (erule list_emb_set) blast+

lemma last_filter_last: "xs \<noteq> [] \<Longrightarrow> P (last xs) \<Longrightarrow> filter P xs \<noteq> [] \<and> last (filter P xs) = last xs"
  by (cases xs rule: rev_cases) simp_all

text \<open>Frames of one camera among those delivered: their numbers, and what the transforms made of the pictures.\<close>

lemma delivered_shots:
  assumes "delivered hs (web_frames rotf rc ck ms) out" "length ms < 2 ^ 64" "q = lastn b (filter (\<lambda>f. fCameraID f = c) (take i out))"
  shows "sorted_wrt (<) (map (\<lambda>f. unat (fSequence f)) q)"
    and "f \<in> set q \<Longrightarrow> \<exists>n t. n < length (pics c ms) \<and> frame_name f = frame_name (shot rotf rc ms c n t) \<and>
      (list_all memoryless hs \<longrightarrow> f = through hs (shot rotf rc ms c n t))"
proof -
  let ?P = "\<lambda>f. fCameraID f = c" and ?w = "web_frames rotf rc ck ms"
  from delivered_front [OF assms(1), of i] have d: "subseq (map frame_name (take i out)) (map frame_name ?w)"
    "list_all memoryless hs \<Longrightarrow> subseq (take i out) (map (through hs) ?w)" by (simp_all add: delivered_def)
  have q: "subseq q (filter ?P (take i out))" by (simp add: assms(3) subseq_lastn)
  have num: "map (\<lambda>f. unat (fSequence f)) (filter ?P xs) = map (unat \<circ> snd \<circ> snd) (filter (\<lambda>n. fst n = c) (map frame_name xs))" for xs
    by (induction xs) (simp_all add: frame_name_def)
  have "subseq (map (\<lambda>f. unat (fSequence f)) q) (map (\<lambda>f. unat (fSequence f)) (filter ?P (take i out)))"
    by (rule subseq_map [OF q])
  also have "subseq \<dots> (map (\<lambda>f. unat (fSequence f)) (filter ?P ?w))"
    unfolding num by (intro subseq_map subseq_filter d(1))
  finally show "sorted_wrt (<) (map (\<lambda>f. unat (fSequence f)) q)"
    by (rule sorted_wrt_subseq) (rule web_frames_increase [OF assms(2)])
  assume "f \<in> set q"
  then have "f \<in> set (filter ?P (take i out))" by (rule subseqD [OF q])
  then have f: "f \<in> set (take i out)" "fCameraID f = c" by simp_all
  have "\<exists>g \<in> set ?w. frame_name g = frame_name f \<and> (list_all memoryless hs \<longrightarrow> f = through hs g)"
  proof (cases "list_all memoryless hs")
    case True
    from subseqD [OF d(2) [OF True] f(1)] obtain g where "g \<in> set ?w" "f = through hs g" by auto
    then show ?thesis by (intro bexI [of _ g]) (simp_all add: frame_name_through)
  next
    case False
    have "frame_name f \<in> set (map frame_name (take i out))" unfolding set_map by (rule imageI [OF f(1)])
    from subseqD [OF d(1) this] obtain g where "g \<in> set ?w" "frame_name g = frame_name f" by auto
    with False show ?thesis by blast
  qed
  then obtain g where g: "g \<in> set ?w" "frame_name g = frame_name f" "list_all memoryless hs \<longrightarrow> f = through hs g" by blast
  from g(2) f(2) have "fCameraID g = c" by (simp add: frame_name_def)
  from web_frames_shots [OF g(1) this] g(2,3) show "\<exists>n t. n < length (pics c ms) \<and> frame_name f = frame_name (shot rotf rc ms c n t) \<and>
      (list_all memoryless hs \<longrightarrow> f = through hs (shot rotf rc ms c n t))" by metis
qed

lemma newest_queued:
  assumes "newest_of hs gs out" "gs \<noteq> []" "last gs = last (web_frames rotf rc ck ms)" "0 < b" "length ms < 2 ^ 64"
    and "\<exists>m \<in> set ms. mKind m = KindFrame" "c = mCameraID (last (filter (\<lambda>m. mKind m = KindFrame) ms))"
    and "q = lastn b (filter (\<lambda>f. fCameraID f = c) out)"
  shows "q \<noteq> [] \<and> unat (fSequence (last q)) = length (pics c ms)"
proof -
  note l = web_frames_last [OF assms(6,7), of rotf rc ck]
  from assms(1,3) have o: "out \<noteq> []" "frame_name (last out) = frame_name (last (web_frames rotf rc ck ms))"
    by (simp_all add: newest_of_def)
  with l have m: "fCameraID (last out) = c" "fSequence (last out) = of_nat (length (pics c ms))" by (simp_all add: frame_name_def)
  from last_filter_last [OF o(1), of "\<lambda>f. fCameraID f = c"] m(1)
  have f: "filter (\<lambda>f. fCameraID f = c) out \<noteq> []" "last (filter (\<lambda>f. fCameraID f = c) out) = last out" by simp_all
  have "length (pics c ms) \<le> length ms" by (simp add: pics_def)
  with assms(5) have "unat (of_nat (length (pics c ms)) :: u64) = length (pics c ms)" by (simp add: unat_of_nat)
  with last_lastn [OF assms(4) f(1)] f(2) m(2) assms(8) show ?thesis by simp
qed

lemma recorder_queues:
  assumes "list_all frame_ok out" "0 < cQueueSize cfg"
  shows "\<exists>n s'. recorder_reads cfg st (take j (stream_of frame_bytes out)) = Some s' \<and>
    (length (stream_of frame_bytes out) \<le> j \<longrightarrow> n = length out) \<and>
    (\<forall>c. let mine = filter (\<lambda>f. fCameraID f = c) (take n out)
       in queued c s' = (if mine = [] then None else Some (lastn (cQueueSize cfg) mine)))"
proof -
  from recorder_reads_stream [OF assms, of j EOF st] obtain n s' e where
    l: "length (stream_of frame_bytes out) \<le> j \<longrightarrow> n = length out" and
    u: "upstream_loop (Some (recorder_onFrame cfg)) \<lparr>rbuf = take j (stream_of frame_bytes out), rend = EOF\<rparr>
      (0, Some (NewSessions metrics_New st)) = ((n, Some s'), e)" and
    q: "\<forall>c. let mine = filter (\<lambda>f. fCameraID f = c) (take n out); q = lastn (cQueueSize cfg) mine
       in map_option (cbuf \<circ> pvQueue) (map_of (smCameras s') c) = (if mine = [] then None else Some q) \<and>
          framesDropped (ensureCamera (CameraID_String c) (smMetrics s')) = int (length mine - length q)" by blast
  from u have "recorder_reads cfg st (take j (stream_of frame_bytes out)) = Some s'" by (simp add: recorder_reads_def)
  with l q show ?thesis by (intro exI [of _ n] exI [of _ s']) (simp add: queued_def Let_def)
qed


definition sample_ipc :: "ipc_msg list" where
  "sample_ipc = [\<lparr>mKind = KindFrame, mCameraID = 17, mPayload = [1]\<rparr>, \<lparr>mKind = KindOffline, mCameraID = 17, mPayload = []\<rparr>,
     \<lparr>mKind = KindFrame, mCameraID = 17, mPayload = [2, 3]\<rparr>]"


end
