(* ===== verification/Recorder_Api.thy ===== *)
theory Recorder_Api
  imports Recorder_Config Livefeed_Http
begin

section \<open>The recorder's HTTP API, metrics text and usage loop (camera-recorder/internal/app, metrics, usage)\<close>

text \<open>
  The handlers over the store's directory tree, the sessions and the metrics; the query parser with its
  limit and time bounds; the Prometheus text; and the loop that measures storage. A request's query is a
  function from a name to its first value, its path the list of its segments. Reading an RFC 3339 time is
  the parameter \<open>rfc3339\<close>; the texts of error responses are left out. Counter values are printed as \<open>%g\<close> prints an integral \<open>float64\<close> below
  \<open>2 ^ 53\<close>, and labels are camera IDs in printable ASCII without quotes.
\<close>

subsection \<open>The Prometheus text\<close>

definition strip_zeros :: "string \<Rightarrow> string" where
  "strip_zeros s = rev (dropWhile (\<lambda>c. c = CHR ''0'') (rev s))"

text \<open>\<open>%g\<close> uses an exponent from seven digits on, and then keeps the digits up to the last nonzero one.\<close>

definition g_nat :: "nat \<Rightarrow> string" where
  "g_nat n =
     (let ds = format_uint n; ex = length ds - 1
      in if ex < 6 then ds
         else let sig = strip_zeros ds
              in [hd sig] @ (if tl sig = [] then [] else CHR ''.'' # tl sig) @ ''e+'' @
                 (if ex < 10 then ''0'' else []) @ format_uint ex)"

definition g_int :: "int \<Rightarrow> string" where
  "g_int n = (if n < 0 then CHR ''-'' # g_nat (nat (- n)) else g_nat (nat n))"

definition nl :: string where "nl = [CHR 10]"

definition writeMetricHeader :: "string \<Rightarrow> string \<Rightarrow> string \<Rightarrow> string" where
  "writeMetricHeader nm help ty = ''# HELP '' @ nm @ '' '' @ help @ nl @ ''# TYPE '' @ nm @ '' '' @ ty @ nl"

definition writeGauge :: "string \<Rightarrow> string \<Rightarrow> int \<Rightarrow> string" where
  "writeGauge nm help v = ''# HELP '' @ nm @ '' '' @ help @ nl @ ''# TYPE '' @ nm @ '' gauge'' @ nl @ nm @ '' '' @ g_int v @ nl"

definition writeCounter :: "string \<Rightarrow> string \<Rightarrow> int \<Rightarrow> string" where
  "writeCounter nm help v = ''# HELP '' @ nm @ '' '' @ help @ nl @ ''# TYPE '' @ nm @ '' counter'' @ nl @ nm @ '' '' @ g_int v @ nl"

definition writeSampleLabel :: "string \<Rightarrow> string \<Rightarrow> int \<Rightarrow> string" where
  "writeSampleLabel nm cid v = nm @ ''{camera_id='' @ [CHR 34] @ cid @ [CHR 34] @ ''} '' @ g_int v @ nl"

definition snapshot :: "rec_metrics \<Rightarrow> string list \<times> (string \<rightharpoonup> cam_metrics)" where
  "snapshot m = (sort (map fst (camMetrics m)), map_of (camMetrics m))"

definition family :: "string \<Rightarrow> string \<Rightarrow> (cam_metrics \<Rightarrow> int) \<Rightarrow> rec_metrics \<Rightarrow> string" where
  "family nm help sel m =
     (let (ids, cams) = snapshot m
      in writeMetricHeader nm help ''counter'' @
         concat (map (\<lambda>cid. case cams cid of None \<Rightarrow> [] | Some c \<Rightarrow> writeSampleLabel nm cid (sel c)) ids))"

definition WritePrometheus :: "rec_metrics \<Rightarrow> string" where
  "WritePrometheus m =
     writeGauge ''camera_recorder_active_cameras'' ''Number of cameras seen by the recorder.'' (int (length (camMetrics m))) @
     writeGauge ''camera_recorder_active_encoders'' ''Number of currently running ffmpeg encoders.'' (activeEncoders m) @
     writeGauge ''camera_recorder_storage_bytes'' ''Total completed MP4 bytes under recorder storage.'' (storageBytes m) @
     writeCounter ''camera_recorder_encoder_errors_total'' ''Total ffmpeg encoder errors.'' (encoderErrors m) @
     writeCounter ''camera_recorder_segments_completed_total'' ''Total completed video segments.'' (segmentsDone m) @
     family ''camera_recorder_frames_received_total'' ''Total frames received from upstream.'' framesReceived m @
     family ''camera_recorder_frames_recorded_total'' ''Total frames selected for timelapse recording.'' framesRecorded m @
     family ''camera_recorder_frames_dropped_total'' ''Total frames dropped by recorder queues or timelapse sampling.'' framesDropped m @
     family ''camera_recorder_camera_segments_completed_total'' ''Completed video segments per camera.'' camSegmentsDone m"

definition ActiveCameras :: "rec_metrics \<Rightarrow> int" where
  "ActiveCameras m = int (length (camMetrics m))"

subsection \<open>The usage loop\<close>

text \<open>One element per turn of the loop: the faults \<open>UsageBytes\<close> meets and the store at that time; the
  context ends after the last one. The result is the metrics and the number of logged failures.\<close>

definition DefaultInterval :: int where "DefaultInterval = 10 * second"

definition usage_interval :: "int \<Rightarrow> int" where
  "usage_interval d = (if d \<le> 0 then DefaultInterval else d)"

definition usage_turn :: "bool \<Rightarrow> store_error + int \<Rightarrow> rec_metrics \<times> nat \<Rightarrow> rec_metrics \<times> nat" where
  "usage_turn ctx_done res st =
     (case st of (m, logged) \<Rightarrow>
        (case res of
           Inr n \<Rightarrow> (SetStorageBytes n m, logged)
         | Inl e \<Rightarrow> if \<not> ctx_done then (m, logged + 1) else (m, logged)))"

fun usage_Run :: "(bool \<times> faults \<times> localfs) list \<Rightarrow> rec_metrics \<times> nat \<Rightarrow> rec_metrics \<times> nat" where
  "usage_Run [] st = st"
| "usage_Run ((ctx_done, flt, fs) # ts) st =
     (let st' = usage_turn ctx_done (UsageBytes flt fs) st
      in if ctx_done then st' else usage_Run ts st')"

subsection \<open>Queries\<close>

datatype query_err = BadNumber num_err | NegativeLimit | BadTime

definition unix_time :: "int \<Rightarrow> gotime" where
  "unix_time n = (i64 (n + 62135596800) - 62135596800) * second"

definition parseTime :: "(string \<Rightarrow> gotime option) \<Rightarrow> string \<Rightarrow> query_err + gotime" where
  "parseTime rfc3339 v =
     (if v = [] then Inr zero_time
      else case rfc3339 v of
             Some t \<Rightarrow> Inr t
           | None \<Rightarrow> (case parse_int 64 v of Inl e \<Rightarrow> Inl (BadNumber e) | Inr n \<Rightarrow> Inr (unix_time n)))"

definition parseListFilter :: "(string \<Rightarrow> gotime option) \<Rightarrow> (string \<Rightarrow> string) \<Rightarrow> query_err + list_filter" where
  "parseListFilter rfc3339 q =
     (case (if q ''limit'' \<noteq> [] then
              (case atoi (q ''limit'') of
                 Inl e \<Rightarrow> Inl (BadNumber e)
               | Inr n \<Rightarrow> if n < 0 then Inl NegativeLimit else Inr (if n > 1000 then 1000 else n))
            else Inr 100) of
        Inl e \<Rightarrow> Inl e
      | Inr limit \<Rightarrow>
          (case parseTime rfc3339 (q ''from'') of
             Inl e \<Rightarrow> Inl e
           | Inr fr \<Rightarrow>
               (case parseTime rfc3339 (q ''to'') of
                  Inl e \<Rightarrow> Inl e
                | Inr t \<Rightarrow> Inr \<lparr>lfCameraID = q ''camera_id'', lfFrom = fr, lfTo = t, lfLimit = limit\<rparr>)))"

subsection \<open>Handlers\<close>

datatype rec_body =
    RNone
  | RText string
  | RService
  | RMetrics string
  | RCameras "string list" "string list"
  | RVideos "seg_info list"
  | RVideo fdata seg_info

record rec_resp =
  rsStatus :: nat
  rsHeaders :: "(string \<times> string) list"
  rsBody :: rec_body

definition rec_writeJSON :: "rec_body \<Rightarrow> rec_resp" where
  "rec_writeJSON b = \<lparr>rsStatus = 200, rsHeaders = [(''Content-Type'', ''application/json'')], rsBody = b\<rparr>"

definition rec_error :: "nat \<Rightarrow> string \<Rightarrow> rec_resp" where
  "rec_error code msg = \<lparr>rsStatus = code, rsHeaders = [(''Content-Type'', ''text/plain; charset=utf-8'')], rsBody = RText msg\<rparr>"

definition rec_handleRoot :: rec_resp where
  "rec_handleRoot = rec_writeJSON RService"

definition rec_handleHealth :: rec_resp where
  "rec_handleHealth = \<lparr>rsStatus = 204, rsHeaders = [], rsBody = RNone\<rparr>"

definition rec_handleMetrics :: "faults \<Rightarrow> localfs \<Rightarrow> rec_metrics \<Rightarrow> rec_resp \<times> rec_metrics" where
  "rec_handleMetrics flt fs m =
     (let m' = (case UsageBytes flt fs of Inr n \<Rightarrow> SetStorageBytes n m | Inl e \<Rightarrow> m)
      in (\<lparr>rsStatus = 200, rsHeaders = [(''Content-Type'', ''text/plain; version=0.0.4; charset=utf-8'')],
           rsBody = RMetrics (WritePrometheus m')\<rparr>, m'))"

definition rec_handleCameras :: "faults \<Rightarrow> localfs \<Rightarrow> 's sessions \<Rightarrow> rec_resp" where
  "rec_handleCameras flt fs s =
     (case Cameras flt fs of
        Inl e \<Rightarrow> rec_error 500 []
      | Inr cams \<Rightarrow> rec_writeJSON (RCameras cams (ActiveCameraIDs s)))"

definition rec_handleVideos :: "(string \<Rightarrow> gotime option) \<Rightarrow> faults \<Rightarrow> (string \<Rightarrow> string) \<Rightarrow> localfs \<Rightarrow> rec_resp" where
  "rec_handleVideos rfc3339 flt q fs =
     (case parseListFilter rfc3339 q of
        Inl e \<Rightarrow> rec_error 400 []
      | Inr f \<Rightarrow> (case List_segments flt f fs of Inl e \<Rightarrow> rec_error 500 [] | Inr infos \<Rightarrow> rec_writeJSON (RVideos infos)))"

definition rec_handleVideoFile :: "faults \<Rightarrow> string \<Rightarrow> string \<Rightarrow> localfs \<Rightarrow> rec_resp" where
  "rec_handleVideoFile flt cid nm fs =
     (case Open_segment flt cid nm fs of
        Inl e \<Rightarrow> rec_error 404 ''404 page not found''
      | Inr (d, info) \<Rightarrow>
          \<lparr>rsStatus = 200, rsHeaders = [(''Content-Type'', ''video/mp4''), (''Cache-Control'', ''public, max-age=300'')],
           rsBody = RVideo d info\<rparr>)"

datatype rec_endpoint = RRoot | RHealth | RMetricsEP | RCamerasEP | RVideosEP | RVideoFile string string | RNotAllowed

text \<open>The mux's patterns are for GET, which serves HEAD too; the root pattern takes every other path.\<close>

definition rec_routes :: "string \<Rightarrow> string list \<Rightarrow> rec_endpoint" where
  "rec_routes meth path =
     (if meth \<noteq> ''GET'' \<and> meth \<noteq> ''HEAD'' then RNotAllowed
      else if path = [''healthz''] then RHealth
      else if path = [''metrics''] then RMetricsEP
      else if path = [''cameras''] then RCamerasEP
      else if path = [''videos''] then RVideosEP
      else if length path = 3 \<and> hd path = ''videos'' then RVideoFile (path ! 1) (path ! 2)
      else RRoot)"

subsection \<open>Lemmas\<close>

lemma parse_limit_texts: "atoi ''0'' = Inr 0" "atoi ''-1'' = Inr (- 1)" "\<exists>e. atoi ''x'' = Inl e"
  by (simp_all add: atoi_def parse_int_def parse_uint_def Let_def digit_val_def)

lemma parseTime_empty [simp]: "parseTime rfc3339 [] = Inr zero_time"
  by (simp add: parseTime_def)

definition last_success :: "(bool \<times> faults \<times> localfs) list \<Rightarrow> int \<Rightarrow> int" where
  "last_success ts n0 = fold (\<lambda>(b, flt, fs) n. case UsageBytes flt fs of Inr k \<Rightarrow> k | Inl e \<Rightarrow> n) ts n0"

lemma usage_Run_last:
  assumes "\<forall>(b, flt, fs) \<in> set ts. \<not> b"
  shows "usage_Run ts (m, k) = (m\<lparr>storageBytes := last_success ts (storageBytes m)\<rparr>,
    k + length (filter (\<lambda>(b, flt, fs). \<exists>e. UsageBytes flt fs = Inl e) ts))"
  using assms
proof (induction ts arbitrary: m k)
  case Nil
  then show ?case by (simp add: last_success_def)
next
  case (Cons t ts)
  then obtain flt fs where t: "t = (False, flt, fs)" by (cases t) auto
  show ?case
  proof (cases "UsageBytes flt fs")
    case (Inl e)
    with Cons t show ?thesis by (simp add: usage_turn_def last_success_def)
  next
    case (Inr n)
    with Cons t show ?thesis by (simp add: usage_turn_def last_success_def SetStorageBytes_def)
  qed
qed

subsection \<open>Properties\<close>

text \<open>the list endpoint: a request without \<open>limit\<close> asks for 100 entries and one with a positive limit for at
  most 1000; an unreadable or negative limit is answered 400; but \<open>limit=0\<close> lists every segment, past the cap.\<close>

theorem list_limit:
  assumes "q ''from'' = []" "q ''to'' = []" "0 < n" "n < 2 ^ 63"
  shows "parseListFilter rfc3339 (q(''limit'' := [])) = Inr ((all_of (q ''camera_id''))\<lparr>lfLimit := 100\<rparr>) \<and>
    parseListFilter rfc3339 (q(''limit'' := format_uint n)) = Inr ((all_of (q ''camera_id''))\<lparr>lfLimit := min 1000 (int n)\<rparr>) \<and>
    rec_handleVideos rfc3339 flt (q(''limit'' := ''-1'')) fs = rec_error 400 [] \<and>
    rec_handleVideos rfc3339 flt (q(''limit'' := ''x'')) fs = rec_error 400 [] \<and>
    rec_handleVideos rfc3339 flt (q(''limit'' := ''0'')) fs =
      (case List_segments flt (all_of (q ''camera_id'')) fs of
         Inr infos \<Rightarrow> rec_writeJSON (RVideos infos) | Inl e \<Rightarrow> rec_error 500 [])"
  using assms parse_limit_texts atoi_format [OF assms(4)]
  by (auto simp: parseListFilter_def rec_handleVideos_def all_of_def split: sum.splits)

theorem list_limit_witness:
  "parseListFilter (\<lambda>v. None) ((\<lambda>k. [])(''limit'' := format_uint 5000)) = Inr ((all_of [])\<lparr>lfLimit := 1000\<rparr>)"
  using list_limit [of "\<lambda>k. []" 5000 "\<lambda>v. None"] by simp

text \<open>the storage gauge: while the context lives, the gauge holds the last successful measurement, or its
  first value when there was none, and each failed measurement is logged once and changes nothing else.\<close>

theorem usage_gauge_keeps_last:
  assumes "\<forall>(ctx_done, flt, fs) \<in> set ts. \<not> ctx_done"
  shows "usage_Run (ts @ [(True, flt, fs)]) (m, 0) =
    (m\<lparr>storageBytes := last_success (ts @ [(True, flt, fs)]) (storageBytes m)\<rparr>,
     length (filter (\<lambda>(b, flt, fs). \<exists>e. UsageBytes flt fs = Inl e) ts))"
proof -
  have app: "usage_Run (ts @ us) st = usage_Run us (usage_Run ts st)" for us st
    using assms
  proof (induction ts arbitrary: st)
    case (Cons t ts)
    then obtain a b where t: "t = (False, a, b)" by (cases t) auto
    with Cons.IH [of "usage_turn False (UsageBytes a b) st"] Cons.prems show ?case by (simp add: Let_def)
  qed simp
  show ?thesis
    by (simp add: app usage_Run_last [OF assms])
       (auto simp: usage_turn_def last_success_def SetStorageBytes_def split: sum.split)
qed

theorem usage_gauge_keeps_last_witness:
  "storageBytes (fst (usage_Run [(False, no_faults\<lparr>flt_readdir := True\<rparr>, sample_fs), (True, no_faults\<lparr>flt_cancelled := True\<rparr>, sample_fs)]
     (metrics_New\<lparr>storageBytes := 42\<rparr>, 0))) = 42"
  using usage_gauge_keeps_last [of "[(False, no_faults\<lparr>flt_readdir := True\<rparr>, sample_fs)]"
      "no_faults\<lparr>flt_cancelled := True\<rparr>" sample_fs "metrics_New\<lparr>storageBytes := 42\<rparr>"]
  by (simp add: last_success_def UsageBytes_def Cameras_def List_segments_def no_faults_def)

end
