(* ===== verification/Compose.thy ===== *)
theory Compose
  imports Rotation Stream_Proto Go_Float "HOL-Library.AList"
begin

section \<open>The merged canvas (ffmpeg-streamer/internal/compose)\<close>

text \<open>
  The grid of all cameras' frames: layout, scaling and drawing, on the images of \<open>Rotation\<close>. Decoding
  and encoding JPEG are parameters; coordinates are unbounded integers. \<open>ceil_sqrt\<close> is the number of
  columns that \<open>math.Ceil(math.Sqrt(n))\<close> gives. The lemmas show that a scaled frame fits its cell in
  spite of the rounding, and that drawing one cell leaves the others alone.
\<close>

subsection \<open>Layout and scaling\<close>

text \<open>The least \<open>c \<ge> k\<close> with \<open>n \<le> c * c\<close>.\<close>

function ceil_sqrt_from :: "nat \<Rightarrow> nat \<Rightarrow> nat" where
  "ceil_sqrt_from n k = (if n \<le> k * k then k else ceil_sqrt_from n (Suc k))"
  by pat_completeness auto
termination
proof (relation "measure (\<lambda>(n, k). n - k)")
  fix n k :: nat
  assume "\<not> n \<le> k * k"
  moreover have "k \<le> k * k" by simp
  ultimately have "k < n" by linarith
  then show "((n, Suc k), (n, k)) \<in> measure (\<lambda>(n, k). n - k)" by simp
qed simp

declare ceil_sqrt_from.simps [simp del]

definition ceil_sqrt :: "nat \<Rightarrow> nat" where
  "ceil_sqrt n = ceil_sqrt_from n 0"

definition gridLayout :: "nat \<Rightarrow> nat \<times> nat" where
  "gridLayout n =
     (if n = 0 then (0, 0)
      else let cols = ceil_sqrt n; rows = (n + cols - 1) div cols in (cols, rows))"

definition scaled_size :: "int \<Rightarrow> int \<Rightarrow> int \<Rightarrow> int \<Rightarrow> int \<times> int" where
  "scaled_size srcW srcH maxW maxH =
     (let scaleX = fl64 (of_int maxW / of_int srcW); scaleY = fl64 (of_int maxH / of_int srcH);
          scale = (if scaleY < scaleX then scaleY else scaleX)
      in (f_trunc (fl64 (of_int srcW * scale)), f_trunc (fl64 (of_int srcH * scale))))"

definition resample :: "('c \<Rightarrow> 'c) \<Rightarrow> 'c \<Rightarrow> int \<Rightarrow> int \<Rightarrow> 'c img \<Rightarrow> 'c img" where
  "resample conv blank dstW dstH src =
     fold (\<lambda>y. fold (\<lambda>x. set_pixel conv (int x, int y)
           (at_pixel src (go_div (int x * dx src) dstW) (go_div (int y * dy src) dstH)))
        [0..<nat dstW]) [0..<nat dstH] (NewRGBA blank dstW dstH)"

definition fitImage :: "('c \<Rightarrow> 'c) \<Rightarrow> 'c \<Rightarrow> 'c img \<Rightarrow> int \<Rightarrow> int \<Rightarrow> 'c img" where
  "fitImage conv blank src maxW maxH =
     (let srcW = dx src; srcH = dy src
      in if srcW = 0 \<or> srcH = 0 then NewRGBA blank maxW maxH
         else let (dstW, dstH) = scaled_size srcW srcH maxW maxH
              in if dstW = srcW \<and> dstH = srcH then src else resample conv blank dstW dstH src)"

subsection \<open>Drawing\<close>

definition cell_origin :: "nat \<Rightarrow> int \<Rightarrow> int \<Rightarrow> nat \<Rightarrow> 'c img \<Rightarrow> int \<times> int" where
  "cell_origin cols cellW cellH i sc =
     (int (i mod cols) * cellW + go_div (cellW - dx sc) 2, int (i div cols) * cellH + go_div (cellH - dy sc) 2)"

text \<open>\<open>draw.Draw\<close> with \<open>draw.Src\<close>: the pixels of the scaled frame at their place, clipped to the canvas.\<close>

definition draw_src :: "('c \<Rightarrow> 'c) \<Rightarrow> int \<times> int \<Rightarrow> 'c img \<Rightarrow> 'c img \<Rightarrow> 'c img" where
  "draw_src conv off sc canvas = copy_pixels conv (\<lambda>x y. (fst off + x, snd off + y)) sc canvas"

definition draw_cell :: "('c \<Rightarrow> 'c) \<Rightarrow> 'c \<Rightarrow> nat \<Rightarrow> int \<Rightarrow> int \<Rightarrow> nat \<times> 'c img \<Rightarrow> 'c img \<Rightarrow> 'c img" where
  "draw_cell conv blank cols cellW cellH ic canvas =
     (let sc = fitImage conv blank (snd ic) cellW cellH
      in draw_src conv (cell_origin cols cellW cellH (fst ic) sc) sc canvas)"

definition paint :: "('c \<Rightarrow> 'c) \<Rightarrow> 'c \<Rightarrow> int \<Rightarrow> int \<Rightarrow> 'c img list \<Rightarrow> 'c img" where
  "paint conv blank cellW cellH cells =
     (let (cols, rows) = gridLayout (length cells)
      in fold (draw_cell conv blank cols cellW cellH) (enumerate 0 cells)
           (NewRGBA blank (int cols * cellW) (int rows * cellH)))"

definition decoded_cells :: "(bytes \<Rightarrow> 'c img option) \<Rightarrow> (camera_id \<times> bytes) list \<Rightarrow> 'c img list" where
  "decoded_cells decode frames =
     concat (map (\<lambda>cid. case map_of frames cid of None \<Rightarrow> []
                        | Some data \<Rightarrow> (case decode data of None \<Rightarrow> [] | Some im \<Rightarrow> [im]))
       (sort (map fst frames)))"

datatype compose_error = EncodeCanvas

definition Canvas :: "('c \<Rightarrow> 'c) \<Rightarrow> 'c \<Rightarrow> (bytes \<Rightarrow> 'c img option) \<Rightarrow> ('c img \<Rightarrow> bytes option) \<Rightarrow>
    (camera_id \<times> bytes) list \<Rightarrow> int \<Rightarrow> int \<Rightarrow> compose_error + bytes option" where
  "Canvas conv blank decode encode frames cellW cellH =
     (if frames = [] then Inr None
      else let cells = decoded_cells decode frames
           in if cells = [] then Inr None
              else case encode (paint conv blank cellW cellH cells) of
                     None \<Rightarrow> Inl EncodeCanvas
                   | Some b \<Rightarrow> Inr (Some b))"

subsection \<open>Lemmas\<close>

lemma ceil_sqrt_from_spec: "n \<le> ceil_sqrt_from n k * ceil_sqrt_from n k \<and> (\<forall>j. k \<le> j \<longrightarrow> n \<le> j * j \<longrightarrow> ceil_sqrt_from n k \<le> j)"
proof (induction n k rule: ceil_sqrt_from.induct)
  case (1 n k)
  show ?case
  proof (cases "n \<le> k * k")
    case True
    then show ?thesis by (subst (1 2 3) ceil_sqrt_from.simps) simp
  next
    case False
    then have e: "ceil_sqrt_from n k = ceil_sqrt_from n (Suc k)" by (subst ceil_sqrt_from.simps) simp
    show ?thesis using 1 [OF False] False unfolding e by (metis le_antisym not_less_eq_eq)
  qed
qed

lemma ceil_sqrt_spec: "n \<le> ceil_sqrt n * ceil_sqrt n" "n \<le> j * j \<Longrightarrow> ceil_sqrt n \<le> j"
  using ceil_sqrt_from_spec [of n 0] by (auto simp: ceil_sqrt_def)

lemma grid_spec:
  assumes "0 < n" "gridLayout n = (cols, rows)"
  shows "0 < cols \<and> n \<le> cols * rows \<and> rows \<le> cols \<and> (\<forall>i < n. i mod cols < cols \<and> i div cols < rows)"
proof -
  from assms have c: "cols = ceil_sqrt n" "rows = (n + cols - 1) div cols" by (auto simp: gridLayout_def Let_def)
  have p: "0 < cols" using ceil_sqrt_spec(1) [of n] assms(1) c(1) by (cases "ceil_sqrt n") auto
  have "n + cols - 1 < cols * (rows + 1)" using p c(2) by (metis Suc_eq_plus1 dividend_less_times_div mult.commute mult_Suc_right add.commute)
  with p have n: "n \<le> cols * rows" by simp
  have "rows < cols + 1"
  proof -
    have "n + cols - 1 < (cols + 1) * cols" using ceil_sqrt_spec(1) [of n] p by (simp add: c(1))
    then show ?thesis by (simp add: c(2) less_mult_imp_div_less)
  qed
  moreover have "i div cols < rows" if "i < n" for i
    using that n by (simp add: less_mult_imp_div_less mult.commute)
  ultimately show ?thesis using p n by simp
qed

lemma scaled_size_bounds:
  assumes "0 < srcW" "0 < srcH" "0 \<le> maxW" "maxW \<le> 2 ^ 50" "0 \<le> maxH" "maxH \<le> 2 ^ 50"
    and "scaled_size srcW srcH maxW maxH = (w, h)"
  shows "0 \<le> w \<and> w \<le> maxW \<and> 0 \<le> h \<and> h \<le> maxH"
proof -
  define sx sy where "sx = (of_int maxW / of_int srcW :: rat)" and "sy = (of_int maxH / of_int srcH :: rat)"
  define r where "r = (if fl64 sy < fl64 sx then fl64 sy else fl64 sx)"
  have s: "0 \<le> sx" "0 \<le> sy" "sx * of_int srcW \<le> of_int maxW" "sy * of_int srcH \<le> of_int maxH"
    using assms(1-6) by (simp_all add: sx_def sy_def)
  have r: "0 \<le> r" "r \<le> fl64 sx" "r \<le> fl64 sy" using fl64_nonneg s by (auto simp: r_def)
  have m: "(of_int maxW :: rat) \<le> 2 ^ 50" "(of_int maxH :: rat) \<le> 2 ^ 50" "(0::rat) \<le> of_int maxW" "(0::rat) \<le> of_int maxH"
    using of_int_le_iff [of maxW "2 ^ 50", where ?'a = rat] of_int_le_iff [of maxH "2 ^ 50", where ?'a = rat] assms(3-6)
    by simp_all
  have "w = f_trunc (fl64 (of_int srcW * r))" "h = f_trunc (fl64 (of_int srcH * r))"
    using assms(7) by (auto simp: scaled_size_def Let_def r_def sx_def sy_def)
  moreover have "0 \<le> fl64 (of_int srcW * r) \<and> fl64 (of_int srcW * r) < of_int maxW + 1"
    by (rule fl64_scaled [OF m(3,1) s(1,3) _ r(1,2)]) (use assms(1) in simp)
  moreover have "0 \<le> fl64 (of_int srcH * r) \<and> fl64 (of_int srcH * r) < of_int maxH + 1"
    by (rule fl64_scaled [OF m(4,2) s(2,4) _ r(1,3)]) (use assms(2) in simp)
  ultimately show ?thesis using f_trunc_less by blast
qed

lemma resample_dims:
  assumes "0 \<le> w" "0 \<le> h"
  shows "\<exists>f. resample conv blank w h src = (NewRGBA blank w h)\<lparr>pix := f\<rparr>"
proof -
  have "\<exists>f. resample conv blank w h src = (NewRGBA blank w h)\<lparr>pix := f\<rparr> \<and>
      (\<forall>x < nat w. \<forall>y < nat h. f (int x, int y) = conv (at_pixel src (go_div (int x * dx src) w) (go_div (int y * dy src) h))) \<and>
      (\<forall>p. (\<forall>x < nat w. \<forall>y < nat h. p \<noteq> (int x, int y)) \<longrightarrow> f p = pix (NewRGBA blank w h) p)"
    unfolding resample_def by (rule outer_loop) (auto simp: NewRGBA_def)
  then show ?thesis by blast
qed

lemma fit_size:
  assumes "0 \<le> dx src" "0 \<le> dy src" "0 \<le> maxW" "maxW \<le> 2 ^ 50" "0 \<le> maxH" "maxH \<le> 2 ^ 50"
    and sc_def: "sc = fitImage conv blank src maxW maxH"
  shows "0 \<le> dx sc \<and> dx sc \<le> maxW \<and> 0 \<le> dy sc \<and> dy sc \<le> maxH"
proof (cases "dx src = 0 \<or> dy src = 0")
  case True
  then show ?thesis using assms by (simp add: sc_def fitImage_def NewRGBA_def)
next
  case False
  with assms(1,2) have p: "0 < dx src" "0 < dy src" by auto
  obtain w h where wh: "scaled_size (dx src) (dy src) maxW maxH = (w, h)" by fastforce
  note b = scaled_size_bounds [OF p assms(3-6) wh]
  show ?thesis
  proof (cases "w = dx src \<and> h = dy src")
    case True
    with b wh p show ?thesis by (auto simp: sc_def fitImage_def Let_def)
  next
    case ne: False
    from b resample_dims [of w h conv blank src] obtain f where
      "resample conv blank w h src = (NewRGBA blank w h)\<lparr>pix := f\<rparr>" by blast
    with ne b wh p show ?thesis by (auto simp: sc_def fitImage_def Let_def NewRGBA_def)
  qed
qed

lemma draw_src_spec:
  assumes "0 \<le> dx sc" "0 \<le> dy sc" "0 \<le> fst off" "fst off + dx sc \<le> dx d" "0 \<le> snd off" "snd off + dy sc \<le> dy d"
  shows "\<exists>f. draw_src conv off sc d = d\<lparr>pix := f\<rparr> \<and>
    (\<forall>x y. 0 \<le> x \<and> x < dx sc \<and> 0 \<le> y \<and> y < dy sc \<longrightarrow> f (fst off + x, snd off + y) = conv (at_pixel sc x y)) \<and>
    (\<forall>p. \<not> (fst off \<le> fst p \<and> fst p < fst off + dx sc \<and> snd off \<le> snd p \<and> snd p < snd off + dy sc) \<longrightarrow> f p = pix d p)"
proof -
  let ?t = "\<lambda>x y. (fst off + int x, snd off + int y)" and ?v = "\<lambda>x y. at_pixel sc (int x) (int y)"
  have "\<exists>f. fold (\<lambda>y. fold (\<lambda>x. set_pixel conv (?t x y) (?v x y)) [0..<nat (dx sc)]) [0..<nat (dy sc)] d = d\<lparr>pix := f\<rparr> \<and>
    (\<forall>x < nat (dx sc). \<forall>y < nat (dy sc). f (?t x y) = conv (?v x y)) \<and>
    (\<forall>p. (\<forall>x < nat (dx sc). \<forall>y < nat (dy sc). p \<noteq> ?t x y) \<longrightarrow> f p = pix d p)"
    by (rule outer_loop) (use assms in auto)
  then obtain f where f: "draw_src conv off sc d = d\<lparr>pix := f\<rparr>"
    "\<And>x y. x < nat (dx sc) \<Longrightarrow> y < nat (dy sc) \<Longrightarrow> f (?t x y) = conv (?v x y)"
    "\<And>p. (\<forall>x < nat (dx sc). \<forall>y < nat (dy sc). p \<noteq> ?t x y) \<Longrightarrow> f p = pix d p"
    unfolding draw_src_def copy_pixels_def by blast
  have "f (fst off + x, snd off + y) = conv (at_pixel sc x y)"
    if "0 \<le> x \<and> x < dx sc \<and> 0 \<le> y \<and> y < dy sc" for x y
    using f(2) [of "nat x" "nat y"] that by simp
  moreover have "f p = pix d p"
    if "\<not> (fst off \<le> fst p \<and> fst p < fst off + dx sc \<and> snd off \<le> snd p \<and> snd p < snd off + dy sc)" for p
    by (rule f(3)) (use that in \<open>auto simp: prod_eq_iff\<close>)
  ultimately show ?thesis using f(1) by blast
qed

definition in_cell :: "nat \<Rightarrow> int \<Rightarrow> int \<Rightarrow> nat \<Rightarrow> int \<times> int \<Rightarrow> bool" where
  "in_cell cols cellW cellH i p \<longleftrightarrow>
     int (i mod cols) * cellW \<le> fst p \<and> fst p < (int (i mod cols) + 1) * cellW \<and>
     int (i div cols) * cellH \<le> snd p \<and> snd p < (int (i div cols) + 1) * cellH"

lemma between_mult:
  assumes "0 < (w :: int)" "a * w \<le> x" "x < (b + 1) * w"
  shows "a \<le> b"
proof -
  have "a * w < (b + 1) * w" using assms(2,3) by linarith
  with assms(1) show ?thesis by simp
qed

lemma cells_disjoint:
  assumes "0 < cellW" "0 < cellH" "in_cell cols cellW cellH i p" "in_cell cols cellW cellH j p"
  shows "i = j"
proof -
  from assms have "int (i mod cols) \<le> int (j mod cols)" "int (j mod cols) \<le> int (i mod cols)"
    "int (i div cols) \<le> int (j div cols)" "int (j div cols) \<le> int (i div cols)"
    unfolding in_cell_def by (blast intro: between_mult)+
  then have "i mod cols = j mod cols" "i div cols = j div cols" by simp_all
  then show ?thesis by (metis div_mult_mod_eq)
qed

lemma origin_in_cell:
  assumes "0 \<le> dx sc" "dx sc \<le> cellW" "0 \<le> dy sc" "dy sc \<le> cellH"
    and o'_def: "o' = cell_origin cols cellW cellH i sc"
  shows "int (i mod cols) * cellW \<le> fst o' \<and> fst o' + dx sc \<le> (int (i mod cols) + 1) * cellW \<and>
    int (i div cols) * cellH \<le> snd o' \<and> snd o' + dy sc \<le> (int (i div cols) + 1) * cellH"
proof -
  have "2 * ((cellW - dx sc) div 2) \<le> cellW - dx sc" "2 * ((cellH - dy sc) div 2) \<le> cellH - dy sc" by simp_all
  moreover have "0 \<le> (cellW - dx sc) div 2" "0 \<le> (cellH - dy sc) div 2" using assms(2,4) by simp_all
  ultimately show ?thesis using assms(1-4) by (simp add: o'_def cell_origin_def algebra_simps)
qed

text \<open>Where a frame's pixels are on the canvas.\<close>

definition shows_cell :: "('c \<Rightarrow> 'c) \<Rightarrow> 'c \<Rightarrow> nat \<Rightarrow> int \<Rightarrow> int \<Rightarrow> (int \<times> int \<Rightarrow> 'c) \<Rightarrow> nat \<Rightarrow> 'c img \<Rightarrow> bool" where
  "shows_cell conv blank cols cellW cellH f i im \<longleftrightarrow>
     (let sc = fitImage conv blank im cellW cellH; off = cell_origin cols cellW cellH i sc
      in \<forall>x y. 0 \<le> x \<and> x < dx sc \<and> 0 \<le> y \<and> y < dy sc \<longrightarrow> f (fst off + x, snd off + y) = conv (at_pixel sc x y))"

lemma draw_cell_spec:
  assumes "0 \<le> dx im" "0 \<le> dy im" "0 < cellW" "cellW \<le> 2 ^ 50" "0 < cellH" "cellH \<le> 2 ^ 50"
    and "(int (i mod cols) + 1) * cellW \<le> dx d" "(int (i div cols) + 1) * cellH \<le> dy d"
  shows "\<exists>f. draw_cell conv blank cols cellW cellH (i, im) d = d\<lparr>pix := f\<rparr> \<and>
    shows_cell conv blank cols cellW cellH f i im \<and> (\<forall>p. \<not> in_cell cols cellW cellH i p \<longrightarrow> f p = pix d p)"
proof -
  let ?sc = "fitImage conv blank im cellW cellH" and ?o = "cell_origin cols cellW cellH i (fitImage conv blank im cellW cellH)"
  have z: "0 \<le> dx ?sc" "dx ?sc \<le> cellW" "0 \<le> dy ?sc" "dy ?sc \<le> cellH"
    using fit_size [OF assms(1,2) less_imp_le [OF assms(3)] assms(4) less_imp_le [OF assms(5)] assms(6) refl, of conv blank] by simp_all
  note o' = origin_in_cell [OF z refl, of i cols]
  have nn: "0 \<le> int (i mod cols) * cellW" "0 \<le> int (i div cols) * cellH" using assms(3,5) by simp_all
  from o' assms(7,8) nn have "0 \<le> fst ?o" "fst ?o + dx ?sc \<le> dx d" "0 \<le> snd ?o" "snd ?o + dy ?sc \<le> dy d"
    by linarith+
  from draw_src_spec [OF z(1,3) this, of conv] obtain f where
    f: "draw_src conv ?o ?sc d = d\<lparr>pix := f\<rparr>"
      "\<forall>x y. 0 \<le> x \<and> x < dx ?sc \<and> 0 \<le> y \<and> y < dy ?sc \<longrightarrow> f (fst ?o + x, snd ?o + y) = conv (at_pixel ?sc x y)"
      "\<And>p. \<not> (fst ?o \<le> fst p \<and> fst p < fst ?o + dx ?sc \<and> snd ?o \<le> snd p \<and> snd p < snd ?o + dy ?sc) \<Longrightarrow> f p = pix d p"
    by blast
  have "f p = pix d p" if "\<not> in_cell cols cellW cellH i p" for p
    by (rule f(3)) (use that o' in \<open>auto simp: in_cell_def\<close>)
  with f(1,2) show ?thesis unfolding draw_cell_def Let_def shows_cell_def fst_conv snd_conv by blast
qed

lemma paint_cells:
  assumes "0 < cellW" "cellW \<le> 2 ^ 50" "0 < cellH" "cellH \<le> 2 ^ 50"
    and "distinct (map fst ics)"
    and "\<And>i im. (i, im) \<in> set ics \<Longrightarrow> 0 \<le> dx im \<and> 0 \<le> dy im \<and>
      (int (i mod cols) + 1) * cellW \<le> dx d \<and> (int (i div cols) + 1) * cellH \<le> dy d"
  shows "\<exists>f. fold (draw_cell conv blank cols cellW cellH) ics d = d\<lparr>pix := f\<rparr> \<and>
    (\<forall>(i, im) \<in> set ics. shows_cell conv blank cols cellW cellH f i im) \<and>
    (\<forall>p. (\<forall>i \<in> fst ` set ics. \<not> in_cell cols cellW cellH i p) \<longrightarrow> f p = pix d p)"
  using assms(5,6)
proof (induction ics arbitrary: d)
  case Nil
  then show ?case by (intro exI [of _ "pix d"]) simp
next
  case (Cons ic ics)
  obtain i im where ic: "ic = (i, im)" by fastforce
  with Cons.prems(2) have im: "0 \<le> dx im" "0 \<le> dy im" "(int (i mod cols) + 1) * cellW \<le> dx d"
    "(int (i div cols) + 1) * cellH \<le> dy d" by auto
  from draw_cell_spec [OF im(1,2) assms(1-4) im(3,4), of conv blank] obtain g where
    g: "draw_cell conv blank cols cellW cellH (i, im) d = d\<lparr>pix := g\<rparr>"
      "shows_cell conv blank cols cellW cellH g i im" "\<And>p. \<not> in_cell cols cellW cellH i p \<Longrightarrow> g p = pix d p" by blast
  have "\<exists>f. fold (draw_cell conv blank cols cellW cellH) ics (d\<lparr>pix := g\<rparr>) = d\<lparr>pix := g\<rparr>\<lparr>pix := f\<rparr> \<and>
    (\<forall>(i, im) \<in> set ics. shows_cell conv blank cols cellW cellH f i im) \<and>
    (\<forall>p. (\<forall>i \<in> fst ` set ics. \<not> in_cell cols cellW cellH i p) \<longrightarrow> f p = pix (d\<lparr>pix := g\<rparr>) p)"
    by (rule Cons.IH) (use Cons.prems in auto)
  then obtain f where
    f: "fold (draw_cell conv blank cols cellW cellH) ics (d\<lparr>pix := g\<rparr>) = d\<lparr>pix := f\<rparr>"
      "\<forall>(i, im) \<in> set ics. shows_cell conv blank cols cellW cellH f i im"
      "\<And>p. (\<forall>j \<in> fst ` set ics. \<not> in_cell cols cellW cellH j p) \<Longrightarrow> f p = g p" by auto
  have keep: "f p = g p" if "in_cell cols cellW cellH i p" for p
  proof (rule f(3), intro ballI notI)
    fix j
    assume "j \<in> fst ` set ics" "in_cell cols cellW cellH j p"
    with cells_disjoint [OF assms(1,3) that] Cons.prems(1) ic show False by force
  qed
  let ?sc = "fitImage conv blank im cellW cellH"
  have z: "0 \<le> dx ?sc" "dx ?sc \<le> cellW" "0 \<le> dy ?sc" "dy ?sc \<le> cellH"
    using fit_size [OF im(1,2) less_imp_le [OF assms(1)] assms(2) less_imp_le [OF assms(3)] assms(4) refl, of conv blank] by simp_all
  have "shows_cell conv blank cols cellW cellH f i im"
    unfolding shows_cell_def Let_def
  proof (intro allI impI)
    fix x y
    assume xy: "0 \<le> x \<and> x < dx ?sc \<and> 0 \<le> y \<and> y < dy ?sc"
    let ?p = "(fst (cell_origin cols cellW cellH i ?sc) + x, snd (cell_origin cols cellW cellH i ?sc) + y)"
    have "in_cell cols cellW cellH i ?p" using origin_in_cell [OF z refl, of i cols] xy by (auto simp: in_cell_def)
    with keep have "f ?p = g ?p" by blast
    with g(2) xy show "f ?p = conv (at_pixel ?sc x y)" by (simp add: shows_cell_def Let_def)
  qed
  moreover have "f p = pix d p" if "\<forall>j \<in> fst ` set (ic # ics). \<not> in_cell cols cellW cellH j p" for p
    using f(3) [of p] g(3) [of p] that ic by simp
  ultimately show ?case using f(1,2) g(1) ic by (intro exI [of _ f]) auto
qed

lemma paint_spec:
  assumes "0 < cellW" "cellW \<le> 2 ^ 50" "0 < cellH" "cellH \<le> 2 ^ 50"
    and "cells \<noteq> []" "\<And>im. im \<in> set cells \<Longrightarrow> 0 \<le> dx im \<and> 0 \<le> dy im"
    and g: "gridLayout (length cells) = (cols, rows)"
  shows "\<exists>f. paint conv blank cellW cellH cells = (NewRGBA blank (int cols * cellW) (int rows * cellH))\<lparr>pix := f\<rparr> \<and>
    (\<forall>i < length cells. shows_cell conv blank cols cellW cellH f i (cells ! i)) \<and>
    (\<forall>p. (\<forall>i < length cells. \<not> in_cell cols cellW cellH i p) \<longrightarrow> f p = blank)"
proof -
  let ?d = "NewRGBA blank (int cols * cellW) (int rows * cellH)"
  from assms(5) have n: "0 < length cells" by simp
  note gs = grid_spec [OF n g]
  have "\<exists>f. fold (draw_cell conv blank cols cellW cellH) (enumerate 0 cells) ?d = ?d\<lparr>pix := f\<rparr> \<and>
    (\<forall>(i, im) \<in> set (enumerate 0 cells). shows_cell conv blank cols cellW cellH f i im) \<and>
    (\<forall>p. (\<forall>i \<in> fst ` set (enumerate 0 cells). \<not> in_cell cols cellW cellH i p) \<longrightarrow> f p = pix ?d p)"
  proof (rule paint_cells [OF assms(1-4)])
    show "distinct (map fst (enumerate 0 cells))" by simp
    fix i im
    assume "(i, im) \<in> set (enumerate 0 cells)"
    then have i: "i < length cells" "im = cells ! i" by (auto simp: in_set_enumerate_eq)
    have "(int (i mod cols) + 1) * cellW \<le> int cols * cellW" "(int (i div cols) + 1) * cellH \<le> int rows * cellH"
    proof -
      from gs i(1) have "i mod cols < cols" "i div cols < rows" by blast+
      then have "int (i mod cols) + 1 \<le> int cols" "int (i div cols) + 1 \<le> int rows" by linarith+
      with assms(1,3) show "(int (i mod cols) + 1) * cellW \<le> int cols * cellW"
        "(int (i div cols) + 1) * cellH \<le> int rows * cellH" by simp_all
    qed
    with assms(6) i show "0 \<le> dx im \<and> 0 \<le> dy im \<and> (int (i mod cols) + 1) * cellW \<le> dx ?d \<and> (int (i div cols) + 1) * cellH \<le> dy ?d"
      by (simp add: NewRGBA_def)
  qed
  then obtain f where f: "fold (draw_cell conv blank cols cellW cellH) (enumerate 0 cells) ?d = ?d\<lparr>pix := f\<rparr>"
    "\<forall>(i, im) \<in> set (enumerate 0 cells). shows_cell conv blank cols cellW cellH f i im"
    "\<And>p. (\<forall>i \<in> fst ` set (enumerate 0 cells). \<not> in_cell cols cellW cellH i p) \<Longrightarrow> f p = pix ?d p" by blast
  have "shows_cell conv blank cols cellW cellH f i (cells ! i)" if "i < length cells" for i
    using f(2) that by (force simp: in_set_enumerate_eq)
  moreover have "f p = blank" if "\<forall>i < length cells. \<not> in_cell cols cellW cellH i p" for p
    using f(3) [of p] that by (auto simp: in_set_enumerate_eq NewRGBA_def)
  ultimately show ?thesis using f(1) g by (auto simp: paint_def)
qed

subsection \<open>Properties\<close>

text \<open>C9: the merged canvas: for cells of up to \<open>2 ^ 50\<close> pixels a side, the grid has room for every camera, each
  frame fits its cell in spite of the rounding of the scale factor, and the canvas that is encoded shows
  every decodable frame, in the order of the camera IDs, centred in a cell of its own, its pixels
  untouched by the other cells.\<close>

theorem canvas_shows_every_camera:
  assumes "0 < cellW" "cellW \<le> 2 ^ 50" "0 < cellH" "cellH \<le> 2 ^ 50"
    and "decoded_cells decode frames = cells" "cells \<noteq> []"
    and "\<forall>im \<in> set cells. 0 \<le> dx im \<and> 0 \<le> dy im"
  shows "\<exists>cols rows im. gridLayout (length cells) = (cols, rows) \<and> length cells \<le> cols * rows \<and> rows \<le> cols \<and>
    dx im = int cols * cellW \<and> dy im = int rows * cellH \<and>
    Canvas conv blank decode encode frames cellW cellH =
      (case encode im of None \<Rightarrow> Inl EncodeCanvas | Some b \<Rightarrow> Inr (Some b)) \<and>
    (\<forall>i < length cells. \<forall>x y.
      let sc = fitImage conv blank (cells ! i) cellW cellH; off = cell_origin cols cellW cellH i sc
      in dx sc \<le> cellW \<and> dy sc \<le> cellH \<and>
         (if 0 \<le> x \<and> x < dx sc \<and> 0 \<le> y \<and> y < dy sc
          then at_pixel im (fst off + x) (snd off + y) = conv (at_pixel sc x y) else True))"
proof -
  obtain cols rows where g: "gridLayout (length cells) = (cols, rows)" by fastforce
  from paint_spec [OF assms(1-4,6) _ g, of conv blank] assms(7) obtain f where
    f: "paint conv blank cellW cellH cells = (NewRGBA blank (int cols * cellW) (int rows * cellH))\<lparr>pix := f\<rparr>"
      "\<And>i. i < length cells \<Longrightarrow> shows_cell conv blank cols cellW cellH f i (cells ! i)" by blast
  let ?im = "(NewRGBA blank (int cols * cellW) (int rows * cellH))\<lparr>pix := f\<rparr>"
  from assms(5,6) have "frames \<noteq> []" by (auto simp: decoded_cells_def)
  with assms(5,6) f(1) have c: "Canvas conv blank decode encode frames cellW cellH =
      (case encode ?im of None \<Rightarrow> Inl EncodeCanvas | Some b \<Rightarrow> Inr (Some b))"
    by (simp add: Canvas_def Let_def)
  have fit: "dx (fitImage conv blank (cells ! i) cellW cellH) \<le> cellW \<and> dy (fitImage conv blank (cells ! i) cellW cellH) \<le> cellH"
    if "i < length cells" for i
    using fit_size [of "cells ! i" cellW cellH, OF _ _ _ assms(2) _ assms(4) refl, of conv blank] assms(1,3,7) that by simp
  have px: "at_pixel ?im (fst o1 + x) (snd o1 + y) = f (fst o1 + x, snd o1 + y)" for o1 x y
    by (simp add: at_pixel_def NewRGBA_def)
  show ?thesis
    by (rule exI [of _ cols], rule exI [of _ rows], rule exI [of _ ?im])
      (use g c grid_spec [OF _ g] assms(6) fit f(2) px in \<open>auto simp: NewRGBA_def shows_cell_def Let_def\<close>)
qed

definition sample_frames :: "(camera_id \<times> bytes) list" where
  "sample_frames = [(7, [1]), (3, [2]), (5, [])]"

definition sample_decode :: "bytes \<Rightarrow> int img option" where
  "sample_decode b = (if b = [] then None else Some sample_img)"

lemma sample_cells: "decoded_cells sample_decode sample_frames = [sample_img, sample_img]"
  by (simp add: decoded_cells_def sample_frames_def sample_decode_def)

theorem canvas_shows_every_camera_witness:
  "\<exists>cols rows im. gridLayout 2 = (cols, rows) \<and> (2::nat) \<le> cols * rows \<and> dx (im :: int img) = int cols * 320 \<and>
     Canvas id 0 sample_decode (\<lambda>im. None) sample_frames 320 240 = Inl EncodeCanvas"
proof -
  have d: "\<forall>im \<in> set [sample_img, sample_img]. 0 \<le> dx im \<and> 0 \<le> dy im" by (simp add: sample_img_def)
  have l: "length [sample_img, sample_img] = 2" "[sample_img, sample_img] \<noteq> []" by simp_all
  have p: "(0::int) < 320" "(320::int) \<le> 2 ^ 50" "(0::int) < 240" "(240::int) \<le> 2 ^ 50" by simp_all
  obtain cols rows im where "gridLayout (length [sample_img, sample_img]) = (cols, rows)"
    "length [sample_img, sample_img] \<le> cols * rows" "dx (im :: int img) = int cols * 320"
    "Canvas id 0 sample_decode (\<lambda>im. None) sample_frames 320 240 =
      (case None of None \<Rightarrow> Inl EncodeCanvas | Some b \<Rightarrow> Inr (Some b))"
    using canvas_shows_every_camera [OF p sample_cells l(2) d, of id 0 "\<lambda>im. None"] by blast
  then show ?thesis unfolding l(1) option.case by blast
qed

end
