(* ===== verification/Streamer.thy ===== *)
theory Streamer
  imports Compose Envconf Frame_Ipc
begin

section \<open>ffmpeg-streamer\<close>

text \<open>
  Configuration from the environment and the flags, the cache of latest frames that the IPC client fills,
  the feeds that turn it into the input of ffmpeg, and the loop that restarts ffmpeg. The encoder process
  is its outcomes. The scanner is that of Go's \<open>flag\<close> package for the flags the service declares;
  reading an integer flag (\<open>ParseInt\<close> with base 0) is the parameter \<open>parse_int0\<close>.
\<close>

subsection \<open>Configuration\<close>

record stream_config =
  st_socketPath :: string
  st_cameraID :: camera_id
  st_ffmpegPath :: string
  st_streamURL :: string
  st_frameRate :: int
  st_restartDelay :: int
  st_mergeAll :: bool
  st_cellWidth :: int
  st_cellHeight :: int

datatype stream_cfg_error = TwoStreamKeys | NoStreamURL | BadFlags | MustBePositive string

definition streamURLFromEnv :: "env \<Rightarrow> stream_cfg_error + string" where
  "streamURLFromEnv e =
     (let stream = env_String e ''STREAM_URL'' []; rtmp = env_String e ''RTMP_URL'' []
      in if stream \<noteq> [] then Inr stream
         else if rtmp \<noteq> [] then Inr rtmp
         else let twitchKey = env_String e ''TWITCH_STREAM_KEY'' []; youtubeKey = env_String e ''YOUTUBE_STREAM_KEY'' []
              in if twitchKey \<noteq> [] \<and> youtubeKey \<noteq> [] then Inl TwoStreamKeys
                 else if twitchKey \<noteq> [] then Inr (''rtmp://live.twitch.tv/app/'' @ twitchKey)
                 else if youtubeKey \<noteq> [] then Inr (''rtmp://a.rtmp.youtube.com/live2/'' @ youtubeKey)
                 else Inl NoStreamURL)"

text \<open>The flags set on a command line, in order; \<open>known\<close> says whether a flag exists and is boolean.\<close>

fun flag_scan :: "(string \<Rightarrow> bool option) \<Rightarrow> string list \<Rightarrow> (string \<times> string) list option" where
  "flag_scan known [] = Some []"
| "flag_scan known (a # as) =
     (if length a < 2 \<or> hd a \<noteq> CHR ''-'' then Some []
      else if a = ''--'' then Some []
      else
        let body = (if a ! 1 = CHR ''-'' then drop 2 a else drop 1 a)
        in if body = [] \<or> hd body = CHR ''-'' \<or> hd body = CHR ''='' then None
           else
             let nm = takeWhile (\<lambda>c. c \<noteq> CHR ''='') body;
                 hasv = (nm \<noteq> body);
                 v = drop (length nm + 1) body
             in case known nm of
                  None \<Rightarrow> None
                | Some isbool \<Rightarrow>
                    if hasv then map_option (Cons (nm, v)) (flag_scan known as)
                    else if isbool then map_option (Cons (nm, ''true'')) (flag_scan known as)
                    else (case as of [] \<Rightarrow> None | v' # as' \<Rightarrow> map_option (Cons (nm, v')) (flag_scan known as')))"

definition parse_bool :: "string \<Rightarrow> bool option" where
  "parse_bool v =
     (if v \<in> {''1'', ''t'', ''T'', ''true'', ''TRUE'', ''True''} then Some True
      else if v \<in> {''0'', ''f'', ''F'', ''false'', ''FALSE'', ''False''} then Some False else None)"

definition stream_flags :: "string \<Rightarrow> bool option" where
  "stream_flags = map_of [(''camera-id'', False), (''merge'', True), (''cell-width'', False), (''cell-height'', False)]"

definition set_flag :: "(string \<Rightarrow> int option) \<Rightarrow> string \<times> string \<Rightarrow> stream_config option \<Rightarrow> stream_config option" where
  "set_flag parse_int0 nv oc =
     (case oc of
        None \<Rightarrow> None
      | Some c \<Rightarrow>
          if fst nv = ''camera-id'' then
            (case parse_uint 32 (snd nv) of Inl e \<Rightarrow> None | Inr n \<Rightarrow> Some (c\<lparr>st_cameraID := of_nat n\<rparr>))
          else if fst nv = ''merge'' then map_option (\<lambda>b. c\<lparr>st_mergeAll := b\<rparr>) (parse_bool (snd nv))
          else if fst nv = ''cell-width'' then map_option (\<lambda>n. c\<lparr>st_cellWidth := n\<rparr>) (parse_int0 (snd nv))
          else map_option (\<lambda>n. c\<lparr>st_cellHeight := n\<rparr>) (parse_int0 (snd nv)))"

definition make_even :: "int \<Rightarrow> int" where
  "make_even n = (if go_mod n 2 \<noteq> 0 then i64 (n + 1) else n)"

definition env_stream_config :: "env \<Rightarrow> string \<Rightarrow> stream_config" where
  "env_stream_config e url =
     \<lparr>st_socketPath = env_String e ''IPC_SOCKET_PATH'' ''/tmp/instachron/frames.sock'',
      st_cameraID = env_Uint32 e ''CAMERA_ID'' 0,
      st_ffmpegPath = env_String e ''FFMPEG_PATH'' ''ffmpeg'',
      st_streamURL = url,
      st_frameRate = env_Int e ''STREAM_FRAME_RATE'' 10,
      st_restartDelay = env_Duration e ''FFMPEG_RESTART_DELAY'' (5 * second),
      st_mergeAll = env_Bool e ''MERGE_ALL'' False,
      st_cellWidth = env_Int e ''CELL_WIDTH'' 320,
      st_cellHeight = env_Int e ''CELL_HEIGHT'' 240\<rparr>"

definition stream_loadConfig :: "(string \<Rightarrow> int option) \<Rightarrow> env \<Rightarrow> string list \<Rightarrow> stream_cfg_error + stream_config" where
  "stream_loadConfig parse_int0 e args =
     (case streamURLFromEnv e of
        Inl err \<Rightarrow> Inl err
      | Inr url \<Rightarrow>
          (case Option.bind (flag_scan stream_flags args)
                  (\<lambda>nvs. fold (set_flag parse_int0) nvs (Some (env_stream_config e url))) of
             None \<Rightarrow> Inl BadFlags
           | Some c \<Rightarrow>
               if st_frameRate c \<le> 0 then Inl (MustBePositive ''STREAM_FRAME_RATE'')
               else if st_restartDelay c \<le> 0 then Inl (MustBePositive ''FFMPEG_RESTART_DELAY'')
               else if st_cellWidth c \<le> 0 then Inl (MustBePositive ''CELL_WIDTH'')
               else if st_cellHeight c \<le> 0 then Inl (MustBePositive ''CELL_HEIGHT'')
               else Inr (c\<lparr>st_cellWidth := make_even (st_cellWidth c), st_cellHeight := make_even (st_cellHeight c)\<rparr>)))"

definition ffmpegArgs :: "stream_config \<Rightarrow> string list" where
  "ffmpegArgs c =
     (let gop = i64 (st_frameRate c * 2) in
      [''-hide_banner'', ''-loglevel'', ''warning'', ''-f'', ''mjpeg'', ''-framerate'', itoa (st_frameRate c), ''-i'',
       ''pipe:0'', ''-an'', ''-c:v'', ''libx264'', ''-preset'', ''veryfast'', ''-tune'', ''zerolatency'', ''-pix_fmt'',
       ''yuv420p'', ''-r'', itoa (st_frameRate c), ''-g'', itoa gop, ''-f'', ''flv'', st_streamURL c])"

subsection \<open>The cache\<close>

record frame_cache =
  fcFrames :: "(camera_id \<times> bytes) list"
  fcVersion :: u64

definition cache_New :: frame_cache where
  "cache_New = \<lparr>fcFrames = [], fcVersion = 0\<rparr>"

definition storeFrame :: "camera_id \<Rightarrow> bytes \<Rightarrow> frame_cache \<Rightarrow> frame_cache" where
  "storeFrame cid jpeg c = c\<lparr>fcFrames := AList.update cid jpeg (fcFrames c), fcVersion := fcVersion c + 1\<rparr>"

definition dropFrame :: "camera_id \<Rightarrow> frame_cache \<Rightarrow> frame_cache" where
  "dropFrame cid c = c\<lparr>fcFrames := AList.delete cid (fcFrames c), fcVersion := fcVersion c + 1\<rparr>"

definition dropAllFrames :: "frame_cache \<Rightarrow> frame_cache" where
  "dropAllFrames c = c\<lparr>fcFrames := [], fcVersion := fcVersion c + 1\<rparr>"

definition Latest :: "camera_id \<Rightarrow> frame_cache \<Rightarrow> bytes" where
  "Latest cid c = (case map_of (fcFrames c) cid of None \<Rightarrow> [] | Some j \<Rightarrow> j)"

definition AllLatest :: "frame_cache \<Rightarrow> (camera_id \<times> bytes) list" where
  "AllLatest c = fcFrames c"

definition CurrentVersion :: "frame_cache \<Rightarrow> u64" where
  "CurrentVersion c = fcVersion c"

definition cache_handler :: "frame_cache ipc_handler" where
  "cache_handler = \<lparr>OnFrame = Some storeFrame, OnOffline = Some dropFrame, OnDisconnect = Some dropAllFrames\<rparr>"

subsection \<open>Feeds\<close>

text \<open>\<open>composeCanvas\<close>: \<open>None\<close> is nil, that is nothing to show or a failed composition.\<close>

definition composeCanvas :: "('c \<Rightarrow> 'c) \<Rightarrow> 'c \<Rightarrow> (bytes \<Rightarrow> 'c img option) \<Rightarrow> ('c img \<Rightarrow> bytes option) \<Rightarrow>
    stream_config \<Rightarrow> frame_cache \<Rightarrow> bytes option" where
  "composeCanvas conv blank decode encode cfg ipc =
     (case Canvas conv blank decode encode (AllLatest ipc) (st_cellWidth cfg) (st_cellHeight cfg) of
        Inl e \<Rightarrow> None
      | Inr r \<Rightarrow> r)"

record canvas_source =
  csCurrent :: bytes
  csLastVersion :: u64

definition source_init :: canvas_source where
  "source_init = \<lparr>csCurrent = [], csLastVersion = 0\<rparr>"

definition mergedCanvasSource :: "(frame_cache \<Rightarrow> bytes option) \<Rightarrow> frame_cache \<Rightarrow> canvas_source \<Rightarrow> bytes \<times> canvas_source" where
  "mergedCanvasSource mk ipc s =
     (let v = CurrentVersion ipc;
          s' = (if v \<noteq> csLastVersion s
                then (case mk ipc of Some encoded \<Rightarrow> \<lparr>csCurrent = encoded, csLastVersion = v\<rparr> | None \<Rightarrow> s)
                else s)
      in (csCurrent s', s'))"

text \<open>\<open>pump\<close> over what its select sees: the end of the context, or a tick, with the cache at that time. A
  rate beyond one frame a nanosecond makes \<open>NewTicker\<close> panic (\<open>None\<close>).\<close>

datatype 'e pump_event = PumpDone | PumpTick 'e

datatype pump_result = PumpRunning | PumpCancelled | PumpWriteError io_err

fun pump_loop :: "('e \<Rightarrow> 's \<Rightarrow> bytes \<times> 's) \<Rightarrow> 'e pump_event list \<Rightarrow> writer \<Rightarrow> 's \<Rightarrow> pump_result \<times> writer \<times> 's" where
  "pump_loop nxt [] w s = (PumpRunning, w, s)"
| "pump_loop nxt (PumpDone # es) w s = (PumpCancelled, w, s)"
| "pump_loop nxt (PumpTick e # es) w s =
     (let (payload, s') = nxt e s
      in if payload = [] then pump_loop nxt es w s'
         else case write_bytes payload w of
                (Some err, w') \<Rightarrow> (PumpWriteError err, w', s')
              | (None, w') \<Rightarrow> pump_loop nxt es w' s')"

definition pump :: "int \<Rightarrow> ('e \<Rightarrow> 's \<Rightarrow> bytes \<times> 's) \<Rightarrow> 'e pump_event list \<Rightarrow> writer \<Rightarrow> 's \<Rightarrow> (pump_result \<times> writer \<times> 's) option" where
  "pump frameRate nxt es w s =
     (if i64 (go_div second frameRate) \<le> 0 then None else Some (pump_loop nxt es w s))"

definition feedFrames :: "stream_config \<Rightarrow> frame_cache pump_event list \<Rightarrow> writer \<Rightarrow> (pump_result \<times> writer \<times> unit) option" where
  "feedFrames cfg es w = pump (st_frameRate cfg) (\<lambda>ipc s. (Latest (st_cameraID cfg) ipc, s)) es w ()"

definition feedMergedFrames :: "(frame_cache \<Rightarrow> bytes option) \<Rightarrow> stream_config \<Rightarrow> frame_cache pump_event list \<Rightarrow> writer \<Rightarrow>
    (pump_result \<times> writer \<times> canvas_source) option" where
  "feedMergedFrames mk cfg es w = pump (st_frameRate cfg) (mergedCanvasSource mk) es w source_init"

subsection \<open>Sessions of ffmpeg\<close>

datatype session_error = SessCanceled | SessStdin | SessStart | SessFeed pump_result | SessExit nat

record session_env =
  seStdinPipe :: bool
  seStarts :: bool
  seFeed :: pump_result
  seCancelled :: bool
  seExit :: nat

definition runFFmpegSession :: "session_env \<Rightarrow> session_error option" where
  "runFFmpegSession s =
     (if \<not> seStdinPipe s then Some SessStdin
      else if \<not> seStarts s then Some SessStart
      else if seCancelled s then Some SessCanceled
      else if seFeed s \<noteq> PumpRunning then Some (SessFeed (seFeed s))
      else if seExit s \<noteq> 0 then Some (SessExit (seExit s))
      else None)"

record stream_attempt =
  saCancelledAtHead :: bool
  saSession :: session_env
  saCancelledAtWait :: bool

text \<open>\<open>run\<close>: the errors of the sessions, and whether it returned; it does only on cancellation.\<close>

fun stream_run :: "stream_attempt list \<Rightarrow> session_error option list \<times> bool" where
  "stream_run [] = ([], False)"
| "stream_run (a # as) =
     (if saCancelledAtHead a then ([], True)
      else
        let err = runFFmpegSession (saSession a)
        in if err = Some SessCanceled then ([err], True)
           else if saCancelledAtWait a then ([err], True)
           else let (errs, ret) = stream_run as in (err # errs, ret))"

text \<open>\<open>Run\<close>: a bad configuration is its only error, since \<open>run\<close> returns on cancellation only; \<open>None\<close> while it runs.\<close>

definition streamer_Run :: "(string \<Rightarrow> int option) \<Rightarrow> env \<Rightarrow> string list \<Rightarrow> stream_attempt list \<Rightarrow> stream_cfg_error option option" where
  "streamer_Run parse_int0 e args as =
     (case stream_loadConfig parse_int0 e args of
        Inl err \<Rightarrow> Some (Some err)
      | Inr cfg \<Rightarrow> if snd (stream_run as) then Some None else None)"

subsection \<open>Lemmas\<close>

lemma set_flag_rate: "fold (set_flag p0) nvs oc = Some c' \<Longrightarrow> \<exists>c. oc = Some c \<and> st_frameRate c' = st_frameRate c \<and>
   st_restartDelay c' = st_restartDelay c \<and> st_streamURL c' = st_streamURL c"
proof (induction nvs arbitrary: oc)
  case (Cons nv nvs)
  then obtain d where d: "set_flag p0 nv oc = Some d" "st_frameRate c' = st_frameRate d"
    "st_restartDelay c' = st_restartDelay d" "st_streamURL c' = st_streamURL d" by auto
  from d(1) obtain c where "oc = Some c" by (auto simp: set_flag_def split: option.splits)
  with d show ?case by (auto simp: set_flag_def split: if_splits sum.splits option.splits)
qed simp

text \<open>The feed against the frames it was given: how many times the cache changed, and the canvas of its last
  version.\<close>

definition feed_inv :: "(frame_cache \<Rightarrow> bytes option) \<Rightarrow> nat \<Rightarrow> nat \<Rightarrow> frame_cache \<Rightarrow> canvas_source \<Rightarrow> bool" where
  "feed_inv mk k j c s \<longleftrightarrow> j \<le> k \<and> fcVersion c = of_nat k \<and> csLastVersion s = of_nat j \<and>
     (if j = k then (case mk c of None \<Rightarrow> True | Some enc \<Rightarrow> csCurrent s = enc) else True)"

lemma of_nat_u64_eq:
  assumes "a \<le> b" "b < 2 ^ 64"
  shows "(of_nat a :: u64) = of_nat b \<longleftrightarrow> a = b"
proof -
  have "unat (of_nat a :: u64) = a" "unat (of_nat b :: u64) = b" using assms by (simp_all add: unat_of_nat)
  then show ?thesis by metis
qed

lemma even_i64: "even (i64 n) \<longleftrightarrow> even n"
proof -
  have "even ((n + 2 ^ 63) mod 2 ^ 64 :: int) \<longleftrightarrow> even (n + 2 ^ 63)" by (rule dvd_mod_iff) simp
  then show ?thesis by (simp add: i64_def)
qed

lemma make_even_even:
  assumes "0 < n"
  shows "even (make_even n)"
proof (cases "even n")
  case True
  then have "n mod 2 = 0" by presburger
  with assms True show ?thesis by (simp add: make_even_def)
next
  case False
  then have "n mod 2 = 1" by presburger
  with assms have "make_even n = i64 (n + 1)" by (simp add: make_even_def)
  with False show ?thesis by (simp only: even_i64) simp
qed

lemma make_even_pos: "0 < n \<Longrightarrow> n < 2 ^ 63 - 1 \<Longrightarrow> n \<le> make_even n \<and> make_even n \<le> n + 1"
  by (auto simp: make_even_def in_i64_def)

lemma dispatch_cache:
  "fcVersion (ipc_dispatch cache_handler m c) = fcVersion c \<and> ipc_dispatch cache_handler m c = c \<or>
   fcVersion (ipc_dispatch cache_handler m c) = fcVersion c + 1"
  by (auto simp: ipc_dispatch_def cache_handler_def storeFrame_def dropFrame_def)

lemma dispatch_all:
  "fcVersion c = of_nat k \<Longrightarrow> \<exists>n \<le> length ms. fcVersion (fold (ipc_dispatch cache_handler) ms c) = of_nat (k + n) \<and>
     (if n = 0 then fold (ipc_dispatch cache_handler) ms c = c else True)"
proof (induction ms arbitrary: c k)
  case (Cons m ms)
  let ?c = "ipc_dispatch cache_handler m c"
  from dispatch_cache [of m c] consider "fcVersion ?c = of_nat k" "?c = c" | "fcVersion ?c = of_nat (Suc k)"
    using Cons.prems by auto
  then show ?case
  proof cases
    case 1
    from Cons.IH [OF Cons.prems] obtain n where "n \<le> length ms"
      "fcVersion (fold (ipc_dispatch cache_handler) ms c) = of_nat (k + n)"
      "if n = 0 then fold (ipc_dispatch cache_handler) ms c = c else True" by blast
    with 1 show ?thesis by (intro exI [of _ n]) simp
  next
    case 2
    from Cons.IH [OF this] obtain n where "n \<le> length ms"
      "fcVersion (fold (ipc_dispatch cache_handler) ms ?c) = of_nat (Suc k + n)" by blast
    then show ?thesis by (intro exI [of _ "Suc n"]) simp
  qed
qed simp

text \<open>Ticks of the merged feed, each after the messages that arrived since the last one, and what they should
  put out.\<close>

fun feed_outputs :: "(frame_cache \<Rightarrow> bytes option) \<Rightarrow> ipc_msg list list \<Rightarrow> frame_cache \<Rightarrow> canvas_source \<Rightarrow> bytes list" where
  "feed_outputs mk [] c s = []"
| "feed_outputs mk (ms # mss) c s =
     (let c' = fold (ipc_dispatch cache_handler) ms c; (out, s') = mergedCanvasSource mk c' s
      in out # feed_outputs mk mss c' s')"

fun fresh_outputs :: "(frame_cache \<Rightarrow> bytes option) \<Rightarrow> ipc_msg list list \<Rightarrow> frame_cache \<Rightarrow> bytes \<Rightarrow> bytes list" where
  "fresh_outputs mk [] c prev = []"
| "fresh_outputs mk (ms # mss) c prev =
     (let c' = fold (ipc_dispatch cache_handler) ms c;
          out = (case mk c' of None \<Rightarrow> prev | Some enc \<Rightarrow> enc)
      in out # fresh_outputs mk mss c' out)"

lemma feed_fresh:
  assumes "feed_inv mk k j c s" "k + length (concat mss) < 2 ^ 64"
  shows "feed_outputs mk mss c s = fresh_outputs mk mss c (csCurrent s)"
  using assms
proof (induction mss arbitrary: c s k j)
  case (Cons ms mss)
  let ?c = "fold (ipc_dispatch cache_handler) ms c"
  from Cons.prems(1) have inv: "j \<le> k" "fcVersion c = of_nat k" "csLastVersion s = of_nat j"
    "j = k \<Longrightarrow> (case mk c of None \<Rightarrow> True | Some enc \<Rightarrow> csCurrent s = enc)" unfolding feed_inv_def by presburger+
  from dispatch_all [OF inv(2), of ms] obtain n where n: "n \<le> length ms" "fcVersion ?c = of_nat (k + n)"
    "n = 0 \<Longrightarrow> ?c = c" by auto
  have lt: "k + n < 2 ^ 64" "k + n + length (concat mss) < 2 ^ 64" using Cons.prems(2) n(1) by simp_all
  have eq: "fcVersion ?c = csLastVersion s \<longleftrightarrow> j = k + n"
    using of_nat_u64_eq [of j "k + n"] inv(1,3) n(2) lt(1) by auto
  show ?case
  proof (cases "j = k + n")
    case True
    with inv(1) have z: "n = 0" "j = k" by auto
    have "mergedCanvasSource mk ?c s = (csCurrent s, s)" using eq True by (simp add: mergedCanvasSource_def CurrentVersion_def)
    moreover have "(case mk ?c of None \<Rightarrow> csCurrent s | Some enc \<Rightarrow> enc) = csCurrent s"
      using inv(4) n(3) z by (auto split: option.splits)
    moreover have "feed_inv mk k j ?c s" using Cons.prems(1) n(3) z by simp
    ultimately show ?thesis using Cons.IH [of k j ?c s] lt(2) z by (simp add: Let_def)
  next
    case False
    show ?thesis
    proof (cases "mk ?c")
      case None
      have "feed_inv mk (k + n) j ?c s" using False inv n(2) by (simp add: feed_inv_def)
      with None False eq Cons.IH [of "k + n" j ?c s] lt(2) show ?thesis
        by (simp add: mergedCanvasSource_def CurrentVersion_def Let_def)
    next
      case (Some enc)
      let ?s = "\<lparr>csCurrent = enc, csLastVersion = fcVersion ?c\<rparr>"
      have "feed_inv mk (k + n) (k + n) ?c ?s" using n(2) Some by (simp add: feed_inv_def)
      with Some False eq Cons.IH [of "k + n" "k + n" ?c ?s] lt(2) show ?thesis
        by (simp add: mergedCanvasSource_def CurrentVersion_def Let_def)
    qed
  qed
qed simp

lemma stream_run_restarts:
  assumes "\<forall>a \<in> set as. \<not> saCancelledAtHead a \<and> \<not> seCancelled (saSession a) \<and> \<not> saCancelledAtWait a"
  shows "stream_run as = (map (runFFmpegSession \<circ> saSession) as, False)"
  using assms by (induction as) (auto simp: runFFmpegSession_def)

lemma streamer_outlives_sessions:
  assumes "stream_loadConfig parse_int0 e args = Inr cfg"
    and "\<forall>a \<in> set as. \<not> saCancelledAtHead a \<and> \<not> seCancelled (saSession a) \<and> \<not> saCancelledAtWait a"
  shows "streamer_Run parse_int0 e args as = None"
  by (simp add: streamer_Run_def assms(1) stream_run_restarts [OF assms(2)])

subsection \<open>Properties\<close>

text \<open>an accepted configuration has a stream URL, a positive frame rate and restart delay, and cells of a
  positive even size, at most one pixel above the configured one (below the largest integer); and the feed
  starts exactly when the rate is at most one frame per nanosecond: beyond, the ticker panics.\<close>

theorem stream_config_accepted:
  assumes "stream_loadConfig parse_int0 e args = Inr c"
  shows "st_streamURL c \<noteq> [] \<and> 0 < st_frameRate c \<and> 0 < st_restartDelay c \<and>
    even (st_cellWidth c) \<and> even (st_cellHeight c) \<and>
    (\<exists>cw ch. 0 < cw \<and> 0 < ch \<and> st_cellWidth c = make_even cw \<and> st_cellHeight c = make_even ch) \<and>
    (pump (st_frameRate c) nxt es w s = None \<longleftrightarrow> second < st_frameRate c)"
proof -
  from assms obtain url nvs c0 where
    c0: "streamURLFromEnv e = Inr url" "flag_scan stream_flags args = Some nvs"
      "fold (set_flag parse_int0) nvs (Some (env_stream_config e url)) = Some c0" and
    pos: "0 < st_frameRate c0" "0 < st_restartDelay c0" "0 < st_cellWidth c0" "0 < st_cellHeight c0" and
    c: "c = c0\<lparr>st_cellWidth := make_even (st_cellWidth c0), st_cellHeight := make_even (st_cellHeight c0)\<rparr>"
    by (auto simp: stream_loadConfig_def bind_eq_Some_conv split: sum.splits option.splits if_splits)
  have "url \<noteq> []" using c0(1) by (auto simp: streamURLFromEnv_def Let_def split: if_splits)
  moreover have "st_streamURL c0 = url" using set_flag_rate [OF c0(3)] by (auto simp: env_stream_config_def)
  moreover have "pump (st_frameRate c0) nxt es w s = None \<longleftrightarrow> second < st_frameRate c0"
  proof -
    have "go_div second (st_frameRate c0) = second div st_frameRate c0" using pos(1) by (simp add: second_def)
    moreover have "in_i64 (second div st_frameRate c0)"
      using pos(1) zdiv_mono2 [of second 1 "st_frameRate c0"] pos_imp_zdiv_nonneg_iff [of "st_frameRate c0" second]
      by (simp add: in_i64_def second_def)
    moreover have "0 < second div st_frameRate c0 \<longleftrightarrow> st_frameRate c0 \<le> second"
      using pos(1) by (rule pos_imp_zdiv_pos_iff)
    ultimately show ?thesis by (auto simp: pump_def)
  qed
  ultimately show ?thesis using pos make_even_even by (auto simp: c)
qed

definition sample_stream_env :: env where
  "sample_stream_env = (\<lambda>k. if k = ''TWITCH_STREAM_KEY'' then ''key'' else if k = ''CELL_WIDTH'' then format_uint 321 else [])"

lemma sample_stream_config:
  "\<exists>c. stream_loadConfig (\<lambda>v. None) sample_stream_env [''--camera-id'', ''42'', ''-merge''] = Inr c \<and>
     st_cameraID c = 42 \<and> st_mergeAll c \<and> st_cellWidth c = 322 \<and> st_frameRate c = 10"
proof -
  have f: "parse_uint 32 ''42'' = Inr 42" by (simp add: parse_uint_def digit_val_def)
  have u: "streamURLFromEnv sample_stream_env = Inr ''rtmp://live.twitch.tv/app/key''"
    by (simp add: streamURLFromEnv_def sample_stream_env_def env_defs)
  have fl: "flag_scan stream_flags [''--camera-id'', ''42'', ''-merge''] = Some [(''camera-id'', ''42''), (''merge'', ''true'')]"
    by (simp add: stream_flags_def Let_def)
  have c: "env_stream_config sample_stream_env url = \<lparr>st_socketPath = ''/tmp/instachron/frames.sock'', st_cameraID = 0,
      st_ffmpegPath = ''ffmpeg'', st_streamURL = url, st_frameRate = 10, st_restartDelay = 5 * second, st_mergeAll = False,
      st_cellWidth = 321, st_cellHeight = 240\<rparr>" for url
    by (simp add: env_stream_config_def sample_stream_env_def env_defs atoi_format)
  show ?thesis
    by (simp add: stream_loadConfig_def u fl c set_flag_def parse_bool_def f make_even_def in_i64_def second_def
        del: flag_scan.simps)
qed

theorem stream_config_accepted_witness:
  "\<exists>c. stream_loadConfig (\<lambda>v. None) sample_stream_env [''--camera-id'', ''42'', ''-merge''] = Inr c \<and>
     even (st_cellWidth c) \<and> (pump (st_frameRate c) (\<lambda>e s. (e, s)) [] \<lparr>wsent = [], wroom = None\<rparr> () = None \<longleftrightarrow> second < st_frameRate c)"
proof -
  from sample_stream_config obtain c where
    c: "stream_loadConfig (\<lambda>v. None) sample_stream_env [''--camera-id'', ''42'', ''-merge''] = Inr c" by blast
  note acc = stream_config_accepted [OF c, of "\<lambda>e s. (e, s)" "[]" "\<lparr>wsent = [], wroom = None\<rparr>" "()"]
  show ?thesis by (rule exI [of _ c], intro conjI) (rule c, rule acc [THEN conjunct2, THEN conjunct2, THEN conjunct2, THEN conjunct1],
    rule acc [THEN conjunct2, THEN conjunct2, THEN conjunct2, THEN conjunct2, THEN conjunct2, THEN conjunct2])
qed

text \<open>C20: the merged feed is fresh: while fewer than \<open>2 ^ 64\<close> messages have arrived, each tick puts out the canvas
  of the frames cached at that moment; only when that canvas is nothing (no camera, or no decodable or
  encodable frame) it puts out its last canvas again.\<close>

theorem merged_feed_is_fresh:
  assumes "length (concat mss) < 2 ^ 64"
  shows "feed_outputs (composeCanvas conv blank decode encode cfg) mss cache_New source_init =
    fresh_outputs (composeCanvas conv blank decode encode cfg) mss cache_New []"
proof -
  have "feed_inv (composeCanvas conv blank decode encode cfg) 0 0 cache_New source_init"
    by (simp add: feed_inv_def cache_New_def source_init_def composeCanvas_def AllLatest_def Canvas_def)
  from feed_fresh [OF this] assms show ?thesis by (simp add: source_init_def)
qed

definition sample_stream_cfg :: stream_config where
  "sample_stream_cfg = env_stream_config (\<lambda>k. []) ''rtmp://host''"

theorem merged_feed_is_fresh_witness:
  "feed_outputs (composeCanvas id 0 (\<lambda>b. Some sample_img) (\<lambda>im. Some [1]) sample_stream_cfg) [[], []] cache_New source_init = [[], []]"
  using merged_feed_is_fresh [of "[[], []]" id 0 "\<lambda>b. Some sample_img" "\<lambda>im. Some [1]" sample_stream_cfg]
  by (simp add: composeCanvas_def AllLatest_def Canvas_def cache_New_def)

end
