(* ===== verification/Detect_Boxes.thy ===== *)
theory Detect_Boxes
  imports Rotation Go_Float Decimal "HOL-Library.Multiset"
begin

section \<open>From model output to detections (camera-web-restream-detector-api, postprocess.go, preprocess.go)\<close>

text \<open>
  The letterbox and the tensor the model is fed, the decoding of its output in both layouts, the mapping back to
  the frame, and non-maximum suppression, in single-precision arithmetic. The order in which Go visits a map, and
  the order \<open>sort.Slice\<close> gives to equal scores, are not determined: they are the arguments \<open>classes\<close>
  and \<open>srt\<close>, with the laws of the standard library as hypotheses (the locale \<open>score_sort\<close>). An index
  past the end of the model output would panic; the tensors are allocated with the probed shape.
\<close>

subsection \<open>Classes\<close>

definition CocoClasses :: "string list" where
  "CocoClasses =
    [''person'', ''bicycle'', ''car'', ''motorcycle'', ''airplane'', ''bus'', ''train'', ''truck'',
     ''boat'', ''traffic light'', ''fire hydrant'', ''stop sign'', ''parking meter'', ''bench'',
     ''bird'', ''cat'', ''dog'', ''horse'', ''sheep'', ''cow'', ''elephant'', ''bear'', ''zebra'',
     ''giraffe'', ''backpack'', ''umbrella'', ''handbag'', ''tie'', ''suitcase'', ''frisbee'',
     ''skis'', ''snowboard'', ''sports ball'', ''kite'', ''baseball bat'', ''baseball glove'',
     ''skateboard'', ''surfboard'', ''tennis racket'', ''bottle'', ''wine glass'', ''cup'',
     ''fork'', ''knife'', ''spoon'', ''bowl'', ''banana'', ''apple'', ''sandwich'', ''orange'',
     ''broccoli'', ''carrot'', ''hot dog'', ''pizza'', ''donut'', ''cake'', ''chair'', ''couch'',
     ''potted plant'', ''bed'', ''dining table'', ''toilet'', ''tv'', ''laptop'', ''mouse'',
     ''remote'', ''keyboard'', ''cell phone'', ''microwave'', ''oven'', ''toaster'', ''sink'',
     ''refrigerator'', ''book'', ''clock'', ''vase'', ''scissors'', ''teddy bear'',
     ''hair drier'', ''toothbrush'']"

record nrgba =
  cR :: byte
  cG :: byte
  cB :: byte
  cA :: byte

definition palette :: "nrgba list" where
  "palette = map (\<lambda>(r, g, b). \<lparr>cR = r, cG = g, cB = b, cA = 255\<rparr>)
    [(255, 56, 56), (255, 157, 151), (255, 112, 31), (255, 178, 29), (207, 210, 49),
     (72, 249, 10), (146, 204, 23), (61, 219, 134), (26, 147, 52), (0, 212, 187),
     (44, 153, 168), (0, 194, 255), (52, 69, 147), (100, 115, 255), (0, 24, 236),
     (132, 56, 255), (82, 0, 133), (203, 56, 255), (255, 149, 200), (255, 55, 199)]"

definition classColor :: "nat \<Rightarrow> nrgba" where
  "classColor classID = palette ! (classID mod length palette)"

subsection \<open>Letterboxing\<close>

record letterboxResult =
  lbImg :: "nrgba img"
  lbScale :: rat
  lbPadLeft :: int
  lbPadTop :: int

definition clamp :: "rat \<Rightarrow> rat \<Rightarrow> rat \<Rightarrow> rat" where
  "clamp v lo hi = (if v < lo then lo else if v > hi then hi else v)"

definition toOriginal :: "letterboxResult \<Rightarrow> rat \<Rightarrow> rat \<Rightarrow> int \<Rightarrow> int \<Rightarrow> rat \<times> rat" where
  "toOriginal lb x y origW origH =
     (clamp (fl32 (fl32 (x - fl32 (of_int (lbPadLeft lb))) / lbScale lb)) 0 (fl32 (of_int origW)),
      clamp (fl32 (fl32 (y - fl32 (of_int (lbPadTop lb))) / lbScale lb)) 0 (fl32 (of_int origH)))"

definition gray :: nrgba where "gray = \<lparr>cR = 114, cG = 114, cB = 114, cA = 255\<rparr>"

text \<open>Drawing a picture over a uniform one, clipped to it; \<open>over\<close> composes two pixels.\<close>

definition draw_over :: "('c \<Rightarrow> 'c \<Rightarrow> 'c) \<Rightarrow> int \<times> int \<Rightarrow> int \<times> int \<Rightarrow> 'c img \<Rightarrow> 'c img \<Rightarrow> 'c img" where
  "draw_over over orig extent src d = d\<lparr>pix := (\<lambda>(x, y).
     if minX d \<le> x \<and> x < minX d + dx d \<and> minY d \<le> y \<and> y < minY d + dy d \<and>
        fst orig \<le> x \<and> x < fst orig + min (fst extent) (dx src) \<and> snd orig \<le> y \<and> y < snd orig + min (snd extent) (dy src)
     then over (pix src (x - fst orig, y - snd orig)) (pix d (x, y)) else pix d (x, y))\<rparr>"

definition letterbox ::
  "(int \<Rightarrow> int \<Rightarrow> nrgba img \<Rightarrow> nrgba img) \<Rightarrow> (nrgba \<Rightarrow> nrgba \<Rightarrow> nrgba) \<Rightarrow> nrgba img \<Rightarrow> int \<Rightarrow> int \<Rightarrow> letterboxResult" where
  "letterbox resize over im targetW targetH =
     (let origW = fl32 (of_int (dx im)); origH = fl32 (of_int (dy im));
          ws = fl32 (fl32 (of_int targetW) / origW); hs = fl32 (fl32 (of_int targetH) / origH);
          scale = (if hs < ws then hs else ws);
          newW = f_trunc (fl32 (fl32 (origW * scale) + 1 / 2)); newH = f_trunc (fl32 (fl32 (origH * scale) + 1 / 2));
          padLeft = go_div (targetW - newW) 2; padTop = go_div (targetH - newH) 2
      in \<lparr>lbImg = draw_over over (padLeft, padTop) (newW, newH) (resize newW newH im) (NewRGBA gray targetW targetH),
          lbScale = scale, lbPadLeft = padLeft, lbPadTop = padTop\<rparr>)"

text \<open>The tensor: a plane of red, one of green, one of blue.\<close>

definition unit_byte :: "byte \<Rightarrow> rat" where
  "unit_byte b = fl32 (of_int (uint b) / 255)"

definition toTensor :: "nrgba img \<Rightarrow> rat list \<Rightarrow> rat list" where
  "toTensor im buf =
     (let w = nat (dx im); h = nat (dy im); planeSize = w * h
      in fold (\<lambda>y. fold (\<lambda>x b.
           let px = pix im (int x, int y); i = y * w + x
           in b[i := unit_byte (cR px), planeSize + i := unit_byte (cG px), 2 * planeSize + i := unit_byte (cB px)])
         [0..<w]) [0..<h] buf)"

subsection \<open>Decoding\<close>

record output_layout =
  NumBoxes :: nat
  NumChannels :: nat
  Transposed :: bool

record detection =
  ClassID :: nat
  ClassName :: string
  Confidence :: rat
  X1 :: rat
  Y1 :: rat
  X2 :: rat
  Y2 :: rat

record parse_params =
  ppLayout :: output_layout
  ppConfThreshold :: rat
  ppNMSThreshold :: rat
  ppLetterbox :: letterboxResult
  ppOrigW :: int
  ppOrigH :: int

definition out_at :: "output_layout \<Rightarrow> rat list \<Rightarrow> nat \<Rightarrow> nat \<Rightarrow> rat" where
  "out_at l data ch box =
     (if Transposed l then data ! (box * NumChannels l + ch) else data ! (ch * NumBoxes l + box))"

text \<open>The class with the largest score above zero, the first one of equals; class 0 with score 0 if there is
  none.\<close>

definition best_class :: "output_layout \<Rightarrow> rat list \<Rightarrow> nat \<Rightarrow> rat \<times> nat" where
  "best_class l data i =
     fold (\<lambda>c (bestScore, bestClass). let s = out_at l data (4 + c) i in if s > bestScore then (s, c) else (bestScore, bestClass))
       [0..<NumChannels l - 4] (0, 0)"

definition parse_box :: "rat list \<Rightarrow> parse_params \<Rightarrow> nat \<Rightarrow> detection option" where
  "parse_box data p i =
     (let l = ppLayout p; (bestScore, bestClass) = best_class l data i
      in if bestScore < ppConfThreshold p then None
         else
           let cx = out_at l data 0 i; cy = out_at l data 1 i; w = out_at l data 2 i; h = out_at l data 3 i;
               bx1 = fl32 (cx - fl32 (w / 2)); by1 = fl32 (cy - fl32 (h / 2));
               bx2 = fl32 (cx + fl32 (w / 2)); by2 = fl32 (cy + fl32 (h / 2));
               (ox1, oy1) = toOriginal (ppLetterbox p) bx1 by1 (ppOrigW p) (ppOrigH p);
               (ox2, oy2) = toOriginal (ppLetterbox p) bx2 by2 (ppOrigW p) (ppOrigH p)
           in if ox2 \<le> ox1 \<or> oy2 \<le> oy1 then None
              else Some \<lparr>ClassID = bestClass,
                     ClassName = (if bestClass < length CocoClasses then CocoClasses ! bestClass else ''unknown''),
                     Confidence = bestScore, X1 = ox1, Y1 = oy1, X2 = ox2, Y2 = oy2\<rparr>)"

definition boxIoU :: "detection \<Rightarrow> detection \<Rightarrow> rat" where
  "boxIoU a b =
     (let ix1 = max (X1 a) (X1 b); iy1 = max (Y1 a) (Y1 b); ix2 = min (X2 a) (X2 b); iy2 = min (Y2 a) (Y2 b);
          inter = fl32 (max 0 (fl32 (ix2 - ix1)) * max 0 (fl32 (iy2 - iy1)));
          aArea = fl32 (fl32 (X2 a - X1 a) * fl32 (Y2 a - Y1 a));
          bArea = fl32 (fl32 (X2 b - X1 b) * fl32 (Y2 b - Y1 b))
      in fl32 (inter / fl32 (fl32 (fl32 (aArea + bArea) - inter) + fl32 (1 / 1000000))))"

text \<open>The two loops over one class, with the flags of the suppressed boxes.\<close>

fun nms_scan :: "rat \<Rightarrow> (detection \<times> bool) list \<Rightarrow> detection list" where
  "nms_scan iouThresh [] = []"
| "nms_scan iouThresh ((d, suppressed) # ds) =
     (if suppressed then nms_scan iouThresh ds
      else d # nms_scan iouThresh (map (\<lambda>(e, s). (e, s \<or> boxIoU d e > iouThresh)) ds))"

definition nms :: "nat list \<Rightarrow> (detection list \<Rightarrow> detection list) \<Rightarrow> detection list \<Rightarrow> rat \<Rightarrow> detection list" where
  "nms classes srt dets iouThresh =
     concat (map (\<lambda>c. nms_scan iouThresh (map (\<lambda>d. (d, False)) (srt (filter (\<lambda>d. ClassID d = c) dets)))) classes)"

definition candidates :: "rat list \<Rightarrow> parse_params \<Rightarrow> detection list" where
  "candidates data p = List.map_filter (parse_box data p) [0..<NumBoxes (ppLayout p)]"

definition parseOutput ::
  "(detection list \<Rightarrow> nat list) \<Rightarrow> (detection list \<Rightarrow> detection list) \<Rightarrow> rat list \<Rightarrow> parse_params \<Rightarrow> detection list" where
  "parseOutput classes srt data p =
     (let cs = candidates data p in nms (classes cs) srt cs (ppNMSThreshold p))"

subsection \<open>Suppression\<close>

text \<open>Greedy selection without flags: keep the first box and drop those it overlaps too much.\<close>

fun suppress :: "rat \<Rightarrow> detection list \<Rightarrow> detection list" where
  "suppress t [] = []"
| "suppress t (d # ds) = d # suppress t (filter (\<lambda>e. \<not> boxIoU d e > t) ds)"

lemma nms_scan_suppress: "nms_scan t xs = suppress t (map fst (filter (\<lambda>x. \<not> snd x) xs))"
proof (induction t xs rule: nms_scan.induct)
  case (2 t d s ds)
  have "map fst (filter (\<lambda>x. \<not> snd x) (map (\<lambda>(e, s). (e, s \<or> boxIoU d e > t)) ds)) =
      filter (\<lambda>e. \<not> boxIoU d e > t) (map fst (filter (\<lambda>x. \<not> snd x) ds))"
    by (induction ds) auto
  with 2 show ?case by auto
qed simp

lemma nms_scan_start: "nms_scan t (map (\<lambda>d. (d, False)) ds) = suppress t ds"
proof -
  have "map fst (filter (\<lambda>x. \<not> snd x) (map (\<lambda>d. (d, False)) ds)) = ds" by (induction ds) auto
  then show ?thesis by (simp add: nms_scan_suppress)
qed

lemma suppress_mset: "mset (suppress t ds) \<subseteq># mset ds"
proof (induction t ds rule: suppress.induct)
  case (2 t d ds)
  have "mset (filter (\<lambda>e. \<not> boxIoU d e > t) ds) \<subseteq># mset ds" by (simp add: multiset_filter_subset)
  then have "mset (suppress t (filter (\<lambda>e. \<not> boxIoU d e > t) ds)) \<subseteq># mset ds"
    by (rule subset_mset.order_trans [OF 2])
  then show ?case by simp
qed simp

lemma suppress_set: "set (suppress t ds) \<subseteq> set ds"
  using suppress_mset [of t ds] by (meson set_mset_mono set_mset_mset subset_eq mset_subset_eqD in_multiset_in_set)

lemma suppress_apart: "sorted_wrt (\<lambda>a b. boxIoU a b \<le> t) (suppress t ds)"
proof (induction t ds rule: suppress.induct)
  case (2 t d ds)
  have "\<forall>b\<in>set (suppress t (filter (\<lambda>e. \<not> boxIoU d e > t) ds)). boxIoU d b \<le> t"
    using suppress_set [of t "filter (\<lambda>e. \<not> boxIoU d e > t) ds"] by auto
  with 2 show ?case by simp
qed simp

lemma suppress_sorted: "sorted_wrt R ds \<Longrightarrow> sorted_wrt R (suppress t ds)"
proof (induction t ds rule: suppress.induct)
  case (2 t d ds)
  then have "sorted_wrt R (filter (\<lambda>e. \<not> boxIoU d e > t) ds)" by (simp add: sorted_wrt_filter)
  with 2 show ?case using suppress_set [of t "filter (\<lambda>e. \<not> boxIoU d e > t) ds"] by auto
qed simp

lemma suppress_covers:
  "sorted_wrt R ds \<Longrightarrow> d \<in> set ds \<Longrightarrow> d \<in> set (suppress t ds) \<or> (\<exists>e \<in> set (suppress t ds). R e d \<and> t < boxIoU e d)"
proof (induction t ds rule: suppress.induct)
  case (2 t a ds)
  show ?case
  proof (cases "d = a \<or> t < boxIoU a d")
    case True
    with 2 show ?thesis by auto
  next
    case False
    with 2 have "d \<in> set (filter (\<lambda>e. \<not> boxIoU a e > t) ds)" by auto
    moreover have "sorted_wrt R (filter (\<lambda>e. \<not> boxIoU a e > t) ds)" using 2(2) by (simp add: sorted_wrt_filter)
    ultimately show ?thesis using 2(1) by auto
  qed
qed simp

definition kept :: "(detection list \<Rightarrow> detection list) \<Rightarrow> detection list \<Rightarrow> rat \<Rightarrow> nat \<Rightarrow> detection list" where
  "kept srt dets t c = suppress t (srt (filter (\<lambda>d. ClassID d = c) dets))"

lemma nms_kept: "nms classes srt dets t = concat (map (kept srt dets t) classes)"
  unfolding nms_def nms_scan_start by (simp add: kept_def [abs_def])

text \<open>What \<open>sort.Slice\<close> promises.\<close>

locale score_sort =
  fixes srt :: "detection list \<Rightarrow> detection list"
  assumes srt_mset: "mset (srt ds) = mset ds"
    and srt_sorted: "sorted_wrt (\<lambda>a b. Confidence b \<le> Confidence a) (srt ds)"
begin

lemma srt_set: "set (srt ds) = set ds"
  using srt_mset [of ds] by (metis set_mset_mset)

lemma kept_mset: "mset (kept srt dets t c) \<subseteq># filter_mset (\<lambda>d. ClassID d = c) (mset dets)"
  using suppress_mset [of t "srt (filter (\<lambda>d. ClassID d = c) dets)"] by (simp add: kept_def srt_mset)

lemma kept_set: "set (kept srt dets t c) \<subseteq> {d \<in> set dets. ClassID d = c}"
  using suppress_set [of t "srt (filter (\<lambda>d. ClassID d = c) dets)"] by (auto simp: kept_def srt_set)

lemma kept_apart:
  "sorted_wrt (\<lambda>a b. Confidence b \<le> Confidence a \<and> boxIoU a b \<le> t) (kept srt dets t c)"
  using suppress_apart [of t "srt (filter (\<lambda>d. ClassID d = c) dets)"]
    suppress_sorted [OF srt_sorted, of t "filter (\<lambda>d. ClassID d = c) dets"]
  unfolding kept_def by (simp add: sorted_wrt_iff_nth_less)

lemma nms_covers:
  assumes "set classes = ClassID ` set dets" "d \<in> set dets"
  shows "d \<in> set (nms classes srt dets t) \<or>
    (\<exists>e \<in> set (nms classes srt dets t). ClassID e = ClassID d \<and> Confidence d \<le> Confidence e \<and> t < boxIoU e d)"
proof -
  have "d \<in> set (srt (filter (\<lambda>e. ClassID e = ClassID d) dets))" using assms(2) by (simp add: srt_set)
  from suppress_covers [OF srt_sorted this] have
    "d \<in> set (kept srt dets t (ClassID d)) \<or> (\<exists>e \<in> set (kept srt dets t (ClassID d)). Confidence d \<le> Confidence e \<and> t < boxIoU e d)"
    by (simp add: kept_def)
  moreover have "ClassID d \<in> set classes" using assms by simp
  ultimately show ?thesis using kept_set [of dets t "ClassID d"] unfolding nms_kept by fastforce
qed

lemma nms_apart:
  "distinct classes \<Longrightarrow>
   sorted_wrt (\<lambda>a b. ClassID a = ClassID b \<longrightarrow> Confidence b \<le> Confidence a \<and> boxIoU a b \<le> t) (nms classes srt dets t)"
proof (induction classes)
  case Nil
  then show ?case by (simp add: nms_kept)
next
  case (Cons c cs)
  have "\<forall>a \<in> set (kept srt dets t c). \<forall>b \<in> set (concat (map (kept srt dets t) cs)). ClassID a \<noteq> ClassID b"
  proof (intro ballI)
    fix a b
    assume a: "a \<in> set (kept srt dets t c)" and b: "b \<in> set (concat (map (kept srt dets t) cs))"
    then obtain c' where "c' \<in> set cs" "b \<in> set (kept srt dets t c')" by auto
    then have "ClassID b = c'" using kept_set [of dets t c'] by blast
    moreover have "ClassID a = c" using a kept_set [of dets t c] by blast
    ultimately show "ClassID a \<noteq> ClassID b" using \<open>c' \<in> set cs\<close> Cons.prems by auto
  qed
  moreover have "sorted_wrt (\<lambda>a b. ClassID a = ClassID b \<longrightarrow> Confidence b \<le> Confidence a \<and> boxIoU a b \<le> t) (kept srt dets t c)"
    by (rule sorted_wrt_mono_rel [OF _ kept_apart]) simp
  ultimately show ?case using Cons by (auto simp: nms_kept sorted_wrt_append)
qed

lemma nms_subset:
  "distinct classes \<Longrightarrow> mset (nms classes srt dets t) \<subseteq># mset dets"
proof -
  assume "distinct classes"
  then have "mset (concat (map (kept srt dets t) classes)) \<subseteq># filter_mset (\<lambda>d. ClassID d \<in> set classes) (mset dets)"
  proof (induction classes)
    case (Cons c cs)
    have "filter_mset (\<lambda>d. ClassID d \<in> set (c # cs)) (mset dets) =
        filter_mset (\<lambda>d. ClassID d = c) (mset dets) + filter_mset (\<lambda>d. ClassID d \<in> set cs) (mset dets)"
      using Cons.prems by (induction dets) auto
    with Cons kept_mset [of dets t c] show ?case by (simp add: subset_mset.add_mono)
  qed simp
  then show ?thesis unfolding nms_kept using multiset_filter_subset subset_mset.order_trans by blast
qed

text \<open>The order in which the classes are visited changes nothing but the order of the result.\<close>

lemma nms_order: "mset classes = mset classes' \<Longrightarrow> mset (nms classes srt dets t) = mset (nms classes' srt dets t)"
proof -
  have c: "mset (concat (map f cs)) = sum_mset (image_mset (\<lambda>c. mset (f c)) (mset cs))" for f :: "nat \<Rightarrow> detection list" and cs
    by (induction cs) simp_all
  show "mset classes = mset classes' \<Longrightarrow> ?thesis" by (simp add: nms_kept c)
qed

end

definition by_score :: "detection list \<Rightarrow> detection list" where
  "by_score = sort_key (\<lambda>d. - Confidence d)"

interpretation stable: score_sort by_score
proof unfold_locales
  fix ds
  show "mset (by_score ds) = mset ds" by (simp add: by_score_def)
  have "sorted (map (\<lambda>d. - Confidence d) (by_score ds))" by (simp add: by_score_def)
  then show "sorted_wrt (\<lambda>a b. Confidence b \<le> Confidence a) (by_score ds)" by (simp add: sorted_wrt_map)
qed

lemma boxIoU_sym: "boxIoU a b = boxIoU b a"
  by (simp add: boxIoU_def Let_def max.commute min.commute add.commute)

subsection \<open>Properties\<close>

text \<open>C10: Non-maximum suppression does its job, however the classes are visited and equal scores are ordered: the
  result holds each detection at most as often as it was found; of two boxes of one class in it, the one that comes
  first has at least the score of the other and they overlap by no more than the threshold, whichever is measured
  against the other; and a detection that is missing overlaps one of its class in the result, with at least its
  score, by more than the threshold. Visiting the classes in another order gives the same detections.\<close>
theorem nms_selects:
  assumes "score_sort srt" "distinct classes" "set classes = ClassID ` set dets"
  shows "mset (nms classes srt dets t) \<subseteq># mset dets \<and>
    sorted_wrt (\<lambda>a b. ClassID a = ClassID b \<longrightarrow> Confidence b \<le> Confidence a \<and> boxIoU a b \<le> t \<and> boxIoU b a \<le> t)
      (nms classes srt dets t) \<and>
    (\<forall>d \<in> set dets. d \<in> set (nms classes srt dets t) \<or>
       (\<exists>e \<in> set (nms classes srt dets t). ClassID e = ClassID d \<and> Confidence d \<le> Confidence e \<and> t < boxIoU e d)) \<and>
    (if mset classes' = mset classes then mset (nms classes' srt dets t) = mset (nms classes srt dets t) else True)"
proof -
  have "sorted_wrt (\<lambda>a b. ClassID a = ClassID b \<longrightarrow> Confidence b \<le> Confidence a \<and> boxIoU a b \<le> t \<and> boxIoU b a \<le> t)
      (nms classes srt dets t)"
    by (rule sorted_wrt_mono_rel [OF _ score_sort.nms_apart [OF assms(1,2)]]) (auto simp: boxIoU_sym)
  moreover have "\<forall>d \<in> set dets. d \<in> set (nms classes srt dets t) \<or>
      (\<exists>e \<in> set (nms classes srt dets t). ClassID e = ClassID d \<and> Confidence d \<le> Confidence e \<and> t < boxIoU e d)"
    by (rule ballI) (rule score_sort.nms_covers [OF assms(1,3)])
  moreover have "if mset classes' = mset classes then mset (nms classes' srt dets t) = mset (nms classes srt dets t) else True"
  proof (cases "mset classes' = mset classes")
    case True
    show ?thesis unfolding if_P [OF True] by (rule score_sort.nms_order [OF assms(1) True])
  next
    case False
    show ?thesis unfolding if_not_P [OF False] by (rule TrueI)
  qed
  ultimately show ?thesis using score_sort.nms_subset [OF assms(1,2)] by (intro conjI)
qed

definition demo_det :: "nat \<Rightarrow> rat \<Rightarrow> rat \<Rightarrow> detection" where
  "demo_det c s x = \<lparr>ClassID = c, ClassName = ''x'', Confidence = s, X1 = x, Y1 = 0, X2 = x + 10, Y2 = 10\<rparr>"

theorem nms_selects_witness:
  "mset (nms [0, 1] by_score [demo_det 0 (1 / 2) 0, demo_det 0 (3 / 4) 1, demo_det 1 (1 / 2) 0] (1 / 2)) \<subseteq>#
     mset [demo_det 0 (1 / 2) 0, demo_det 0 (3 / 4) 1, demo_det 1 (1 / 2) 0]"
proof -
  have c: "set [0, 1] = ClassID ` set [demo_det 0 (1 / 2) 0, demo_det 0 (3 / 4) 1, demo_det 1 (1 / 2) 0]"
    by (auto simp: demo_det_def)
  have d: "distinct [0, 1 :: nat]" by simp
  show ?thesis by (rule conjunct1 [OF nms_selects [OF stable.score_sort_axioms d c, where classes' = "[]"]])
qed

text \<open>The search for the best class.\<close>

lemma best_class_fold:
  assumes "fold (\<lambda>c (b, k). let s = f c in if s > b then (s, c) else (b, k)) [0..<n] (0 :: rat, 0) = (s, c)"
  shows "0 \<le> s \<and> (\<forall>k < n. f k \<le> s) \<and> (s = 0 \<and> c = 0 \<or> c < n \<and> s = f c)"
  using assms
proof (induction n arbitrary: s c)
  case (Suc n)
  define r where "r = fold (\<lambda>c (b, k). let s = f c in if s > b then (s, c) else (b, k)) [0..<n] (0 :: rat, 0)"
  obtain s0 c0 where r: "r = (s0, c0)" by fastforce
  with Suc.IH have IH: "0 \<le> s0" "\<forall>k < n. f k \<le> s0" "s0 = 0 \<and> c0 = 0 \<or> c0 < n \<and> s0 = f c0" by (simp_all add: r_def)
  have r': "fold (\<lambda>c (b, k). if b < f c then (f c, c) else (b, k)) [0..<n] (0, 0) = (s0, c0)"
    using r by (simp add: r_def Let_def)
  from Suc.prems have "(if f n > s0 then (f n, n) else (s0, c0)) = (s, c)" by (simp add: Let_def r')
  with IH show ?case by (fastforce simp: less_Suc_eq split: if_splits)
qed simp

lemma clamp_range: "lo \<le> hi \<Longrightarrow> lo \<le> clamp v lo hi \<and> clamp v lo hi \<le> hi"
  by (simp add: clamp_def)

lemma toOriginal_range:
  assumes "0 \<le> w" "0 \<le> h" "toOriginal lb x y w h = (a, b)"
  shows "0 \<le> a \<and> a \<le> fl32 (of_int w) \<and> 0 \<le> b \<and> b \<le> fl32 (of_int h)"
proof -
  have "0 \<le> fl32 (of_int w)" "0 \<le> fl32 (of_int h)" using assms(1,2) by (simp_all add: fl32_def round_bits_nonneg)
  with assms(3) clamp_range show ?thesis by (auto simp: toOriginal_def)
qed

lemma parse_box_range:
  assumes "0 \<le> ppOrigW p" "0 \<le> ppOrigH p" "parse_box data p i = Some d"
  shows "0 \<le> X1 d \<and> X1 d < X2 d \<and> X2 d \<le> fl32 (of_int (ppOrigW p)) \<and>
    0 \<le> Y1 d \<and> Y1 d < Y2 d \<and> Y2 d \<le> fl32 (of_int (ppOrigH p)) \<and> ppConfThreshold p \<le> Confidence d \<and>
    best_class (ppLayout p) data i = (Confidence d, ClassID d)"
proof -
  let ?l = "ppLayout p"
  define bx1 bx2 where "bx1 = fl32 (out_at ?l data 0 i - fl32 (out_at ?l data 2 i / 2))"
    and "bx2 = fl32 (out_at ?l data 0 i + fl32 (out_at ?l data 2 i / 2))"
  define by1 by2 where "by1 = fl32 (out_at ?l data 1 i - fl32 (out_at ?l data 3 i / 2))"
    and "by2 = fl32 (out_at ?l data 1 i + fl32 (out_at ?l data 3 i / 2))"
  obtain s c where sc: "best_class ?l data i = (s, c)" by fastforce
  obtain x1 y1 where o1: "toOriginal (ppLetterbox p) bx1 by1 (ppOrigW p) (ppOrigH p) = (x1, y1)" by fastforce
  obtain x2 y2 where o2: "toOriginal (ppLetterbox p) bx2 by2 (ppOrigW p) (ppOrigH p) = (x2, y2)" by fastforce
  have "\<not> s < ppConfThreshold p \<and> \<not> (x2 \<le> x1 \<or> y2 \<le> y1) \<and> Confidence d = s \<and> ClassID d = c \<and>
      X1 d = x1 \<and> Y1 d = y1 \<and> X2 d = x2 \<and> Y2 d = y2"
    using assms(3) unfolding parse_box_def Let_def bx1_def [symmetric] bx2_def [symmetric] by1_def [symmetric] by2_def [symmetric]
    by (auto simp: sc o1 o2 split: if_splits)
  with toOriginal_range [OF assms(1,2) o1] toOriginal_range [OF assms(1,2) o2] sc show ?thesis by auto
qed

lemma candidates_iff: "d \<in> set (candidates data p) \<longleftrightarrow> (\<exists>i < NumBoxes (ppLayout p). parse_box data p i = Some d)"
  by (force simp: candidates_def List.map_filter_def)


definition demo_layout :: output_layout where
  "demo_layout = \<lparr>NumBoxes = 1, NumChannels = 5, Transposed = True\<rparr>"

definition demo_params :: parse_params where
  "demo_params = \<lparr>ppLayout = demo_layout, ppConfThreshold = 1 / 4, ppNMSThreshold = 1 / 2,
     ppLetterbox = \<lparr>lbImg = NewRGBA gray 8 8, lbScale = 1, lbPadLeft = 0, lbPadTop = 2\<rparr>, ppOrigW = 8, ppOrigH = 4\<rparr>"

lemma fl32_small: "fl32 0 = 0" "fl32 1 = 1" "fl32 2 = 2" "fl32 3 = 3" "fl32 4 = 4" "fl32 5 = 5" "fl32 6 = 6" "fl32 8 = 8"
  using fl32_int [of 0] fl32_int [of 1] fl32_int [of 2] fl32_int [of 3] fl32_int [of 4] fl32_int [of 5] fl32_int [of 6]
    fl32_int [of 8] by simp_all

lemma demo_candidates: "candidates [4, 4, 2, 2, 1 / 2] demo_params =
  [\<lparr>ClassID = 0, ClassName = ''person'', Confidence = 1 / 2, X1 = 3, Y1 = 1, X2 = 5, Y2 = 3\<rparr>]"
  by (simp add: candidates_def List.map_filter_simps parse_box_def best_class_def demo_params_def demo_layout_def out_at_def
      toOriginal_def clamp_def fl32_small CocoClasses_def)


lemma map_filter_same: "(\<And>x. x \<in> set xs \<Longrightarrow> f x = g x) \<Longrightarrow> List.map_filter f xs = List.map_filter g xs"
proof (induction xs)
  case (Cons x xs)
  then have "f x = g x" by simp
  with Cons show ?case by (simp add: List.map_filter_simps split: option.split)
qed (simp add: List.map_filter_simps)

text \<open>The two layouts in which models are exported are equivalent: on an output and its transpose the detector
  reports the same detections, provided their boxes and channels are the same in number.\<close>
theorem layouts_equivalent:
  assumes "ppLayout p = l\<lparr>Transposed := False\<rparr>"
    and "\<And>ch box. ch < NumChannels l \<Longrightarrow> box < NumBoxes l \<Longrightarrow> data' ! (box * NumChannels l + ch) = data ! (ch * NumBoxes l + box)"
    and "4 \<le> NumChannels l"
  shows "parseOutput classes srt data' (p\<lparr>ppLayout := l\<lparr>Transposed := True\<rparr>\<rparr>) = parseOutput classes srt data p"
proof -
  have at: "out_at (l\<lparr>Transposed := True\<rparr>) data' ch i = out_at (l\<lparr>Transposed := False\<rparr>) data ch i"
    if "ch < NumChannels l" "i < NumBoxes l" for ch i
    using assms(2) [OF that] by (simp add: out_at_def)
  have best: "best_class (l\<lparr>Transposed := True\<rparr>) data' i = best_class (l\<lparr>Transposed := False\<rparr>) data i" if "i < NumBoxes l" for i
    unfolding best_class_def by (rule fold_cong) (use at that in \<open>auto simp: fun_eq_iff\<close>)
  have box: "parse_box data' (p\<lparr>ppLayout := l\<lparr>Transposed := True\<rparr>\<rparr>) i = parse_box data p i" if "i < NumBoxes l" for i
  proof -
    have c: "out_at (l\<lparr>Transposed := True\<rparr>) data' 0 i = out_at (l\<lparr>Transposed := False\<rparr>) data 0 i"
      "out_at (l\<lparr>Transposed := True\<rparr>) data' 1 i = out_at (l\<lparr>Transposed := False\<rparr>) data 1 i"
      "out_at (l\<lparr>Transposed := True\<rparr>) data' 2 i = out_at (l\<lparr>Transposed := False\<rparr>) data 2 i"
      "out_at (l\<lparr>Transposed := True\<rparr>) data' 3 i = out_at (l\<lparr>Transposed := False\<rparr>) data 3 i"
      using at [OF _ that] assms(3) by simp_all
    have l: "ppLayout (p\<lparr>ppLayout := l\<lparr>Transposed := True\<rparr>\<rparr>) = l\<lparr>Transposed := True\<rparr>"
      "ppConfThreshold (p\<lparr>ppLayout := l'\<rparr>) = ppConfThreshold p" "ppLetterbox (p\<lparr>ppLayout := l'\<rparr>) = ppLetterbox p"
      "ppOrigW (p\<lparr>ppLayout := l'\<rparr>) = ppOrigW p" "ppOrigH (p\<lparr>ppLayout := l'\<rparr>) = ppOrigH p" for l'
      by simp_all
    show ?thesis unfolding parse_box_def l assms(1) Let_def best [OF that] c ..
  qed
  have "candidates data' (p\<lparr>ppLayout := l\<lparr>Transposed := True\<rparr>\<rparr>) = candidates data p"
    unfolding candidates_def by (simp add: assms(1)) (rule map_filter_same, use box in simp)
  then show ?thesis by (simp add: parseOutput_def)
qed

theorem layouts_equivalent_witness:
  "parseOutput (\<lambda>_. [0]) by_score [4, 4, 2, 2, 1 / 2] (demo_params\<lparr>ppLayout := demo_layout\<rparr>) =
   parseOutput (\<lambda>_. [0]) by_score [4, 4, 2, 2, 1 / 2] (demo_params\<lparr>ppLayout := demo_layout\<lparr>Transposed := False\<rparr>\<rparr>)"
proof -
  have "data' ! (box * NumChannels demo_layout + ch) = data' ! (ch * NumBoxes demo_layout + box)"
    if "ch < NumChannels demo_layout" "box < NumBoxes demo_layout" for ch box and data' :: "rat list"
    using that by (simp add: demo_layout_def)
  from layouts_equivalent [OF _ this, of "demo_params\<lparr>ppLayout := demo_layout\<lparr>Transposed := False\<rparr>\<rparr>"]
  show ?thesis by (simp add: demo_layout_def demo_params_def)
qed

end
