(* ===== verification/Detect_Draw.thy ===== *)
theory Detect_Draw
  imports Detect_Boxes
begin

section \<open>Drawing the detections (camera-web-restream-detector-api, draw.go)\<close>

text \<open>
  The outline of a box, its label and \<open>Annotate\<close>, on images whose bounds need not start at the origin. The
  glyphs of the font library are the argument \<open>glyphs\<close>. That an operation gives one colour to a set of
  pixels and touches nothing else is \<open>paints\<close>, which composes along the loops.
\<close>

subsection \<open>Operations\<close>

definition in_img :: "'c img \<Rightarrow> int \<times> int \<Rightarrow> bool" where
  "in_img im p \<longleftrightarrow> minX im \<le> fst p \<and> fst p < minX im + dx im \<and> minY im \<le> snd p \<and> snd p < minY im + dy im"

definition SetNRGBA :: "int \<times> int \<Rightarrow> 'c \<Rightarrow> 'c img \<Rightarrow> 'c img" where
  "SetNRGBA p c im = (if in_img im p then im\<lparr>pix := (pix im)(p := c)\<rparr> else im)"

definition clampInt :: "int \<Rightarrow> int \<Rightarrow> int \<Rightarrow> int" where
  "clampInt v lo hi = (if v < lo then lo else if v > hi then hi else v)"

definition boxThickness :: int where "boxThickness = 2"

text \<open>The pixel a loop of \<open>drawRect\<close> sets if its other coordinate is inside the bounds.\<close>

definition row_pixel :: "'c img \<Rightarrow> 'c \<Rightarrow> int \<Rightarrow> int \<Rightarrow> 'c img \<Rightarrow> 'c img" where
  "row_pixel b col x y im = (if minY b \<le> y \<and> y < minY b + dy b then SetNRGBA (x, y) col im else im)"

definition col_pixel :: "'c img \<Rightarrow> 'c \<Rightarrow> int \<Rightarrow> int \<Rightarrow> 'c img \<Rightarrow> 'c img" where
  "col_pixel b col x y im = (if minX b \<le> x \<and> x < minX b + dx b then SetNRGBA (x, y) col im else im)"

definition drawRect :: "int \<Rightarrow> int \<Rightarrow> int \<Rightarrow> int \<Rightarrow> 'c \<Rightarrow> 'c img \<Rightarrow> 'c img" where
  "drawRect x1 y1 x2 y2 col b =
     (let maxX = minX b + dx b; maxY = minY b + dy b
      in fold (\<lambda>t im.
           fold (\<lambda>y im. col_pixel b col (x2 + t) y (col_pixel b col (x1 - t) y im))
             [clampInt y1 (minY b) (maxY - 1)..clampInt y2 (minY b) (maxY - 1)]
             (fold (\<lambda>x im. row_pixel b col x (y2 + t) (row_pixel b col x (y1 - t) im))
                [clampInt x1 (minX b) (maxX - 1)..clampInt x2 (minX b) (maxX - 1)] im))
         [0..boxThickness - 1] b)"

definition label_size :: "string \<Rightarrow> int \<times> int" where
  "label_size txt = (int (length txt) * 7 + 2 * 2, 13 + 2 * 2)"

definition label_top :: "int \<Rightarrow> int" where
  "label_top y = (if y - 17 < 0 then y else y - 17)"

definition label_bg :: "nrgba \<Rightarrow> nrgba" where
  "label_bg col = \<lparr>cR = cR col div 2, cG = cG col div 2, cB = cB col div 2, cA = 200\<rparr>"

definition drawLabel ::
  "(string \<Rightarrow> int \<times> int \<Rightarrow> nrgba img \<Rightarrow> nrgba img) \<Rightarrow> string \<Rightarrow> int \<Rightarrow> int \<Rightarrow> nrgba \<Rightarrow> nrgba img \<Rightarrow> nrgba img" where
  "drawLabel glyphs txt x y col b =
     (let (tw, th) = label_size txt; labelY = label_top y
      in glyphs txt (x + 2, labelY + 2 + 13 - 2)
           (fold (\<lambda>ddy. fold (\<lambda>ddx im.
              let px = x + ddx; py = labelY + ddy
              in if minX b \<le> px \<and> px < minX b + dx b \<and> minY b \<le> py \<and> py < minY b + dy b
                 then SetNRGBA (px, py) (label_bg col) im else im)
              [0..tw - 1]) [0..th - 1] b))"

definition pixel_of :: "rat \<Rightarrow> int" where
  "pixel_of v = f_trunc (fl32 (v + 1 / 2))"

definition det_label :: "detection \<Rightarrow> string" where
  "det_label d = ClassName d @ '' '' @ itoa (round_even (fl32 (Confidence d * 100))) @ ''%''"

definition draw_detection :: "(string \<Rightarrow> int \<times> int \<Rightarrow> nrgba img \<Rightarrow> nrgba img) \<Rightarrow> detection \<Rightarrow> nrgba img \<Rightarrow> nrgba img" where
  "draw_detection glyphs d im =
     (let col = classColor (ClassID d); x1 = pixel_of (X1 d); y1 = pixel_of (Y1 d)
      in drawLabel glyphs (det_label d) x1 y1 col (drawRect x1 y1 (pixel_of (X2 d)) (pixel_of (Y2 d)) col im))"

definition Annotate :: "(string \<Rightarrow> int \<times> int \<Rightarrow> nrgba img \<Rightarrow> nrgba img) \<Rightarrow> nrgba img \<Rightarrow> detection list \<Rightarrow> nrgba img" where
  "Annotate glyphs im dets = fold (draw_detection glyphs) dets im"

subsection \<open>Painting\<close>

definition same_bounds :: "'c img \<Rightarrow> 'c img \<Rightarrow> bool" where
  "same_bounds a b \<longleftrightarrow> minX a = minX b \<and> minY a = minY b \<and> dx a = dx b \<and> dy a = dy b"

definition paints :: "'c img \<Rightarrow> 'c \<Rightarrow> (int \<times> int \<Rightarrow> bool) \<Rightarrow> ('c img \<Rightarrow> 'c img) \<Rightarrow> bool" where
  "paints b col H f \<longleftrightarrow>
     (\<forall>im. same_bounds b im \<longrightarrow> same_bounds b (f im) \<and> (\<forall>p. pix (f im) p = (if H p then col else pix im p)))"

lemma same_bounds_refl [simp]: "same_bounds im im"
  by (simp add: same_bounds_def)

lemma in_img_same: "same_bounds a b \<Longrightarrow> in_img b p = in_img a p"
  by (simp add: same_bounds_def in_img_def)

lemma paints_Set: "paints b col (\<lambda>q. q = p \<and> in_img b p) (SetNRGBA p col)"
  unfolding paints_def
proof (intro allI impI conjI)
  fix im q
  assume s: "same_bounds b im"
  then show "same_bounds b (SetNRGBA p col im)" by (simp add: SetNRGBA_def same_bounds_def)
  from in_img_same [OF s] show "pix (SetNRGBA p col im) q = (if q = p \<and> in_img b p then col else pix im q)"
    by (simp add: SetNRGBA_def)
qed

lemma paints_if: "paints b col H f \<Longrightarrow> paints b col (\<lambda>p. c \<and> H p) (\<lambda>im. if c then f im else im)"
  by (auto simp: paints_def)

lemma paints_comp: "paints b col H f \<Longrightarrow> paints b col K g \<Longrightarrow> paints b col (\<lambda>p. H p \<or> K p) (\<lambda>im. g (f im))"
  by (auto simp: paints_def)

lemma paints_fold: "(\<And>x. x \<in> set xs \<Longrightarrow> paints b col (H x) (f x)) \<Longrightarrow> paints b col (\<lambda>p. \<exists>x \<in> set xs. H x p) (fold f xs)"
proof (induction xs)
  case Nil
  then show ?case by (simp add: paints_def)
next
  case (Cons x xs)
  then have "paints b col (\<lambda>p. H x p \<or> (\<exists>x \<in> set xs. H x p)) (\<lambda>im. fold f xs (f x im))" by (intro paints_comp) simp_all
  then show ?case by (simp add: comp_def)
qed

lemma paints_cong: "paints b col H f \<Longrightarrow> (\<And>p. H p = K p) \<Longrightarrow> paints b col K f"
  by (simp add: paints_def)

lemma paintsD: "paints b col H f \<Longrightarrow> same_bounds b im \<Longrightarrow> same_bounds b (f im) \<and> pix (f im) p = (if H p then col else pix im p)"
  unfolding paints_def by blast

lemma paints_row: "paints b col (\<lambda>q. q = (x, y) \<and> in_img b q) (row_pixel b col x y)"
  unfolding row_pixel_def by (rule paints_cong [OF paints_if [OF paints_Set]]) (auto simp: in_img_def)

lemma paints_col: "paints b col (\<lambda>q. q = (x, y) \<and> in_img b q) (col_pixel b col x y)"
  unfolding col_pixel_def by (rule paints_cong [OF paints_if [OF paints_Set]]) (auto simp: in_img_def)

text \<open>The pixels of an outline two pixels thick, growing outwards, its sides cut to the image.\<close>

definition on_outline :: "'c img \<Rightarrow> int \<Rightarrow> int \<Rightarrow> int \<Rightarrow> int \<Rightarrow> int \<times> int \<Rightarrow> bool" where
  "on_outline b x1 y1 x2 y2 p \<longleftrightarrow>
     (clampInt x1 (minX b) (minX b + dx b - 1) \<le> fst p \<and> fst p \<le> clampInt x2 (minX b) (minX b + dx b - 1) \<and>
        snd p \<in> {y1, y1 - 1, y2, y2 + 1}) \<or>
     (clampInt y1 (minY b) (minY b + dy b - 1) \<le> snd p \<and> snd p \<le> clampInt y2 (minY b) (minY b + dy b - 1) \<and>
        fst p \<in> {x1, x1 - 1, x2, x2 + 1})"

lemma paints_sides:
  "paints b col
      (\<lambda>p. (\<exists>x \<in> set [l..r]. (p = (x, y1 - t) \<and> in_img b p) \<or> (p = (x, y2 + t) \<and> in_img b p)) \<or>
          (\<exists>y \<in> set [u..d]. (p = (x1 - t, y) \<and> in_img b p) \<or> (p = (x2 + t, y) \<and> in_img b p)))
      (\<lambda>im. fold (\<lambda>y im. col_pixel b col (x2 + t) y (col_pixel b col (x1 - t) y im)) [u..d]
         (fold (\<lambda>x im. row_pixel b col x (y2 + t) (row_pixel b col x (y1 - t) im)) [l..r] im))"
  by (intro paints_comp paints_fold paints_row paints_col)

lemma sides_outline:
  fixes x y :: int
  assumes "l = clampInt x1 (minX b) (minX b + dx b - 1)" "r = clampInt x2 (minX b) (minX b + dx b - 1)"
    and "u = clampInt y1 (minY b) (minY b + dy b - 1)" "d = clampInt y2 (minY b) (minY b + dy b - 1)"
  shows "(\<exists>t \<in> set [0..boxThickness - 1].
      (\<exists>x' \<in> set [l..r]. ((x, y) = (x', y1 - t) \<and> in_img b (x, y)) \<or> ((x, y) = (x', y2 + t) \<and> in_img b (x, y))) \<or>
      (\<exists>y' \<in> set [u..d]. ((x, y) = (x1 - t, y') \<and> in_img b (x, y)) \<or> ((x, y) = (x2 + t, y') \<and> in_img b (x, y)))) \<longleftrightarrow>
    in_img b (x, y) \<and> on_outline b x1 y1 x2 y2 (x, y)"
proof -
  have t: "set [0..boxThickness - 1] = {0, 1}" by (auto simp: boxThickness_def)
  show ?thesis unfolding t on_outline_def assms [symmetric] by auto
qed

lemma drawRect_spec:
  "same_bounds b (drawRect x1 y1 x2 y2 col b) \<and>
   pix (drawRect x1 y1 x2 y2 col b) p = (if in_img b p \<and> on_outline b x1 y1 x2 y2 p then col else pix b p)"
proof -
  obtain x y where p: "p = (x, y)" by fastforce
  show ?thesis
    unfolding drawRect_def Let_def p
    by (subst sides_outline [OF refl refl refl refl, symmetric]) (rule paintsD [OF paints_fold [OF paints_sides] same_bounds_refl])
qed

lemma inside_not_outline:
  assumes "x1 < x" "x < x2" "y1 < y" "y < y2"
  shows "\<not> on_outline b x1 y1 x2 y2 (x, y)"
  using assms by (auto simp: on_outline_def)

definition in_label :: "string \<Rightarrow> int \<Rightarrow> int \<Rightarrow> int \<times> int \<Rightarrow> bool" where
  "in_label txt x y p \<longleftrightarrow> x \<le> fst p \<and> fst p < x + fst (label_size txt) \<and>
     label_top y \<le> snd p \<and> snd p < label_top y + snd (label_size txt)"

text \<open>The font library draws inside the label, and only inside the image.\<close>

definition glyphs_ok :: "(string \<Rightarrow> int \<times> int \<Rightarrow> nrgba img \<Rightarrow> nrgba img) \<Rightarrow> bool" where
  "glyphs_ok glyphs \<longleftrightarrow>
     (\<forall>txt x y im p. same_bounds im (glyphs txt (x + 2, label_top y + 13) im) \<and>
        (\<not> (in_img im p \<and> in_label txt x y p) \<longrightarrow> pix (glyphs txt (x + 2, label_top y + 13) im) p = pix im p))"

lemma paints_label:
  "paints b c (\<lambda>p. \<exists>j \<in> set [0..h - 1]. \<exists>i \<in> set [0..w - 1]. (minX b \<le> x + i \<and> x + i < minX b + dx b \<and> minY b \<le> y + j \<and> y + j < minY b + dy b) \<and>
        (p = (x + i, y + j) \<and> in_img b (x + i, y + j)))
     (fold (\<lambda>j. fold (\<lambda>i im. if minX b \<le> x + i \<and> x + i < minX b + dx b \<and> minY b \<le> y + j \<and> y + j < minY b + dy b
        then SetNRGBA (x + i, y + j) c im else im) [0..w - 1]) [0..h - 1])"
  by (intro paints_fold paints_if paints_Set)

lemma same_bounds_trans: "same_bounds a b \<Longrightarrow> same_bounds b c \<Longrightarrow> same_bounds a c"
  by (simp add: same_bounds_def)

lemma drawLabel_spec:
  assumes "glyphs_ok glyphs"
  shows "same_bounds b (drawLabel glyphs txt x y col b) \<and>
    (\<not> (in_img b p \<and> in_label txt x y p) \<longrightarrow> pix (drawLabel glyphs txt x y col b) p = pix b p)"
proof -
  define bg :: "nrgba img" where "bg = fold (\<lambda>j. fold (\<lambda>i im. if minX b \<le> x + i \<and> x + i < minX b + dx b \<and> minY b \<le> label_top y + j \<and> label_top y + j < minY b + dy b
        then SetNRGBA (x + i, label_top y + j) (label_bg col) im else im) [0..fst (label_size txt) - 1]) [0..snd (label_size txt) - 1] b"
  have d: "drawLabel glyphs txt x y col b = glyphs txt (x + 2, label_top y + 13) bg"
  proof -
    have "label_top y + 2 + 13 - 2 = label_top y + 13" by simp
    then show ?thesis unfolding drawLabel_def Let_def bg_def split_beta by (simp only:)
  qed
  from paintsD [OF paints_label [where b = b and c = "label_bg col" and h = "snd (label_size txt)" and w = "fst (label_size txt)"
      and x = x and y = "label_top y"] same_bounds_refl, of p]
  have bg: "same_bounds b bg" "\<not> in_label txt x y p \<longrightarrow> pix bg p = pix b p" "\<not> in_img b p \<longrightarrow> pix bg p = pix b p"
    unfolding bg_def [symmetric] by (auto simp: in_label_def)
  from assms have g: "same_bounds bg (drawLabel glyphs txt x y col b)"
    "\<not> (in_img bg p \<and> in_label txt x y p) \<longrightarrow> pix (drawLabel glyphs txt x y col b) p = pix bg p"
    unfolding d glyphs_ok_def by blast+
  show ?thesis using g bg same_bounds_trans [OF bg(1) g(1)] in_img_same [OF bg(1)] by auto
qed

definition det_outline :: "nrgba img \<Rightarrow> detection \<Rightarrow> int \<times> int \<Rightarrow> bool" where
  "det_outline b d p \<longleftrightarrow> on_outline b (pixel_of (X1 d)) (pixel_of (Y1 d)) (pixel_of (X2 d)) (pixel_of (Y2 d)) p"

definition det_in_label :: "detection \<Rightarrow> int \<times> int \<Rightarrow> bool" where
  "det_in_label d p \<longleftrightarrow> in_label (det_label d) (pixel_of (X1 d)) (pixel_of (Y1 d)) p"

definition det_inside :: "detection \<Rightarrow> int \<times> int \<Rightarrow> bool" where
  "det_inside d p \<longleftrightarrow> pixel_of (X1 d) < fst p \<and> fst p < pixel_of (X2 d) \<and> pixel_of (Y1 d) < snd p \<and> snd p < pixel_of (Y2 d)"

lemma on_outline_same: "same_bounds a b \<Longrightarrow> on_outline b x1 y1 x2 y2 p = on_outline a x1 y1 x2 y2 p"
  by (simp add: same_bounds_def on_outline_def)

lemma draw_detection_spec:
  assumes "glyphs_ok glyphs" "same_bounds b im"
  shows "same_bounds b (draw_detection glyphs d im)"
    and "\<not> (in_img b p \<and> (det_outline b d p \<or> det_in_label d p)) \<Longrightarrow> pix (draw_detection glyphs d im) p = pix im p"
    and "in_img b p \<Longrightarrow> det_outline b d p \<Longrightarrow> \<not> det_in_label d p \<Longrightarrow> pix (draw_detection glyphs d im) p = classColor (ClassID d)"
proof -
  let ?r = "drawRect (pixel_of (X1 d)) (pixel_of (Y1 d)) (pixel_of (X2 d)) (pixel_of (Y2 d)) (classColor (ClassID d)) im"
  have r: "same_bounds im ?r" "pix ?r p = (if in_img b p \<and> det_outline b d p then classColor (ClassID d) else pix im p)"
    using drawRect_spec [of im "pixel_of (X1 d)" "pixel_of (Y1 d)" "pixel_of (X2 d)" "pixel_of (Y2 d)" "classColor (ClassID d)" p]
    by (simp_all add: in_img_same [OF assms(2)] on_outline_same [OF assms(2)] det_outline_def)
  have l: "same_bounds ?r (draw_detection glyphs d im)"
    "\<not> (in_img ?r p \<and> det_in_label d p) \<longrightarrow> pix (draw_detection glyphs d im) p = pix ?r p"
    unfolding draw_detection_def Let_def det_in_label_def using drawLabel_spec [OF assms(1)] by blast+
  have br: "same_bounds b ?r" by (rule same_bounds_trans [OF assms(2) r(1)])
  show "same_bounds b (draw_detection glyphs d im)" by (rule same_bounds_trans [OF br l(1)])
  note i = in_img_same [OF br]
  show "\<not> (in_img b p \<and> (det_outline b d p \<or> det_in_label d p)) \<Longrightarrow> pix (draw_detection glyphs d im) p = pix im p"
    using l(2) r(2) i by auto
  show "in_img b p \<Longrightarrow> det_outline b d p \<Longrightarrow> \<not> det_in_label d p \<Longrightarrow> pix (draw_detection glyphs d im) p = classColor (ClassID d)"
    using l(2) r(2) i by auto
qed

lemma Annotate_unchanged:
  assumes "glyphs_ok glyphs" "same_bounds b im" "\<And>d. d \<in> set dets \<Longrightarrow> \<not> (in_img b p \<and> (det_outline b d p \<or> det_in_label d p))"
  shows "same_bounds b (Annotate glyphs im dets) \<and> pix (Annotate glyphs im dets) p = pix im p"
  using assms(2,3)
proof (induction dets arbitrary: im)
  case (Cons d dets)
  have d: "same_bounds b (draw_detection glyphs d im)" "pix (draw_detection glyphs d im) p = pix im p"
    using draw_detection_spec(1) [OF assms(1) Cons.prems(1)] draw_detection_spec(2) [OF assms(1) Cons.prems(1)] Cons.prems(2) [of d]
    by simp_all
  from Cons.IH [OF d(1)] Cons.prems(2) d(2) show ?case by (simp add: Annotate_def)
qed (simp add: Annotate_def)

lemma Annotate_bounds: "glyphs_ok glyphs \<Longrightarrow> same_bounds b im \<Longrightarrow> same_bounds b (Annotate glyphs im dets)"
  by (induction dets arbitrary: im) (simp_all add: Annotate_def draw_detection_spec)

text \<open>C21: Annotating a frame keeps its bounds and never writes outside them; a pixel that changes lies on the
  outline of a detection or in its label, so the inside of the boxes shows the picture as it was; and every pixel of
  the outline of the detection drawn last, cut to the image, has the colour of its class unless its own label covers
  it. This given a font library that draws inside the label.\<close>
theorem annotation_confined:
  assumes "glyphs_ok glyphs"
  shows "same_bounds im (Annotate glyphs im dets) \<and>
    (if pix (Annotate glyphs im dets) p \<noteq> pix im p
     then in_img im p \<and> (\<exists>d \<in> set dets. det_outline im d p \<or> det_in_label d p) else True) \<and>
    (if \<forall>d \<in> set dets. det_inside d p \<and> \<not> det_in_label d p then pix (Annotate glyphs im dets) p = pix im p else True) \<and>
    (if in_img im p \<and> det_outline im d p \<and> \<not> det_in_label d p
     then pix (Annotate glyphs im (dets @ [d])) p = classColor (ClassID d) else True)"
proof -
  have u: "pix (Annotate glyphs im dets) p = pix im p"
    if "\<And>d. d \<in> set dets \<Longrightarrow> \<not> (in_img im p \<and> (det_outline im d p \<or> det_in_label d p))"
    using Annotate_unchanged [OF assms same_bounds_refl that] by blast
  have i: "\<not> det_outline im d p" if "det_inside d p" for d
    using that by (cases p) (simp add: det_inside_def det_outline_def inside_not_outline)
  have b: "same_bounds im (Annotate glyphs im dets)" by (rule Annotate_bounds [OF assms same_bounds_refl])
  from draw_detection_spec(3) [OF assms b, of p d, folded Annotate_def]
  have l: "if in_img im p \<and> det_outline im d p \<and> \<not> det_in_label d p
     then pix (Annotate glyphs im (dets @ [d])) p = classColor (ClassID d) else True"
    by (simp add: Annotate_def)
  from u i b l show ?thesis by (intro conjI) auto
qed

definition no_glyphs :: "string \<Rightarrow> int \<times> int \<Rightarrow> nrgba img \<Rightarrow> nrgba img" where
  "no_glyphs txt p im = im"

theorem annotation_confined_witness:
  "same_bounds (NewRGBA gray 8 8) (Annotate no_glyphs (NewRGBA gray 8 8) [demo_det 0 (1 / 2) 1])"
  using annotation_confined [of no_glyphs "NewRGBA gray 8 8" "[demo_det 0 (1 / 2) 1]"]
  by (simp add: glyphs_ok_def no_glyphs_def)

end
