(* ===== verification/Enhancer.thy ===== *)
theory Enhancer
  imports Frame_Stage Envconf Rotation
begin

section \<open>The enhancer (camera-web-restream-enhancer-api)\<close>

text \<open>
  Per-camera settings, the adaptive correction of dark frames in its floating point, the named filters, the
  counters of frames passed through, and the configuration file. The imaging and filter libraries and the JPEG
  codec are the record \<open>enh_lib\<close>; a filter of the registry is the call that makes it.
\<close>

subsection \<open>Settings\<close>

record enh_config =
  DarkThreshold :: rat
  BrightnessMax :: rat
  ContrastMax :: rat
  enh_JPEGQuality :: int
  Filters :: "string list"

text \<open>The map of overrides is \<open>None\<close> when it is nil.\<close>

record camera_configs =
  cfgDefault :: enh_config
  cfgCameras :: "(string \<rightharpoonup> enh_config) option"

definition DefaultCameraConfigs :: camera_configs where
  "DefaultCameraConfigs =
     \<lparr>cfgDefault = \<lparr>DarkThreshold = fl64 (35 / 100), BrightnessMax = 35, ContrastMax = 35, enh_JPEGQuality = 90,
        Filters = [''gaussian_blur'', ''unsharp_mask'']\<rparr>,
      cfgCameras = Some (\<lambda>_. None)\<rparr>"

datatype gift_filter =
    Resize int int | CropToSize int int | Rotate180 | Rotate rat | Brightness rat | Contrast rat | Saturation rat
  | Gamma rat | GaussianBlur rat | UnsharpMask rat rat rat | Sigmoid rat rat | Pixelate int | Colorize rat rat rat
  | Grayscale | Sepia rat | Invert | Mean int bool | Median int bool | Minimum int bool | Maximum int bool | Hue rat
  | ColorBalance rat rat rat | ColorFunc | Convolution "rat list"

text \<open>The function of the filter \<open>ColorFunc\<close>.\<close>

definition color_func :: "rat \<Rightarrow> rat \<Rightarrow> rat \<Rightarrow> rat \<Rightarrow> rat \<times> rat \<times> rat \<times> rat" where
  "color_func r0 g0 b0 a0 = (fl32 (1 - r0), fl32 (g0 + fl32 (1 / 10)), 0, a0)"

definition filterRegistry :: "(string \<times> gift_filter) list" where
  "filterRegistry =
    [(''resize'', Resize 100 0),
     (''crop_to_size'', CropToSize 100 100),
     (''rotate_180'', Rotate180),
     (''rotate_30'', Rotate 30),
     (''brightness_increase'', Brightness 30),
     (''brightness_decrease'', Brightness (- 30)),
     (''contrast_increase'', Contrast 30),
     (''contrast_decrease'', Contrast (- 30)),
     (''saturation_increase'', Saturation 50),
     (''saturation_decrease'', Saturation (- 50)),
     (''gamma_1.5'', Gamma (3 / 2)),
     (''gamma_0.5'', Gamma (1 / 2)),
     (''gaussian_blur'', GaussianBlur 1),
     (''unsharp_mask'', UnsharpMask 1 1 0),
     (''sigmoid'', Sigmoid (1 / 2) 7),
     (''pixelate'', Pixelate 5),
     (''colorize'', Colorize 240 50 100),
     (''grayscale'', Grayscale),
     (''sepia'', Sepia 100),
     (''invert'', Invert),
     (''mean'', Mean 5 True),
     (''median'', Median 5 True),
     (''minimum'', Minimum 5 True),
     (''maximum'', Maximum 5 True),
     (''hue_rotate'', Hue 45),
     (''color_balance'', ColorBalance 10 (- 10) (- 10)),
     (''color_func'', ColorFunc),
     (''convolution_emboss'', Convolution [- 1, - 1, 0, - 1, 1, 1, 0, 1, 1])]"

definition configFor :: "camera_configs \<Rightarrow> string \<Rightarrow> enh_config" where
  "configFor cfgs cid =
     (case cfgCameras cfgs of
        None \<Rightarrow> cfgDefault cfgs
      | Some m \<Rightarrow> (case m cid of Some c \<Rightarrow> c | None \<Rightarrow> cfgDefault cfgs))"

subsection \<open>The pipeline\<close>

record 'i enh_lib =
  enhDecode :: "bytes \<Rightarrow> 'i option"
  enhEncode :: "int \<Rightarrow> 'i \<Rightarrow> bytes option"
  enhThumb :: "'i \<Rightarrow> bytes"
  enhBrightness :: "rat \<Rightarrow> 'i \<Rightarrow> 'i"
  enhContrast :: "rat \<Rightarrow> 'i \<Rightarrow> 'i"
  enhGift :: "gift_filter list \<Rightarrow> 'i \<Rightarrow> 'i"

text \<open>The sum over the pixels, four bytes each; a rest of fewer than three bytes panics, and does not occur.\<close>

fun lum_sum :: "bytes \<Rightarrow> u64 \<Rightarrow> u64" where
  "lum_sum (r # g # b # a # px) s = lum_sum px (s + (299 * ucast r + 587 * ucast g + 114 * ucast b))"
| "lum_sum _ s = s"

definition avgLuminance32 :: "'i enh_lib \<Rightarrow> 'i \<Rightarrow> rat" where
  "avgLuminance32 L im =
     (let px = enhThumb L im; n = length px div 4
      in if n = 0 then 0
         else fl64 (fl64 (fl64 (fl64 (of_int (uint (lum_sum px 0))) / fl64 (of_int (int n))) / 1000) / 255))"

definition enh_factor :: "rat \<Rightarrow> rat \<Rightarrow> rat" where
  "enh_factor t lum = fl64 (fl64 (t - lum) / t)"

definition applyDarkCorrection :: "'i enh_lib \<Rightarrow> 'i \<Rightarrow> enh_config \<Rightarrow> 'i" where
  "applyDarkCorrection L im cfg =
     (if DarkThreshold cfg > 0 then
        let lum = avgLuminance32 L im
        in if lum < DarkThreshold cfg then
             let factor = enh_factor (DarkThreshold cfg) lum;
                 im1 = (if BrightnessMax cfg > 0 then enhBrightness L (fl64 (factor * BrightnessMax cfg)) im else im)
             in if ContrastMax cfg > 0 then enhContrast L (fl64 (factor * ContrastMax cfg)) im1 else im1
           else im
      else im)"

definition applyFilters :: "'i enh_lib \<Rightarrow> 'i \<Rightarrow> string list \<Rightarrow> 'i" where
  "applyFilters L im keys =
     (let fs = List.map_filter (map_of filterRegistry) keys in if fs \<noteq> [] then enhGift L fs im else im)"

record enh_stats =
  Processed :: u64
  DecodeFailed :: u64
  EncodeFailed :: u64

definition enh_process :: "'i enh_lib \<Rightarrow> bytes \<Rightarrow> enh_config \<Rightarrow> enh_stats \<Rightarrow> bytes \<times> enh_stats" where
  "enh_process L jpeg cfg st =
     (case enhDecode L jpeg of
        None \<Rightarrow> (jpeg, st\<lparr>DecodeFailed := DecodeFailed st + 1\<rparr>)
      | Some im \<Rightarrow>
          (case enhEncode L (enh_JPEGQuality cfg) (applyFilters L (applyDarkCorrection L im cfg) (Filters cfg)) of
             None \<Rightarrow> (jpeg, st\<lparr>EncodeFailed := EncodeFailed st + 1\<rparr>)
           | Some out \<Rightarrow> (out, st)))"

definition ProcessCamera :: "'i enh_lib \<Rightarrow> camera_configs \<Rightarrow> string \<Rightarrow> bytes \<Rightarrow> enh_stats \<Rightarrow> bytes \<times> enh_stats" where
  "ProcessCamera L cfgs cid jpeg st =
     enh_process L jpeg (configFor cfgs cid) (st\<lparr>Processed := Processed st + 1\<rparr>)"

definition enh_transform :: "'i enh_lib \<Rightarrow> camera_configs \<Rightarrow> sframe \<Rightarrow> enh_stats \<Rightarrow> bytes \<times> enh_stats" where
  "enh_transform L cfgs f st = ProcessCamera L cfgs (CameraID_String (fCameraID f)) (fPayload f) st"

definition stats_zero :: enh_stats where
  "stats_zero = \<lparr>Processed = 0, DecodeFailed = 0, EncodeFailed = 0\<rparr>"

subsection \<open>The report\<close>

datatype enh_line = EnhancedLine u64 | PassedThroughLine u64 u64 u64

definition stats_turn :: "enh_stats \<Rightarrow> enh_stats \<Rightarrow> enh_line option" where
  "stats_turn prev cur =
     (let frames = Processed cur - Processed prev; dec = DecodeFailed cur - DecodeFailed prev;
          enc = EncodeFailed cur - EncodeFailed prev
      in if frames = 0 then None
         else if dec = 0 \<and> enc = 0 then Some (EnhancedLine frames)
         else Some (PassedThroughLine frames dec enc))"

fun stats_loop :: "enh_stats \<Rightarrow> enh_stats list \<Rightarrow> enh_line list" where
  "stats_loop prev [] = []"
| "stats_loop prev (cur # cs) = (case stats_turn prev cur of None \<Rightarrow> [] | Some l \<Rightarrow> [l]) @ stats_loop cur cs"

definition reportStats :: "int \<Rightarrow> enh_stats list \<Rightarrow> enh_line list" where
  "reportStats interval snaps = (if interval \<le> 0 then [] else stats_loop stats_zero snaps)"

subsection \<open>The configuration file\<close>

text \<open>The JSON parser fills in the settings it is given.\<close>

definition enh_Load :: "(bytes \<Rightarrow> camera_configs \<Rightarrow> camera_configs option) \<Rightarrow> file_read \<Rightarrow> camera_configs \<times> config_error option" where
  "enh_Load parse file =
     (case file of
        FileMissing \<Rightarrow> (DefaultCameraConfigs, Some (ConfigRead 0))
      | FileFailed e \<Rightarrow> (DefaultCameraConfigs, Some (ConfigRead e))
      | FileData d \<Rightarrow>
          (case parse d DefaultCameraConfigs of
             None \<Rightarrow> (DefaultCameraConfigs, Some ConfigParse)
           | Some cfgs \<Rightarrow>
               (if cfgCameras cfgs = None then cfgs\<lparr>cfgCameras := Some (\<lambda>_. None)\<rparr> else cfgs, None)))"

record service_config =
  svcHTTPAddr :: string
  svcUpstreamAddr :: string
  svcTCPAddr :: string
  svcTCPEnabled :: bool

definition enh_service :: "env \<Rightarrow> service_config" where
  "enh_service e =
     \<lparr>svcHTTPAddr = env_String e ''HTTP_ADDR'' '':8091'', svcUpstreamAddr = env_String e ''UPSTREAM_TCP_ADDR'' ''localhost:9001'',
      svcTCPAddr = env_String e ''TCP_ADDR'' '':9003'', svcTCPEnabled = (env_String e ''TCP_ENABLED'' ''true'' \<noteq> ''false'')\<rparr>"

subsection \<open>Luminance and correction\<close>

lemma uint_plus_le: "uint (a + b :: u64) \<le> uint a + uint b"
  by (simp add: uint_word_ariths zmod_le_nonneg_dividend)

lemma uint_times_le: "uint (a * b :: u64) \<le> uint a * uint b"
  by (simp add: uint_word_ariths zmod_le_nonneg_dividend)

lemma uint_byte: "uint (ucast (b :: byte) :: u64) \<le> 255"
proof -
  have "uint b < 2 ^ 8" using uint_lt2p [of b] by simp
  moreover have "uint (ucast b :: u64) = uint b" by (simp add: uint_up_ucast is_up)
  ultimately show ?thesis by simp
qed

lemma lum_pixel: "uint (299 * ucast (r :: byte) + 587 * ucast (g :: byte) + 114 * ucast (b :: byte) :: u64) \<le> 255000"
proof -
  have k: "uint (k * ucast (c :: byte) :: u64) \<le> uint k * 255" for k c
    by (rule order_trans [OF uint_times_le]) (simp add: uint_byte mult_left_mono)
  have "uint (299 * ucast r + 587 * ucast g + 114 * ucast b :: u64)
      \<le> uint (299 * ucast r :: u64) + uint (587 * ucast g :: u64) + uint (114 * ucast b :: u64)"
    using uint_plus_le [of "299 * ucast r + 587 * ucast g" "114 * ucast b"] uint_plus_le [of "299 * ucast r" "587 * ucast g"]
    by linarith
  with k [of 299 r] k [of 587 g] k [of 114 b] show ?thesis by simp
qed

lemma lum_sum_le: "uint (lum_sum px s) \<le> uint s + 255000 * int (length px div 4)"
proof (induction px s rule: lum_sum.induct)
  case (1 r g b a px s)
  from 1 uint_plus_le [of s "299 * ucast r + 587 * ucast g + 114 * ucast b"] lum_pixel [of r g b] show ?case by simp
qed simp_all

text \<open>A thumbnail of at most 2^34 pixels; one 32 wide has far fewer.\<close>

lemma luminance_range:
  assumes "length (enhThumb L im) < 2 ^ 36"
  shows "0 \<le> avgLuminance32 L im \<and> avgLuminance32 L im \<le> 1"
proof (cases "length (enhThumb L im) div 4 = 0")
  case True
  then show ?thesis by (simp add: avgLuminance32_def)
next
  case False
  define n where "n = int (length (enhThumb L im) div 4)"
  define m where "m = uint (lum_sum (enhThumb L im) 0)"
  have n: "0 < n" "n < 2 ^ 34" using False assms by (simp_all add: n_def)
  have m: "0 \<le> m" "m \<le> 255000 * n" using lum_sum_le [of "enhThumb L im" 0] by (simp_all add: m_def n_def)
  have ex: "fl64 (of_int m) = of_int m" "fl64 (of_int n) = of_int n" using m n by (simp_all add: fl64_int)
  have e3: "fl64 255000 = 255000" "fl64 255 = 255" "fl64 1 = 1"
    using fl64_int [of 255000] fl64_int [of 255] fl64_int [of 1] by simp_all
  have "of_int m \<le> (of_int (255000 * n) :: rat)" using m(2) by (simp only: of_int_le_iff)
  then have q: "0 \<le> (of_int m / of_int n :: rat)" "(of_int m / of_int n :: rat) \<le> 255000"
    using n(1) m(1) by (simp_all add: pos_divide_le_eq)
  define a where "a = fl64 (of_int m / of_int n)"
  have a: "0 \<le> a" "a \<le> 255000" using fl64_nonneg [OF q(1)] fl64_mono [OF q(2)] e3 by (simp_all add: a_def)
  define b where "b = fl64 (a / 1000)"
  have b: "0 \<le> b" "b \<le> 255" using fl64_nonneg [of "a / 1000"] fl64_mono [of "a / 1000" 255] a e3 by (simp_all add: b_def)
  have "0 \<le> fl64 (b / 255)" "fl64 (b / 255) \<le> 1" using fl64_nonneg [of "b / 255"] fl64_mono [of "b / 255" 1] b e3 by simp_all
  with False show ?thesis unfolding avgLuminance32_def Let_def
    by (simp add: ex a_def b_def flip: n_def m_def)
qed

lemma enh_factor_range:
  assumes "0 < t" "fl64 t = t" "0 \<le> lum" "lum \<le> t"
  shows "0 \<le> enh_factor t lum \<and> enh_factor t lum \<le> 1"
proof -
  have "0 \<le> fl64 (t - lum)" using assms by (simp add: fl64_nonneg)
  moreover have "fl64 (t - lum) \<le> t" using fl64_mono [of "t - lum" t] assms by simp
  ultimately have "0 \<le> fl64 (t - lum) / t" "fl64 (t - lum) / t \<le> 1" using assms(1) by simp_all
  then show ?thesis using fl64_mono [of _ 1] fl64_int [of 1] by (simp add: enh_factor_def fl64_nonneg)
qed

lemma enh_factor_antimono:
  assumes "0 < t" "lum \<le> lum'"
  shows "enh_factor t lum' \<le> enh_factor t lum"
  unfolding enh_factor_def using assms by (intro fl64_mono divide_right_mono) simp_all

lemma enh_amount_range:
  assumes "0 \<le> q" "q \<le> 1" "0 < mx" "fl64 mx = mx"
  shows "0 \<le> fl64 (q * mx) \<and> fl64 (q * mx) \<le> mx"
proof -
  have "q * mx \<le> 1 * mx" using assms by (intro mult_right_mono) simp_all
  then have "fl64 (q * mx) \<le> mx" using fl64_mono [of "q * mx" mx] assms(4) by simp
  then show ?thesis using assms by (simp add: fl64_nonneg)
qed


definition demo_enh_lib :: "(nat \<times> rat \<times> rat \<times> gift_filter list) enh_lib" where
  "demo_enh_lib = \<lparr>enhDecode = (\<lambda>b. if b = [] then None else Some (length b, 0, 0, [])),
     enhEncode = (\<lambda>q im. if fst im < 5 then Some [of_nat (fst im), 1] else None),
     enhThumb = (\<lambda>im. [0, 0, 0, 255]), enhBrightness = (\<lambda>b (n, _, c, fs). (n, b, c, fs)),
     enhContrast = (\<lambda>c (n, b, _, fs). (n, b, c, fs)), enhGift = (\<lambda>fs (n, b, c, _). (n, b, c, fs))\<rparr>"

definition demo_enh_config :: enh_config where
  "demo_enh_config = \<lparr>DarkThreshold = 1 / 4, BrightnessMax = 35, ContrastMax = 0, enh_JPEGQuality = 90, Filters = []\<rparr>"

lemma demo_enh_exact: "fl64 (1 / 4) = 1 / 4" "fl64 35 = 35" "fl64 0 = 0"
proof -
  show "fl64 35 = 35" "fl64 0 = 0" using fl64_int [of 35] fl64_int [of 0] by simp_all
  show "fl64 (1 / 4) = 1 / 4" by code_simp
qed


subsection \<open>The stage\<close>

text \<open>What a frame becomes when both codecs succeed: the filters the registry knows, in the configured order, after
  the correction, with the settings of the camera or the default ones.\<close>

definition enh_result :: "'i enh_lib \<Rightarrow> camera_configs \<Rightarrow> sframe \<Rightarrow> bytes option" where
  "enh_result L cfgs f =
     (let cfg = configFor cfgs (CameraID_String (fCameraID f))
      in Option.bind (enhDecode L (fPayload f))
           (\<lambda>im. enhEncode L (enh_JPEGQuality cfg) (applyFilters L (applyDarkCorrection L im cfg) (Filters cfg))))"

definition enhanced :: "'i enh_lib \<Rightarrow> camera_configs \<Rightarrow> sframe \<Rightarrow> sframe" where
  "enhanced L cfgs f = f\<lparr>fPayload := (case enh_result L cfgs f of None \<Rightarrow> fPayload f | Some out \<Rightarrow> out)\<rparr>"

definition undecodable :: "'i enh_lib \<Rightarrow> sframe \<Rightarrow> bool" where
  "undecodable L f \<longleftrightarrow> enhDecode L (fPayload f) = None"

definition unencodable :: "'i enh_lib \<Rightarrow> camera_configs \<Rightarrow> sframe \<Rightarrow> bool" where
  "unencodable L cfgs f \<longleftrightarrow> \<not> undecodable L f \<and> enh_result L cfgs f = None"

lemma enh_transform_eq:
  "enh_transform L cfgs f st =
     (fPayload (enhanced L cfgs f),
      \<lparr>Processed = Processed st + 1, DecodeFailed = DecodeFailed st + (if undecodable L f then 1 else 0),
       EncodeFailed = EncodeFailed st + (if unencodable L cfgs f then 1 else 0)\<rparr>)"
  by (cases st) (auto simp: enh_transform_def ProcessCamera_def enh_process_def enhanced_def enh_result_def Let_def
      undecodable_def unencodable_def split: option.split)

interpretation enhancer: frame_stage "enh_transform L cfgs" "\<lambda>b. enhDecode L b \<noteq> None" for L cfgs
  by unfold_locales (simp add: enh_transform_eq enhanced_def enh_result_def Let_def)

lemma enh_outputs: "stage_outputs (enh_transform L cfgs) fs st = map (enhanced L cfgs) fs"
  by (induction fs arbitrary: st) (simp_all add: enh_transform_eq enhanced_def)

lemma enh_state:
  "stage_state (enh_transform L cfgs) fs st =
     \<lparr>Processed = Processed st + of_nat (length fs),
      DecodeFailed = DecodeFailed st + of_nat (length (filter (undecodable L) fs)),
      EncodeFailed = EncodeFailed st + of_nat (length (filter (unencodable L cfgs) fs))\<rparr>"
  by (induction fs arbitrary: st) (simp_all add: enh_transform_eq)

text \<open>C34: The enhancer as a hop: from an upstream that is cut off anywhere it publishes, for each frame it received
  whole and in order, one frame under the same camera, timestamp and sequence number, enhanced with the settings of
  that camera or forwarded as it came if it cannot be decoded or encoded; a client that does not read gets the last
  two. Its counters say exactly how many frames came and how many were forwarded for either reason.\<close>
theorem enhanced_hop:
  assumes "list_all frame_ok fs" "proxy_ok p" "i \<in> set (subs (pbroadcaster p))"
    and "length (queue_of i p) \<le> bc_cap" "k < length (stream_of frame_bytes fs)"
  shows "\<exists>n e p' st. n < length fs \<and>
    upstream_loop (Some (stage_onFrame (enh_transform L cfgs))) \<lparr>rbuf = take k (stream_of frame_bytes fs), rend = t\<rparr>
      (0, Some (p, stats_zero)) = ((n, Some (p', st)), e) \<and>
    queue_of i p' = lastn bc_cap (queue_of i p @ map (enhanced L cfgs) (take n fs)) \<and> proxy_ok p' \<and>
    k < length (stream_of frame_bytes (take (Suc n) fs)) \<and>
    Processed st = of_nat n \<and> DecodeFailed st = of_nat (length (filter (undecodable L) (take n fs))) \<and>
    EncodeFailed st = of_nat (length (filter (unencodable L cfgs) (take n fs)))"
  using enhancer.reads_prefix [OF assms, of L cfgs t stats_zero]
  by (auto simp: enh_outputs enh_state stats_zero_def take_map)

theorem enhanced_hop_witness:
  "\<exists>n e p' st. n < length [sample_frame, sample_frame] \<and>
    upstream_loop (Some (stage_onFrame (enh_transform demo_enh_lib DefaultCameraConfigs)))
      \<lparr>rbuf = take 40 (stream_of frame_bytes [sample_frame, sample_frame]), rend = EOF\<rparr> (0, Some (sample_proxy, stats_zero)) =
      ((n, Some (p', st)), e) \<and> Processed st = of_nat n"
proof -
  have ok: "list_all frame_ok [sample_frame, sample_frame]" using frame_ok_sample by simp
  have l: "length (queue_of 0 sample_proxy) \<le> bc_cap" using sample_proxy_ok(3) by simp
  have k: "40 < length (stream_of frame_bytes [sample_frame, sample_frame])"
    by (simp add: frame_bytes_def headerSize_def sample_frame_def)
  from enhanced_hop [OF ok sample_proxy_ok(1,2) l k] show ?thesis by blast
qed

subsection \<open>Settings and report\<close>

text \<open>Unknown filters cost themselves and nothing else, and no known filter at all leaves the image alone.\<close>

lemma unknown_filters_skipped:
  "applyFilters L im keys = applyFilters L im (filter (\<lambda>k. map_of filterRegistry k \<noteq> None) keys)"
  "filter (\<lambda>k. map_of filterRegistry k \<noteq> None) keys = [] \<Longrightarrow> applyFilters L im keys = im"
proof -
  have "List.map_filter (map_of filterRegistry) keys =
      List.map_filter (map_of filterRegistry) (filter (\<lambda>k. map_of filterRegistry k \<noteq> None) keys)"
    by (induction keys) (auto simp: List.map_filter_simps split: option.split)
  then show a: "applyFilters L im keys = applyFilters L im (filter (\<lambda>k. map_of filterRegistry k \<noteq> None) keys)"
    by (simp add: applyFilters_def)
  assume "filter (\<lambda>k. map_of filterRegistry k \<noteq> None) keys = []"
  then show "applyFilters L im keys = im" unfolding a by (simp add: applyFilters_def List.map_filter_simps)
qed

text \<open>Whatever the file holds, the service starts with a configuration whose map of overrides can be read, and says
  what was wrong.\<close>

lemma enh_Load_usable:
  "cfgCameras (fst (enh_Load parse file)) \<noteq> None"
  "snd (enh_Load parse file) \<noteq> None \<Longrightarrow> fst (enh_Load parse file) = DefaultCameraConfigs"
  by (auto simp: enh_Load_def DefaultCameraConfigs_def split: file_read.split option.split)

text \<open>The report forgets nothing: the logged counts add up to the counter.\<close>

definition line_frames :: "enh_line \<Rightarrow> u64" where
  "line_frames l = (case l of EnhancedLine n \<Rightarrow> n | PassedThroughLine n d e \<Rightarrow> n)"

lemma stats_loop_sum:
  "sum_list (map line_frames (stats_loop prev snaps)) = Processed (last (prev # snaps)) - Processed prev"
  by (induction prev snaps rule: stats_loop.induct) (auto simp: stats_turn_def Let_def line_frames_def)

end
