(* ===== verification/Detector.thy ===== *)
theory Detector
  imports Detect_Draw Frame_Stage Enhancer
begin

section \<open>The detector (camera-web-restream-detector-api)\<close>

text \<open>
  Configuration, the probing of the model and the life of its resources, inference on every fifteenth frame and
  annotation of every frame, and the service. ONNX Runtime, the image codec, the resampling and the font library
  are arguments (\<open>ort\<close> for what the runtime answers at start-up, \<open>det_env\<close> for what a frame needs);
  whether the inference lock is free, and the time, are given per frame. Debug output is left out.
\<close>

subsection \<open>Configuration\<close>

record det_config =
  ModelPath :: string
  OrtLibPath :: string
  InputName :: string
  OutputName :: string
  ConfThreshold :: rat
  NMSThreshold :: rat
  InputWidth :: int
  InputHeight :: int
  NumClasses :: int
  det_JPEGQuality :: int
  AllowedClasses :: "string list"
  Debug :: bool

definition det_DefaultConfig :: det_config where
  "det_DefaultConfig =
     \<lparr>ModelPath = ''models/yolov8n.onnx'', OrtLibPath = ''libonnxruntime.so'', InputName = ''images'', OutputName = ''output0'',
      ConfThreshold = fl32 (25 / 100), NMSThreshold = fl32 (45 / 100), InputWidth = 640, InputHeight = 640, NumClasses = 80,
      det_JPEGQuality = 85, AllowedClasses = [], Debug = False\<rparr>"

definition det_applyEnv :: "env \<Rightarrow> det_config \<Rightarrow> det_config" where
  "det_applyEnv e cfg = cfg\<lparr>OrtLibPath := env_String e ''ORT_LIB_PATH'' (OrtLibPath cfg)\<rparr>"

definition det_Load :: "env \<Rightarrow> (bytes \<Rightarrow> det_config \<Rightarrow> det_config option) \<Rightarrow> file_read \<Rightarrow> det_config \<times> config_error option" where
  "det_Load e parse file =
     (case file of
        FileMissing \<Rightarrow> (det_applyEnv e det_DefaultConfig, Some (ConfigRead 0))
      | FileFailed n \<Rightarrow> (det_applyEnv e det_DefaultConfig, Some (ConfigRead n))
      | FileData d \<Rightarrow>
          (case parse d det_DefaultConfig of
             None \<Rightarrow> (det_applyEnv e det_DefaultConfig, Some ConfigParse)
           | Some cfg \<Rightarrow> (det_applyEnv e cfg, None)))"

text \<open>The names are mapped to the IDs the model uses; the second component is what is reported as unknown.\<close>

definition allowedClassIDs :: "string list \<Rightarrow> nat list option \<times> string list" where
  "allowedClassIDs names =
     (let nameToID = map_of (rev (zip CocoClasses [0..<length CocoClasses]))
      in if names = [] then (None, [])
         else (Some (List.map_filter nameToID names), filter (\<lambda>n. nameToID n = None) names))"

subsection \<open>Loading the model\<close>

datatype det_error =
    OrtInit nat | ModelInfo nat | NoInputs | NoOutputs | NotThreeD "int list" | ShapeMismatch "int list"
  | InputTensor nat | OutputTensor nat | SessionFailed nat | DecodeFailedErr | InferenceFailed nat | EncodeFailedErr

record model_probe =
  mpInputName :: string
  mpOutputName :: string
  mpLayout :: output_layout
  mpShape :: "int list"

text \<open>The names and output shape of the first tensors; a name of the configuration replaces the probed one unless it
  is the default. The shape of the output tensor is kept as the model declares it, a dynamic axis being negative.\<close>

definition probeModel :: "(nat + string list \<times> (string \<times> int list) list) \<Rightarrow> det_config \<Rightarrow> det_error + model_probe" where
  "probeModel info cfg =
     (case info of
        Inl e \<Rightarrow> Inl (ModelInfo e)
      | Inr ([], _) \<Rightarrow> Inl NoInputs
      | Inr (_, []) \<Rightarrow> Inl NoOutputs
      | Inr (i # _, (on, dims) # _) \<Rightarrow>
          let inputName = (if InputName cfg \<noteq> '''' \<and> InputName cfg \<noteq> ''images'' then InputName cfg else i);
              outputName = (if OutputName cfg \<noteq> '''' \<and> OutputName cfg \<noteq> ''output0'' then OutputName cfg else on)
          in if length dims \<noteq> 3 then Inl (NotThreeD dims)
             else
               let a = dims ! 1; b = dims ! 2; numChannels = 4 + NumClasses cfg
               in if a = numChannels then
                    Inr \<lparr>mpInputName = inputName, mpOutputName = outputName,
                      mpLayout = \<lparr>NumBoxes = nat b, NumChannels = nat a, Transposed = False\<rparr>, mpShape = [1, a, b]\<rparr>
                  else if b = numChannels then
                    Inr \<lparr>mpInputName = inputName, mpOutputName = outputName,
                      mpLayout = \<lparr>NumBoxes = nat a, NumChannels = nat b, Transposed = True\<rparr>, mpShape = [1, a, b]\<rparr>
                  else Inl (ShapeMismatch dims))"

definition layout_String :: "output_layout \<Rightarrow> string" where
  "layout_String l =
     (if Transposed l then ''transposed [1,'' @ itoa (int (NumBoxes l)) @ '','' @ itoa (int (NumChannels l)) @ '']''
      else ''channel-first [1,'' @ itoa (int (NumChannels l)) @ '','' @ itoa (int (NumBoxes l)) @ '']'')"

text \<open>The runtime is initialised once per process, and the outcome remembered.\<close>

record ort_state =
  ortDone :: bool
  ortInitErr :: "nat option"

definition initORT :: "(string \<Rightarrow> nat option) \<Rightarrow> det_config \<Rightarrow> ort_state \<Rightarrow> nat option \<times> ort_state" where
  "initORT initialize cfg s =
     (if ortDone s then (ortInitErr s, s)
      else let e = initialize (OrtLibPath cfg) in (e, \<lparr>ortDone = True, ortInitErr = e\<rparr>))"

text \<open>What the runtime answers, and the resources that it allocates outside the garbage collector.\<close>

datatype ort_handle = HInput | HOutput | HSession

record ort =
  ortInitialize :: "string \<Rightarrow> nat option"
  ortInfo :: "string \<Rightarrow> nat + string list \<times> (string \<times> int list) list"
  ortTensor :: "int list \<Rightarrow> nat option"
  ortSession :: "string \<Rightarrow> string \<Rightarrow> string \<Rightarrow> nat option"

text \<open>The third component is what is still allocated.\<close>

definition newTensors :: "ort \<Rightarrow> det_config \<Rightarrow> int list \<Rightarrow> (det_error + unit) \<times> ort_handle list" where
  "newTensors R cfg shape =
     (case ortTensor R [1, 3, InputHeight cfg, InputWidth cfg] of
        Some e \<Rightarrow> (Inl (InputTensor e), [])
      | None \<Rightarrow>
          (case ortTensor R shape of
             Some e \<Rightarrow> (Inl (OutputTensor e), removeAll HInput [HInput])
           | None \<Rightarrow> (Inr (), [HInput, HOutput])))"

definition det_New :: "ort \<Rightarrow> det_config \<Rightarrow> ort_state \<Rightarrow> (det_error + model_probe \<times> nat list option) \<times> ort_handle list \<times> ort_state" where
  "det_New R cfg s =
     (case initORT (ortInitialize R) cfg s of
        (Some e, s') \<Rightarrow> (Inl (OrtInit e), [], s')
      | (None, s') \<Rightarrow>
          (case probeModel (ortInfo R (ModelPath cfg)) cfg of
             Inl e \<Rightarrow> (Inl e, [], s')
           | Inr pr \<Rightarrow>
               (case newTensors R cfg (mpShape pr) of
                  (Inl e, hs) \<Rightarrow> (Inl e, hs, s')
                | (Inr _, hs) \<Rightarrow>
                    (case ortSession R (ModelPath cfg) (mpInputName pr) (mpOutputName pr) of
                       Some e \<Rightarrow> (Inl (SessionFailed e), removeAll HOutput (removeAll HInput hs), s')
                     | None \<Rightarrow> (Inr (pr, fst (allowedClassIDs (AllowedClasses cfg))), HSession # hs, s')))))"

definition det_Destroy :: "ort_handle list \<Rightarrow> ort_handle list" where
  "det_Destroy hs = removeAll HOutput (removeAll HInput (removeAll HSession hs))"

subsection \<open>Frames\<close>

record det_env =
  deConfig :: det_config
  deLayout :: output_layout
  deAllowed :: "nat list option"
  deDecode :: "bytes \<Rightarrow> nrgba img option"
  deEncode :: "int \<Rightarrow> nrgba img \<Rightarrow> bytes option"
  deResize :: "int \<Rightarrow> int \<Rightarrow> nrgba img \<Rightarrow> nrgba img"
  deOver :: "nrgba \<Rightarrow> nrgba \<Rightarrow> nrgba"
  deRun :: "rat list \<Rightarrow> nat + rat list"
  deClasses :: "detection list \<Rightarrow> nat list"
  deSort :: "detection list \<Rightarrow> detection list"
  deGlyphs :: "string \<Rightarrow> int \<times> int \<Rightarrow> nrgba img \<Rightarrow> nrgba img"
  deLockFree :: "nat \<Rightarrow> bool"
  deNow :: "nat \<Rightarrow> int"

definition inferenceOnly :: "det_env \<Rightarrow> bytes \<Rightarrow> det_error + detection list" where
  "inferenceOnly E jpeg =
     (case deDecode E jpeg of
        None \<Rightarrow> Inl DecodeFailedErr
      | Some src \<Rightarrow>
          let cfg = deConfig E; lb = letterbox (deResize E) (deOver E) src (InputWidth cfg) (InputHeight cfg)
          in case deRun E (toTensor (lbImg lb) (replicate (nat (3 * InputHeight cfg * InputWidth cfg)) 0)) of
               Inl e \<Rightarrow> Inl (InferenceFailed e)
             | Inr raw \<Rightarrow>
                 let dets = parseOutput (deClasses E) (deSort E) raw
                       \<lparr>ppLayout = deLayout E, ppConfThreshold = ConfThreshold cfg, ppNMSThreshold = NMSThreshold cfg,
                        ppLetterbox = lb, ppOrigW = dx src, ppOrigH = dy src\<rparr>
                 in Inr (case deAllowed E of None \<Rightarrow> dets | Some ids \<Rightarrow> filter (\<lambda>d. ClassID d \<in> set ids) dets))"

definition annotateJPEG :: "det_env \<Rightarrow> bytes \<Rightarrow> detection list \<Rightarrow> det_error + bytes" where
  "annotateJPEG E jpeg dets =
     (case deDecode E jpeg of
        None \<Rightarrow> Inl DecodeFailedErr
      | Some src \<Rightarrow>
          (case deEncode E (det_JPEGQuality (deConfig E)) (Annotate (deGlyphs E) src dets) of
             None \<Rightarrow> Inl EncodeFailedErr
           | Some out \<Rightarrow> Inr out))"

definition infer :: "det_env \<Rightarrow> bytes \<Rightarrow> det_error + detection list \<times> (det_error + bytes)" where
  "infer E jpeg = (case inferenceOnly E jpeg of Inl e \<Rightarrow> Inl e | Inr dets \<Rightarrow> Inr (dets, annotateJPEG E jpeg dets))"

definition detectEveryN :: nat where "detectEveryN = 15"

record detector =
  dFrameCount :: nat
  dFrameIn :: nat
  dFrameDet :: nat
  dLastDets :: "detection list"
  dLastLog :: int
  dLog :: "(nat \<times> nat) list"

definition detector_init :: "int \<Rightarrow> detector" where
  "detector_init now = \<lparr>dFrameCount = 0, dFrameIn = 0, dFrameDet = 0, dLastDets = [], dLastLog = now, dLog = []\<rparr>"

definition logStats :: "int \<Rightarrow> detector \<Rightarrow> detector" where
  "logStats now s =
     (if now - dLastLog s < 10 * second then s
      else s\<lparr>dLastLog := now, dLog := dLog s @ [(dFrameIn s, dFrameDet s)]\<rparr>)"

definition refresh :: "det_env \<Rightarrow> nat \<Rightarrow> bytes \<Rightarrow> detector \<Rightarrow> detector" where
  "refresh E n jpeg s =
     (if n mod detectEveryN = 0 \<and> deLockFree E n then
        case inferenceOnly E jpeg of
          Inl _ \<Rightarrow> s
        | Inr dets \<Rightarrow> s\<lparr>dFrameDet := (if dets \<noteq> [] then dFrameDet s + 1 else dFrameDet s), dLastDets := dets\<rparr>
      else s)"

definition det_Process :: "det_env \<Rightarrow> bytes \<Rightarrow> detector \<Rightarrow> bytes \<times> detector" where
  "det_Process E jpeg s =
     (let n = dFrameCount s + 1;
          s1 = refresh E n jpeg (s\<lparr>dFrameCount := n, dFrameIn := dFrameIn s + 1\<rparr>)
      in (case annotateJPEG E jpeg (dLastDets s1) of Inl _ \<Rightarrow> jpeg | Inr out \<Rightarrow> out, logStats (deNow E n) s1))"

subsection \<open>The service\<close>

definition normalizeListenAddr :: "string \<Rightarrow> string" where
  "normalizeListenAddr v = (if CHR '':'' \<in> set v then v else CHR '':'' # v)"

definition det_service :: "env \<Rightarrow> service_config" where
  "det_service e =
     \<lparr>svcHTTPAddr = normalizeListenAddr (env_String e ''HTTP_ADDR'' '':8093''),
      svcUpstreamAddr = env_String e ''UPSTREAM_TCP_ADDR'' ''localhost:9001'',
      svcTCPAddr = normalizeListenAddr (env_String e ''TCP_ADDR'' '':9005''),
      svcTCPEnabled = (env_String e ''TCP_ENABLED'' ''true'' \<noteq> ''false'')\<rparr>"

text \<open>A detector that could not be made is replaced by one that publishes frames unchanged.\<close>

datatype processor = Detecting det_env | PassingThrough

definition choose_processor :: "(model_probe \<times> nat list option \<Rightarrow> det_env) \<Rightarrow> det_error + model_probe \<times> nat list option \<Rightarrow> processor" where
  "choose_processor mk r = (case r of Inl _ \<Rightarrow> PassingThrough | Inr x \<Rightarrow> Detecting (mk x))"

definition proc_Process :: "processor \<Rightarrow> bytes \<Rightarrow> detector \<Rightarrow> bytes \<times> detector" where
  "proc_Process pr jpeg s = (case pr of Detecting E \<Rightarrow> det_Process E jpeg s | PassingThrough \<Rightarrow> (jpeg, s))"

definition det_transform :: "processor \<Rightarrow> sframe \<Rightarrow> detector \<Rightarrow> bytes \<times> detector" where
  "det_transform pr f s = proc_Process pr (fPayload f) s"

subsection \<open>Resources\<close>

lemma probe_layout:
  "probeModel info cfg = Inr pr \<Longrightarrow> mpShape pr = (if Transposed (mpLayout pr) then [1, mpShape pr ! 1, 4 + NumClasses cfg]
     else [1, 4 + NumClasses cfg, mpShape pr ! 2]) \<and> int (NumChannels (mpLayout pr)) = max 0 (4 + NumClasses cfg)"
  by (auto simp: probeModel_def Let_def split: sum.splits prod.splits list.splits if_splits)

text \<open>Making a detector either succeeds with the two tensors and the session allocated, all of which Destroy
  frees, and an output layout whose channels are the four of the box and one per configured class, on the axis the
  layout says; or fails, at whatever step, with nothing left allocated. The runtime is initialised by the first attempt
  only: every later one gets the same answer whatever library it asks for.\<close>
theorem detector_resources:
  "(case det_New R cfg s of
      (Inl e, hs, s') \<Rightarrow> hs = []
    | (Inr (pr, allowed), hs, s') \<Rightarrow> distinct hs \<and> set hs = {HSession, HInput, HOutput} \<and> det_Destroy hs = [] \<and>
        int (NumChannels (mpLayout pr)) = max 0 (4 + NumClasses cfg) \<and>
        mpShape pr ! (if Transposed (mpLayout pr) then 2 else 1) = 4 + NumClasses cfg \<and>
        (allowed = None) = (AllowedClasses cfg = [])) \<and>
   ortDone (snd (snd (det_New R cfg s))) \<and>
   snd (snd (det_New R' cfg' (snd (snd (det_New R cfg s))))) = snd (snd (det_New R cfg s)) \<and>
   (case ortInitErr (snd (snd (det_New R cfg s))) of
      None \<Rightarrow> True | Some e \<Rightarrow> fst (det_New R' cfg' (snd (snd (det_New R cfg s)))) = Inl (OrtInit e))"
proof -
  have st: "snd (snd (det_New R cfg s)) = snd (initORT (ortInitialize R) cfg s)" for R cfg s
    by (auto simp: det_New_def split: prod.split option.split sum.split)
  have dn: "ortDone (snd (initORT f c s))" "snd (initORT g d (snd (initORT f c s))) = snd (initORT f c s)"
    "fst (initORT g d (snd (initORT f c s))) = ortInitErr (snd (initORT f c s))" for f g c d s
    by (simp_all add: initORT_def Let_def)
  have er: "fst (det_New R cfg s) = Inl (OrtInit e)" if "fst (initORT (ortInitialize R) cfg s) = Some e" for R cfg s e
    using that by (auto simp: det_New_def split: prod.split option.split)
  have ok: "case det_New R cfg s of
      (Inl e, hs, s') \<Rightarrow> hs = []
    | (Inr (pr, allowed), hs, s') \<Rightarrow> distinct hs \<and> set hs = {HSession, HInput, HOutput} \<and> det_Destroy hs = [] \<and>
        int (NumChannels (mpLayout pr)) = max 0 (4 + NumClasses cfg) \<and>
        mpShape pr ! (if Transposed (mpLayout pr) then 2 else 1) = 4 + NumClasses cfg \<and>
        (allowed = None) = (AllowedClasses cfg = [])"
  proof (cases "probeModel (ortInfo R (ModelPath cfg)) cfg")
    case (Inl e)
    then show ?thesis by (simp add: det_New_def split: prod.split option.split)
  next
    case (Inr pr)
    have "mpShape pr ! (if Transposed (mpLayout pr) then 2 else 1) = 4 + NumClasses cfg"
    proof (cases "Transposed (mpLayout pr)")
      case True
      with probe_layout [OF Inr] have "mpShape pr = [1, mpShape pr ! 1, 4 + NumClasses cfg]" by simp
      then have "mpShape pr ! 2 = [1, mpShape pr ! 1, 4 + NumClasses cfg] ! 2" by simp
      with True show ?thesis by simp
    next
      case False
      with probe_layout [OF Inr] have "mpShape pr = [1, 4 + NumClasses cfg, mpShape pr ! 2]" by simp
      then have "mpShape pr ! 1 = [1, 4 + NumClasses cfg, mpShape pr ! 2] ! 1" by simp
      with False show ?thesis by simp
    qed
    moreover have "(fst (allowedClassIDs (AllowedClasses cfg)) = None) = (AllowedClasses cfg = [])"
      by (simp add: allowedClassIDs_def Let_def)
    ultimately show ?thesis using probe_layout [OF Inr]
      by (auto simp: det_New_def Inr newTensors_def det_Destroy_def split: prod.split option.split)
  qed
  show ?thesis unfolding st using dn er ok by (auto split: option.split)
qed

subsection \<open>Frames and detections\<close>

lemma logStats_sel [simp]:
  "dFrameCount (logStats now s) = dFrameCount s" "dLastDets (logStats now s) = dLastDets s" "dFrameIn (logStats now s) = dFrameIn s"
  by (simp_all add: logStats_def)

lemma refresh_sel [simp]: "dFrameCount (refresh E n jpeg s) = dFrameCount s" "dFrameIn (refresh E n jpeg s) = dFrameIn s"
  by (simp_all add: refresh_def split: sum.split)

text \<open>The detections that frame number \<open>k\<close> is shown with.\<close>

fun shown_dets :: "det_env \<Rightarrow> bytes list \<Rightarrow> nat \<Rightarrow> detection list" where
  "shown_dets E ps 0 = []"
| "shown_dets E ps (Suc k) =
     (if Suc k mod detectEveryN = 0 \<and> deLockFree E (Suc k) then
        case inferenceOnly E (ps ! k) of Inl _ \<Rightarrow> shown_dets E ps k | Inr dets \<Rightarrow> dets
      else shown_dets E ps k)"

definition shown_frame :: "det_env \<Rightarrow> sframe \<Rightarrow> detection list \<Rightarrow> sframe" where
  "shown_frame E f dets = f\<lparr>fPayload := (case annotateJPEG E (fPayload f) dets of Inl _ \<Rightarrow> fPayload f | Inr out \<Rightarrow> out)\<rparr>"

lemma det_state:
  "k \<le> length fs \<Longrightarrow>
   dFrameCount (stage_state (det_transform (Detecting E)) (take k fs) (detector_init now)) = k \<and>
   dFrameIn (stage_state (det_transform (Detecting E)) (take k fs) (detector_init now)) = k \<and>
   dLastDets (stage_state (det_transform (Detecting E)) (take k fs) (detector_init now)) = shown_dets E (map fPayload fs) k"
proof (induction k)
  case 0
  show ?case by (simp add: detector_init_def)
next
  case (Suc k)
  let ?s = "stage_state (det_transform (Detecting E)) (take k fs) (detector_init now)"
  have step: "stage_state (det_transform (Detecting E)) (take (Suc k) fs) (detector_init now) =
      snd (det_transform (Detecting E) (fs ! k) ?s)"
  proof -
    have app: "stage_state step (xs @ [f]) s = snd (step f (stage_state step xs s))"
      for step :: "sframe \<Rightarrow> detector \<Rightarrow> bytes \<times> detector" and xs f s
      by (induction xs arbitrary: s) simp_all
    show ?thesis using Suc.prems by (simp add: take_Suc_conv_app_nth app)
  qed
  from Suc have IH: "dFrameCount ?s = k" "dFrameIn ?s = k" "dLastDets ?s = shown_dets E (map fPayload fs) k" by simp_all
  with Suc.prems show ?case
    unfolding step by (simp add: det_transform_def proc_Process_def det_Process_def Let_def refresh_def split: sum.split)
qed

lemma det_output:
  assumes "i < length fs"
  shows "stage_outputs (det_transform (Detecting E)) fs (detector_init now) ! i =
    shown_frame E (fs ! i) (shown_dets E (map fPayload fs) (Suc i))"
proof -
  let ?s = "stage_state (det_transform (Detecting E)) (take i fs) (detector_init now)"
  from det_state [of i fs E now] assms have s: "dFrameCount ?s = i" "dLastDets ?s = shown_dets E (map fPayload fs) i" by simp_all
  have "dLastDets (refresh E (Suc i) (fPayload (fs ! i)) (?s\<lparr>dFrameCount := Suc i, dFrameIn := Suc (dFrameIn ?s)\<rparr>)) =
      shown_dets E (map fPayload fs) (Suc i)"
    using s assms by (simp add: refresh_def split: sum.split)
  then show ?thesis using s(1)
    by (simp add: stage_outputs_nth [OF assms] det_transform_def proc_Process_def det_Process_def Let_def shown_frame_def)
qed

interpretation detecting: frame_stage "det_transform pr" "\<lambda>b. case pr of Detecting E \<Rightarrow> deDecode E b \<noteq> None | PassingThrough \<Rightarrow> False" for pr
  by unfold_locales (auto simp: det_transform_def proc_Process_def det_Process_def Let_def annotateJPEG_def split: processor.splits)

text \<open>C18: The detector as a hop: from an upstream that is cut off anywhere, every frame received whole is published
  once, in order, under its own camera, timestamp and sequence number, drawn with the detections of the last frame
  whose number is a multiple of fifteen and whose inference ran, or unchanged if it cannot be decoded or encoded; a
  client that does not read gets the last two. Without a detector the frames are published as they came.\<close>
theorem detector_hop:
  assumes "list_all frame_ok fs" "proxy_ok p" "i \<in> set (subs (pbroadcaster p))"
    and "length (queue_of i p) \<le> bc_cap" "k < length (stream_of frame_bytes fs)"
  shows "\<exists>n e p' s. n < length fs \<and> k < length (stream_of frame_bytes (take (Suc n) fs)) \<and> proxy_ok p' \<and>
    upstream_loop (Some (stage_onFrame (det_transform pr))) \<lparr>rbuf = take k (stream_of frame_bytes fs), rend = t\<rparr>
      (0, Some (p, detector_init now)) = ((n, Some (p', s)), e) \<and>
    queue_of i p' = lastn bc_cap (queue_of i p @ take n
      (case pr of
         Detecting E \<Rightarrow> map (\<lambda>j. shown_frame E (fs ! j) (shown_dets E (map fPayload fs) (Suc j))) [0..<length fs]
       | PassingThrough \<Rightarrow> fs))"
proof -
  have o: "stage_outputs (det_transform pr) fs (detector_init now) =
      (case pr of
         Detecting E \<Rightarrow> map (\<lambda>j. shown_frame E (fs ! j) (shown_dets E (map fPayload fs) (Suc j))) [0..<length fs]
       | PassingThrough \<Rightarrow> fs)"
  proof (rule nth_equalityI)
    fix j
    assume "j < length (stage_outputs (det_transform pr) fs (detector_init now))"
    then show "stage_outputs (det_transform pr) fs (detector_init now) ! j =
        (case pr of
           Detecting E \<Rightarrow> map (\<lambda>j. shown_frame E (fs ! j) (shown_dets E (map fPayload fs) (Suc j))) [0..<length fs]
         | PassingThrough \<Rightarrow> fs) ! j"
      using detecting.unusable_unchanged [of j fs PassingThrough "detector_init now"] det_output [of j fs]
      by (simp del: shown_dets.simps split: processor.split)
  qed (simp split: processor.split)
  show ?thesis using detecting.reads_prefix [OF assms, of pr t "detector_init now"] unfolding o by blast
qed

theorem detector_hop_witness:
  "\<exists>n e p' s. n < length [sample_frame, sample_frame] \<and>
    upstream_loop (Some (stage_onFrame (det_transform PassingThrough)))
      \<lparr>rbuf = take 40 (stream_of frame_bytes [sample_frame, sample_frame]), rend = EOF\<rparr>
      (0, Some (sample_proxy, detector_init 0)) = ((n, Some (p', s)), e)"
proof -
  have ok: "list_all frame_ok [sample_frame, sample_frame]" using frame_ok_sample by simp
  have l: "length (queue_of 0 sample_proxy) \<le> bc_cap" using sample_proxy_ok(3) by simp
  have k: "40 < length (stream_of frame_bytes [sample_frame, sample_frame])"
    by (simp add: frame_bytes_def headerSize_def sample_frame_def)
  from detector_hop [OF ok sample_proxy_ok(1,2) l k] show ?thesis by blast
qed

lemma shown_closed:
  assumes "\<And>j. j < length ps \<Longrightarrow> Suc j mod detectEveryN = 0 \<Longrightarrow> deLockFree E (Suc j) \<and> inferenceOnly E (ps ! j) = Inr (D j)"
  shows "k \<le> length ps \<Longrightarrow> shown_dets E ps k = (if k < detectEveryN then [] else D (detectEveryN * (k div detectEveryN) - 1))"
proof (induction k)
  case 0
  show ?case by (simp add: detectEveryN_def)
next
  case (Suc k)
  show ?case
  proof (cases "Suc k mod detectEveryN = 0")
    case True
    then have "detectEveryN * (Suc k div detectEveryN) = Suc k" by auto
    moreover from True have "\<not> Suc k < detectEveryN" using mod_less [of "Suc k" detectEveryN] by linarith
    ultimately show ?thesis using assms [of k] Suc.prems True by simp
  next
    case False
    then have "Suc k div detectEveryN = k div detectEveryN" by (simp add: div_Suc)
    moreover from False have "Suc k \<noteq> detectEveryN" by auto
    then have "Suc k < detectEveryN \<longleftrightarrow> k < detectEveryN" by linarith
    ultimately show ?thesis using Suc False by simp
  qed
qed

lemma shown_allowed: "deAllowed E = Some ids \<Longrightarrow> ClassID ` set (shown_dets E ps k) \<subseteq> set ids"
proof (induction k)
  case (Suc k)
  have "ClassID ` set dets \<subseteq> set ids" if "inferenceOnly E jpeg = Inr dets" for jpeg dets
    using that Suc.prems by (auto simp: inferenceOnly_def Let_def split: option.splits sum.splits)
  with Suc show ?case by (auto split: sum.split)
qed simp

text \<open>When inference succeeds and its lock is free, frame number k is drawn with the detections found in frame
  number 15 (k div 15), and with none before frame 15; so a drawn box is at most fourteen frames old. Only allowed
  classes are ever drawn when the configuration names some, whatever fails.\<close>
theorem detections_refreshed:
  assumes "\<And>j. j < length ps \<Longrightarrow> Suc j mod detectEveryN = 0 \<Longrightarrow> deLockFree E (Suc j) \<and> inferenceOnly E (ps ! j) = Inr (D j)"
    and "k \<le> length ps"
  shows "shown_dets E ps k = (if k < 15 then [] else D (15 * (k div 15) - 1)) \<and> k - 15 * (k div 15) \<le> 14 \<and>
    (case deAllowed E of None \<Rightarrow> True | Some ids \<Rightarrow> ClassID ` set (shown_dets E ps k) \<subseteq> set ids)"
proof -
  have "k - 15 * (k div 15) = k mod 15" by (simp add: modulo_nat_def)
  moreover have "k mod 15 \<le> 14" using mod_less_divisor [of 15 k] by linarith
  moreover have "case deAllowed E of None \<Rightarrow> True | Some ids \<Rightarrow> ClassID ` set (shown_dets E ps k) \<subseteq> set ids"
    using shown_allowed [of E _ ps k] by (simp split: option.split)
  ultimately show ?thesis using shown_closed [OF assms] by (simp add: detectEveryN_def)
qed

definition demo_det_env :: det_env where
  "demo_det_env = \<lparr>deConfig = det_DefaultConfig\<lparr>InputWidth := 1, InputHeight := 1\<rparr>, deLayout = demo_layout, deAllowed = Some [2],
     deDecode = (\<lambda>_. Some (NewRGBA gray 1 1)), deEncode = (\<lambda>_ _. Some [1]), deResize = (\<lambda>_ _ im. im), deOver = (\<lambda>a _. a),
     deRun = (\<lambda>_. Inr [0, 0, 0, 0, 0]), deClasses = (\<lambda>_. []), deSort = by_score, deGlyphs = no_glyphs,
     deLockFree = (\<lambda>_. True), deNow = int\<rparr>"

theorem detections_refreshed_witness:
  "shown_dets demo_det_env (replicate 20 [1]) 17 = []"
proof -
  have "inferenceOnly demo_det_env p = Inr []" for p
    by (simp add: inferenceOnly_def demo_det_env_def Let_def parseOutput_def nms_def)
  then show ?thesis
    using detections_refreshed [of "replicate 20 [1]" demo_det_env "\<lambda>_. []" 17] by (simp add: demo_det_env_def)
qed

text \<open>Loading: the service gets a usable configuration and the reason why it is not the file's.\<close>

lemma det_Load_defaults:
  "snd (det_Load e parse file) \<noteq> None \<Longrightarrow> fst (det_Load e parse file) = det_applyEnv e det_DefaultConfig"
  by (auto simp: det_Load_def split: file_read.splits option.splits)

lemma normalizeListenAddr_idem: "normalizeListenAddr (normalizeListenAddr v) = normalizeListenAddr v"
  by (simp add: normalizeListenAddr_def)

end
