(* ===== verification/Detect_Tensor.thy ===== *)
theory Detect_Tensor
  imports Detect_Boxes
begin

section \<open>The tensor of a frame (camera-web-restream-detector-api, preprocess.go)\<close>

text \<open>
  What the runtime is given: the letterboxed picture as three planes, red, green and blue, of numbers between 0
  and 1. The loops of \<open>toTensor\<close> over a buffer are shown equal to the planes written out.
\<close>

definition plane :: "('c \<Rightarrow> byte) \<Rightarrow> 'c img \<Rightarrow> rat list" where
  "plane ch im = concat (map (\<lambda>y. map (\<lambda>x. unit_byte (ch (pix im (int x, int y)))) [0..<nat (dx im)]) [0..<nat (dy im)])"

subsection \<open>The loops\<close>

lemma rows_upt: "concat (map (\<lambda>y. map (\<lambda>x. y * w + x) [0..<w]) [0..<h]) = [0..<h * w]"
proof (induction h)
  case (Suc h)
  have m: "map (\<lambda>x. h * w + x) [0..<w] = [h * w..<h * w + w]" by (rule nth_equalityI) simp_all
  have "Suc h * w = h * w + w" by simp
  then have "[0..<Suc h * w] = [0..<h * w] @ [h * w..<h * w + w]" by (simp only: upt_add_eq_append [OF le0])
  with Suc m show ?case by simp
qed simp

lemma fold_rows: "fold (\<lambda>y. fold (f y) xs) ys b = fold (\<lambda>p. f (fst p) (snd p)) (concat (map (\<lambda>y. map (Pair y) xs) ys)) b"
  by (induction ys arbitrary: b) (simp_all add: fold_map comp_def)

text \<open>Writing three planes of \<open>P\<close> places, one place of each at a time.\<close>

lemma upd3:
  assumes "length X = P" "length Y = P" "n < P"
  shows "(X @ Y @ Z)[n := a, P + n := b, 2 * P + n := c] = X[n := a] @ Y[n := b] @ Z[n := c]"
  using assms by (simp add: list_update_append)

lemma upd_front: "n < length A \<Longrightarrow> (map r [0..<n] @ drop n A)[n := r n] = map r [0..<Suc n] @ drop (Suc n) A"
  by (simp add: list_update_append flip: Cons_nth_drop_Suc)

lemma fold_planes:
  assumes "length A = P" "length B = P" "length C = P" "n \<le> P"
  shows "fold (\<lambda>k b. b[k := r k, P + k := g k, 2 * P + k := c k]) [0..<n] (A @ B @ C) =
    (map r [0..<n] @ drop n A) @ (map g [0..<n] @ drop n B) @ (map c [0..<n] @ drop n C)"
  using assms(4)
proof (induction n)
  case (Suc n)
  then have n: "n < P" "n \<le> P" by simp_all
  have l: "length (map r [0..<n] @ drop n A) = P" "length (map g [0..<n] @ drop n B) = P" using assms n by simp_all
  show ?case
    unfolding upt_Suc_append [OF le0, of n] fold_append comp_apply Suc.IH [OF n(2)]
    using upd3 [OF l n(1), of "map c [0..<n] @ drop n C" "r n" "g n" "c n"] assms n(1)
      upd_front [of n A r] upd_front [of n B g] upd_front [of n C c]
    by (simp del: append_assoc upt_Suc) simp
qed simp

lemma length_plane: "length (plane ch im) = nat (dy im) * nat (dx im)"
  by (simp add: plane_def length_concat comp_def sum_list_triv)

lemma plane_map:
  assumes "0 < nat (dx im)"
  shows "plane ch im = map (\<lambda>k. unit_byte (ch (pix im (int (k mod nat (dx im)), int (k div nat (dx im)))))) [0..<nat (dy im) * nat (dx im)]"
proof -
  have "map (\<lambda>x. unit_byte (ch (pix im (int x, int y)))) [0..<nat (dx im)] =
      map (\<lambda>k. unit_byte (ch (pix im (int (k mod nat (dx im)), int (k div nat (dx im))))))
        (map (\<lambda>x. y * nat (dx im) + x) [0..<nat (dx im)])" for y
    by simp
  then show ?thesis by (simp only: plane_def flip: rows_upt map_concat) (simp only: map_concat map_map comp_def)
qed

lemma toTensor_planes:
  assumes "length b = 3 * (nat (dy im) * nat (dx im))"
  shows "toTensor im b = plane cR im @ plane cG im @ plane cB im"
proof (cases "nat (dx im) = 0")
  case True
  then have "plane ch im = []" for ch by (simp add: plane_def)
  moreover have "fold (\<lambda>y. id) ys b = b" for ys :: "nat list" by (induction ys) simp_all
  ultimately show ?thesis using True assms by (simp add: toTensor_def Let_def)
next
  case False
  let ?w = "nat (dx im)" and ?h = "nat (dy im)"
  let ?P = "?h * ?w"
  let ?v = "\<lambda>ch k. unit_byte (ch (pix im (int (k mod ?w), int (k div ?w))))"
  let ?T = "\<lambda>k b. b[k := ?v cR k, ?P + k := ?v cG k, 2 * ?P + k := ?v cB k]"
  let ?S = "\<lambda>y x b. b[y * ?w + x := unit_byte (cR (pix im (int x, int y))), ?P + (y * ?w + x) := unit_byte (cG (pix im (int x, int y))),
      2 * ?P + (y * ?w + x) := unit_byte (cB (pix im (int x, int y)))]"
  have st: "?S y x = ?T (y * ?w + x)" if "x \<in> set [0..<?w]" for y x using that by simp
  have row: "fold (?S y) [0..<?w] = fold ?T (map (\<lambda>x. y * ?w + x) [0..<?w])" for y
    unfolding fold_map comp_def by (intro fold_cong ext) (auto simp: st)
  have conc: "fold (\<lambda>y. fold ?T (rows y)) ys b = fold ?T (concat (map rows ys)) b" for ys b and rows :: "nat \<Rightarrow> nat list"
    by (induction ys arbitrary: b) simp_all
  have "toTensor im b = fold (\<lambda>y. fold (?S y) [0..<?w]) [0..<?h] b"
    by (simp only: toTensor_def Let_def mult.commute [of ?w ?h])
  also have "\<dots> = fold ?T [0..<?P] b" by (simp only: row conc rows_upt)
  also have "\<dots> = map (?v cR) [0..<?P] @ map (?v cG) [0..<?P] @ map (?v cB) [0..<?P]"
  proof -
    have "b = take ?P b @ take ?P (drop ?P b) @ drop (2 * ?P) b"
      by (metis append_take_drop_id drop_drop mult_2)
    moreover have "length (take ?P b) = ?P" "length (take ?P (drop ?P b)) = ?P" "length (drop (2 * ?P) b) = ?P"
      using assms by simp_all
    ultimately show ?thesis
      using fold_planes [of "take ?P b" ?P "take ?P (drop ?P b)" "drop (2 * ?P) b" ?P "?v cR" "?v cG" "?v cB"] assms by (simp add: mult.commute)
  qed
  finally show ?thesis using False by (simp add: plane_map)
qed

subsection \<open>Its range\<close>

lemma unit_byte_range: "0 \<le> unit_byte v \<and> unit_byte v \<le> 1"
proof -
  have "uint v < 2 ^ LENGTH(8)" by (rule unsigned_less)
  then have "uint v \<le> 255" by simp
  moreover have "0 \<le> uint v" by simp
  ultimately have "(of_int (uint v) :: rat) \<le> of_int 255" "(0 :: rat) \<le> of_int (uint v)"
    by (simp_all only: of_int_le_iff of_int_0_le_iff)
  then have "of_int (uint v) / 255 \<le> (1 :: rat)" "0 \<le> of_int (uint v) / (255 :: rat)" by (simp_all only: divide_le_eq_1 of_int_numeral) simp_all
  from fl32_mono [OF this(1)] fl32_mono [OF this(2)] show ?thesis
    using fl32_int [of 1] fl32_int [of 0] by (simp add: unit_byte_def)
qed

lemma letterbox_size: "dx (lbImg (letterbox resize over im w h)) = w \<and> dy (lbImg (letterbox resize over im w h)) = h"
  by (simp add: letterbox_def Let_def draw_over_def NewRGBA_def)

text \<open>C25: What the model is fed has the type it was declared with, whatever the frame: for a model of \<open>w\<close> times \<open>h\<close>
  pixels the letterboxed picture has just that size, and the tensor has \<open>3 w h\<close> entries, all between 0 and 1, that are
  the planes of red, green and blue of that picture, row by row, with no entry of the buffer left over and none
  overwritten.\<close>
theorem tensor_well_typed:
  assumes "0 < w" "0 < h"
  shows "let lb = lbImg (letterbox resize over im w h); t = toTensor lb (replicate (nat (3 * h * w)) 0)
    in dx lb = w \<and> dy lb = h \<and> length t = nat (3 * h * w) \<and> set t \<subseteq> {0..1} \<and>
      t = plane cR lb @ plane cG lb @ plane cB lb"
proof -
  let ?lb = "lbImg (letterbox resize over im w h)"
  have s: "dx ?lb = w" "dy ?lb = h" using letterbox_size by blast+
  from assms have n: "nat (3 * h * w) = 3 * (nat h * nat w)" by (simp add: nat_mult_distrib)
  have t: "toTensor ?lb (replicate (nat (3 * h * w)) 0) = plane cR ?lb @ plane cG ?lb @ plane cB ?lb"
    by (rule toTensor_planes) (simp add: n s)
  have "set (plane ch ?lb) \<subseteq> {0..1}" for ch using unit_byte_range by (auto simp: plane_def)
  with s t n show ?thesis by (simp add: Let_def length_plane)
qed

theorem tensor_well_typed_witness:
  "length (toTensor (lbImg (letterbox (\<lambda>w h im. im) (\<lambda>a b. a) (NewRGBA gray 8 6) 4 4)) (replicate 48 0)) = 48"
proof -
  have "nat (3 * 4 * 4) = 48" by simp
  with tensor_well_typed [of 4 4 "\<lambda>w h im. im" "\<lambda>a b. a" "NewRGBA gray 8 6"] show ?thesis
    unfolding Let_def by (metis zero_less_numeral)
qed

end
