(* ===== verification/Detect_Image.thy ===== *)
theory Detect_Image
  imports Detector Detect_Tensor
begin

section \<open>The detect-image tool and the conversion to NRGBA\<close>

text \<open>
  The one-shot tool (\<open>cmd/detect-image/main.go\<close>) over the detector, \<open>Detector.Detect\<close>, and the
  conversion that makes a decoded picture drawable. The file system is a map from names to contents; the tool ends
  with an exit status, its output is the list of lines it prints itself (the logger's debug lines are left out).
\<close>

subsection \<open>Conversion to NRGBA\<close>

text \<open>A decoded picture is in the format to draw on already, or in one whose colours are converted.\<close>

datatype 'c decoded = IsNRGBA "nrgba img" | OtherFormat "'c img"

fun toNRGBA :: "('c \<Rightarrow> nrgba) \<Rightarrow> 'c decoded \<Rightarrow> nrgba img" where
  "toNRGBA conv (IsNRGBA n) = n"
| "toNRGBA conv (OtherFormat src) =
     fold (\<lambda>y. fold (\<lambda>x dst. SetNRGBA (x, y) (conv (pix src (x, y))) dst) [minX src..minX src + dx src - 1])
       [minY src..minY src + dy src - 1]
       \<lparr>minX = minX src, minY = minY src, dx = dx src, dy = dy src, pix = (\<lambda>_. \<lparr>cR = 0, cG = 0, cB = 0, cA = 0\<rparr>)\<rparr>"

subsection \<open>Detect\<close>

definition Detect :: "det_env \<Rightarrow> bytes \<Rightarrow> det_error + detection list \<times> (det_error + bytes)" where
  "Detect E jpeg = infer E jpeg"

subsection \<open>The tool\<close>

datatype tool_error =
    LoadConfig config_error | InitDetector det_error | ReadInput nat | DetectFailed det_error | WriteOutput nat

datatype tool_exit = ExitUsage | ExitFailed tool_error | ExitOk

text \<open>\<open>os.WriteFile\<close> truncates the file before it writes, so that a failure may leave a part.\<close>

datatype write_result = WriteOk | OpenFailed nat | WriteFailed nat nat

fun write_file :: "write_result \<Rightarrow> string \<Rightarrow> bytes \<Rightarrow> (string \<Rightarrow> bytes option) \<Rightarrow> nat option \<times> (string \<Rightarrow> bytes option)" where
  "write_file WriteOk name d fs = (None, fs(name \<mapsto> d))"
| "write_file (OpenFailed e) name d fs = (Some e, fs)"
| "write_file (WriteFailed n e) name d fs = (Some e, fs(name \<mapsto> take n d))"

text \<open>Numbers as \<open>%.3f\<close> and \<open>%.0f\<close> print them.\<close>

definition fixed3 :: "rat \<Rightarrow> string" where
  "fixed3 v =
     (let n = round_even (\<bar>v\<bar> * 1000); frac = itoa (n mod 1000)
      in (if v < 0 then ''-'' else '''') @ itoa (n div 1000) @ ''.'' @ replicate (3 - length frac) (CHR ''0'') @ frac)"

definition fixed0 :: "rat \<Rightarrow> string" where
  "fixed0 v = (if v < 0 then ''-'' else '''') @ itoa (round_even \<bar>v\<bar>)"

definition detection_line :: "nat \<Rightarrow> detection \<Rightarrow> string" where
  "detection_line i d =
     ''  '' @ itoa (int (i + 1)) @ ''. ['' @ ClassName d @ ''] conf='' @ fixed3 (Confidence d) @ ''  box=('' @ fixed0 (X1 d) @ '',''
       @ fixed0 (Y1 d) @ '')-('' @ fixed0 (X2 d) @ '','' @ fixed0 (Y2 d) @ '')''"

definition report_lines :: "output_layout \<Rightarrow> detection list \<Rightarrow> string list" where
  "report_lines l dets =
     [''layout: '' @ layout_String l, ''detections: '' @ itoa (int (length dets))]
       @ map (\<lambda>(i, d). detection_line i d) (enumerate 0 dets)"

record tool_env =
  teEnv :: env
  teParse :: "bytes \<Rightarrow> det_config \<Rightarrow> det_config option"
  teRead :: "string \<Rightarrow> nat option"
  teOrt :: ort
  teFrame :: det_env
  teWrite :: write_result

definition read_file :: "tool_env \<Rightarrow> (string \<Rightarrow> bytes option) \<Rightarrow> string \<Rightarrow> file_read" where
  "read_file T fs name =
     (case fs name of
        None \<Rightarrow> FileMissing
      | Some d \<Rightarrow> (case teRead T name of Some e \<Rightarrow> FileFailed e | None \<Rightarrow> FileData d))"

text \<open>\<open>log.Fatalf\<close> ends the process at once, so the deferred \<open>Destroy\<close> runs only on the last path. The
  result is the exit, the lines printed, the files, and the native resources still held at the end. First the part
  after the detector was made.\<close>

type_synonym tool_result = "tool_exit \<times> string list \<times> (string \<Rightarrow> bytes option) \<times> ort_handle list"

definition tool_detect ::
  "tool_env \<Rightarrow> det_env \<Rightarrow> ort_handle list \<Rightarrow> string \<Rightarrow> string \<Rightarrow> (string \<Rightarrow> bytes option) \<Rightarrow> tool_result" where
  "tool_detect T E hs inputPath outputPath fs =
     (case read_file T fs inputPath of
        FileMissing \<Rightarrow> (ExitFailed (ReadInput 0), [], fs, hs)
      | FileFailed e \<Rightarrow> (ExitFailed (ReadInput e), [], fs, hs)
      | FileData jpeg \<Rightarrow>
          (case Detect E jpeg of
             Inl e \<Rightarrow> (ExitFailed (DetectFailed e), [], fs, hs)
           | Inr (_, Inl e) \<Rightarrow> (ExitFailed (DetectFailed e), [], fs, hs)
           | Inr (dets, Inr annotated) \<Rightarrow>
               (case write_file (teWrite T) outputPath annotated fs of
                  (Some e, fs') \<Rightarrow> (ExitFailed (WriteOutput e), report_lines (deLayout E) dets, fs', hs)
                | (None, fs') \<Rightarrow>
                    (ExitOk, report_lines (deLayout E) dets @ [''annotated image saved to '' @ outputPath], fs', det_Destroy hs))))"

definition detect_image :: "tool_env \<Rightarrow> string list \<Rightarrow> (string \<Rightarrow> bytes option) \<Rightarrow> tool_result" where
  "detect_image T args fs =
     (if length args < 3 then (ExitUsage, [], fs, [])
      else
        let outputPath = (if length args > 3 then args ! 3 else ''detected.jpg'')
        in case det_Load (teEnv T) (teParse T) (read_file T fs (args ! 1)) of
             (_, Some e) \<Rightarrow> (ExitFailed (LoadConfig e), [], fs, [])
           | (cfg0, None) \<Rightarrow>
               let cfg = cfg0\<lparr>Debug := True\<rparr>
               in case det_New (teOrt T) cfg \<lparr>ortDone = False, ortInitErr = None\<rparr> of
                    (Inl e, hs, _) \<Rightarrow> (ExitFailed (InitDetector e), [], fs, hs)
                  | (Inr (pr, allowed), hs, _) \<Rightarrow>
                      tool_detect T ((teFrame T)\<lparr>deConfig := cfg, deLayout := mpLayout pr, deAllowed := allowed\<rparr>) hs
                        (args ! 2) outputPath fs)"

subsection \<open>Lemmas\<close>

lemma set_pixels:
  "same_bounds im (fold (\<lambda>p. SetNRGBA p (g p)) ps im) \<and>
   pix (fold (\<lambda>p. SetNRGBA p (g p)) ps im) q = (if q \<in> set ps \<and> in_img im q then g q else pix im q)"
proof (induction ps arbitrary: im)
  case (Cons p ps)
  have b: "same_bounds im (SetNRGBA p (g p) im)" by (simp add: SetNRGBA_def same_bounds_def)
  with Cons [of "SetNRGBA p (g p) im"] in_img_same [OF b] same_bounds_trans [OF b] show ?case
    by (auto simp: SetNRGBA_def)
qed simp

text \<open>The conversion keeps the bounds, wherever they start, and converts every pixel; a picture in the right format is
  taken as it is.\<close>

lemma toNRGBA_converts:
  "minX (toNRGBA conv (OtherFormat src)) = minX src \<and>
   minY (toNRGBA conv (OtherFormat src)) = minY src \<and>
   dx (toNRGBA conv (OtherFormat src)) = dx src \<and> dy (toNRGBA conv (OtherFormat src)) = dy src \<and>
   (in_img src p \<longrightarrow> pix (toNRGBA conv (OtherFormat src)) p = conv (pix src p))"
proof -
  let ?xs = "[minX src..minX src + dx src - 1]" and ?ys = "[minY src..minY src + dy src - 1]"
  let ?b = "\<lparr>minX = minX src, minY = minY src, dx = dx src, dy = dy src, pix = (\<lambda>_. \<lparr>cR = 0, cG = 0, cB = 0, cA = 0\<rparr>)\<rparr>"
  let ?ps = "map prod.swap (concat (map (\<lambda>y. map (Pair y) ?xs) ?ys))"
  have e: "toNRGBA conv (OtherFormat src) = fold (\<lambda>p. SetNRGBA p (conv (pix src p))) ?ps ?b"
    by (simp add: fold_rows fold_map comp_def prod.swap_def)
  have "p \<in> set ?ps \<and> in_img ?b p" if "in_img src p"
    using that by (cases p) (auto simp: in_img_def image_iff)
  with set_pixels [of ?b "\<lambda>p. conv (pix src p)" ?ps p] show ?thesis unfolding e same_bounds_def by simp
qed

lemma read_file_data: "read_file T fs name = FileData d \<Longrightarrow> fs name = Some d"
  by (simp add: read_file_def split: option.splits)

lemma write_file_ok: "write_file w name d fs = (None, fs') \<Longrightarrow> fs' = fs(name \<mapsto> d)"
  by (cases w) simp_all

lemma write_file_failed: "write_file w name d fs = (Some e, fs') \<Longrightarrow> fs' = fs \<or> (\<exists>n. fs' = fs(name \<mapsto> take n d))"
  by (cases w) auto

lemma tool_detect_saves:
  assumes "tool_detect T E hs inp outp fs = (ex, out, fs', hs')"
  shows "(ex = ExitOk \<longrightarrow> hs' = det_Destroy hs \<and> (\<exists>jpeg dets annotated. fs inp = Some jpeg \<and>
      Detect E jpeg = Inr (dets, Inr annotated) \<and> fs' = fs(outp \<mapsto> annotated) \<and>
      out = report_lines (deLayout E) dets @ [''annotated image saved to '' @ outp])) \<and>
    (ex \<noteq> ExitOk \<longrightarrow> fs' = fs \<or> (\<exists>n e d. ex = ExitFailed (WriteOutput e) \<and> fs' = fs(outp \<mapsto> take n d)))"
proof (cases "read_file T fs inp")
  case (FileData jpeg)
  note rd = read_file_data [OF FileData]
  show ?thesis
  proof (cases "Detect E jpeg")
    case (Inr x)
    obtain dets r where x: "x = (dets, r)" by (cases x)
    show ?thesis
    proof (cases r)
      case (Inr annotated)
      obtain e fs1 where w: "write_file (teWrite T) outp annotated fs = (e, fs1)" by fastforce
      with assms FileData rd \<open>Detect E jpeg = Inr x\<close> x Inr show ?thesis
        by (cases e) (auto simp: tool_detect_def dest: write_file_ok dest!: write_file_failed)
    qed (use assms FileData \<open>Detect E jpeg = Inr x\<close> x in \<open>auto simp: tool_detect_def\<close>)
  qed (use assms FileData in \<open>auto simp: tool_detect_def\<close>)
qed (use assms in \<open>auto simp: tool_detect_def\<close>)

text \<open>The tool changes a file only when everything before worked: then the output file holds the annotated input,
  the other files are as they were, what it prints is about the detections drawn, and nothing native is held; any other
  exit leaves the files alone, but for a part of the output when the write itself broke off.\<close>

lemma detect_image_saves:
  assumes "detect_image T args fs = (ex, out, fs', hs)"
  shows "(ex = ExitOk \<longrightarrow> hs = [] \<and> (\<exists>E jpeg dets annotated. fs (args ! 2) = Some jpeg \<and>
      Detect E jpeg = Inr (dets, Inr annotated) \<and>
      fs' = fs((if length args > 3 then args ! 3 else ''detected.jpg'') \<mapsto> annotated) \<and>
      set (report_lines (deLayout E) dets) \<subseteq> set out)) \<and>
    (ex \<noteq> ExitOk \<longrightarrow> fs' = fs \<or> (\<exists>n e name d. ex = ExitFailed (WriteOutput e) \<and> fs' = fs(name \<mapsto> take n d)))"
proof (cases "fs' = fs \<and> ex \<noteq> ExitOk")
  case False
  then obtain cfg pr allowed hs0 s where
    n: "det_New (teOrt T) cfg \<lparr>ortDone = False, ortInitErr = None\<rparr> = (Inr (pr, allowed), hs0, s)" and
    t: "tool_detect T ((teFrame T)\<lparr>deConfig := cfg, deLayout := mpLayout pr, deAllowed := allowed\<rparr>) hs0
      (args ! 2) (if length args > 3 then args ! 3 else ''detected.jpg'') fs = (ex, out, fs', hs)"
    using assms unfolding detect_image_def Let_def by (auto split: if_splits option.splits prod.splits sum.splits)
  have "det_Destroy hs0 = []"
    using detector_resources [where R = "teOrt T" and cfg = cfg and s = "\<lparr>ortDone = False, ortInitErr = None\<rparr>"]
    by (auto simp: n)
  with tool_detect_saves [OF t] show ?thesis by fastforce
qed auto

end
