(* ===== verification/Upscaler.thy ===== *)
theory Upscaler
  imports Compose Envconf Dropchan "HOL-Library.Multiset"
begin

section \<open>The upscaler (camera-web-restream-upscaler-api, imageutil)\<close>

text \<open>
  The worker pool between the upstream frames and their enlarged copies: its queue, the workers as steps,
  the image pipeline with its decomposition into passes, the resolution cap of \<open>imageutil\<close>, and the
  timing counters with their reporter. The operations of the imaging library are the record \<open>imaging\<close>,
  the codec is a pair of parameters, and the time a frame took is an argument. A send of the pool is one
  step (the contended send is studied in \<open>Dropchan\<close>).
\<close>

subsection \<open>Passes\<close>

text \<open>Halving until one is reached; the second argument is the number of bits left.\<close>

fun double_steps :: "nat \<Rightarrow> int \<Rightarrow> int list" where
  "double_steps 0 scale = []"
| "double_steps (Suc n) scale = (if scale > 1 then 2 # double_steps n (scale div 2) else [])"

definition stepsFor :: "int \<Rightarrow> int list" where
  "stepsFor scale =
     (if scale \<le> 1 then []
      else if scale AND (scale - 1) = 0 then double_steps 64 scale
      else [scale])"

record 'i imaging =
  imgWidth :: "'i \<Rightarrow> int"
  imgHeight :: "'i \<Rightarrow> int"
  imgResize :: "int \<Rightarrow> int \<Rightarrow> 'i \<Rightarrow> 'i"
  imgBlur :: "rat \<Rightarrow> 'i \<Rightarrow> 'i"
  imgSharpen :: "rat \<Rightarrow> 'i \<Rightarrow> 'i"
  imgContrast :: "rat \<Rightarrow> 'i \<Rightarrow> 'i"

fun upscale_passes :: "'i imaging \<Rightarrow> int list \<Rightarrow> 'i \<Rightarrow> 'i" where
  "upscale_passes L [] src = src"
| "upscale_passes L (s # ss) src =
     (let r = imgResize L (i64 (imgWidth L src * s)) (i64 (imgHeight L src * s)) src
      in upscale_passes L ss (imgSharpen L (if ss \<noteq> [] then 4 / 10 else 8 / 10) r))"

definition upscale :: "'i imaging \<Rightarrow> 'i \<Rightarrow> int \<Rightarrow> 'i" where
  "upscale L src scale = imgContrast L 3 (upscale_passes L (stepsFor scale) src)"

definition CapResolution :: "'i imaging \<Rightarrow> 'i \<Rightarrow> int \<Rightarrow> int \<Rightarrow> 'i" where
  "CapResolution L im maxW maxH =
     (let w = imgWidth L im; h = imgHeight L im
      in if w \<le> maxW \<and> h \<le> maxH then im
         else let (nw, nh) = scaled_size w h maxW maxH in imgResize L nw nh im)"

subsection \<open>Counters\<close>

record pipe_metrics =
  pmFrames :: int
  pmDropped :: int
  pmDecodeNs :: int
  pmResizeNs :: int
  pmEncodeNs :: int
  pmTotalNs :: int

definition pipe_init :: pipe_metrics where
  "pipe_init = \<lparr>pmFrames = 0, pmDropped = 0, pmDecodeNs = 0, pmResizeNs = 0, pmEncodeNs = 0, pmTotalNs = 0\<rparr>"

definition RecordDrop :: "pipe_metrics \<Rightarrow> pipe_metrics" where
  "RecordDrop m = m\<lparr>pmDropped := pmDropped m + 1\<rparr>"

definition Record :: "int \<Rightarrow> int \<Rightarrow> int \<Rightarrow> int \<Rightarrow> pipe_metrics \<Rightarrow> pipe_metrics" where
  "Record d r e t m =
     m\<lparr>pmFrames := pmFrames m + 1, pmDecodeNs := pmDecodeNs m + d, pmResizeNs := pmResizeNs m + r,
       pmEncodeNs := pmEncodeNs m + e, pmTotalNs := pmTotalNs m + t\<rparr>"

record pipe_line =
  plFrames :: int
  plDropped :: int
  plAvgTotal :: rat

definition pipe_avg :: "int \<Rightarrow> int \<Rightarrow> rat" where
  "pipe_avg ns frames = fl64 (fl64 (of_int ns / of_int frames) / 1000000)"

text \<open>A tick of the reporter: what it logs, and the counts it remembers. Its ticker panics on an interval that
  is not positive.\<close>

definition report_tick :: "pipe_metrics \<Rightarrow> int \<times> int \<Rightarrow> pipe_line option \<times> (int \<times> int)" where
  "report_tick m prev =
     (let frames = pmFrames m; dropped = pmDropped m; delta = frames - fst prev; droppedDelta = dropped - snd prev
      in (if delta = 0 then None
          else Some \<lparr>plFrames = delta, plDropped = droppedDelta, plAvgTotal = pipe_avg (pmTotalNs m) frames\<rparr>,
          (frames, dropped)))"

fun report_loop :: "pipe_metrics list \<Rightarrow> int \<times> int \<Rightarrow> pipe_line list" where
  "report_loop [] prev = []"
| "report_loop (m # ms) prev =
     (let (line, prev') = report_tick m prev
      in (case line of None \<Rightarrow> [] | Some l \<Rightarrow> [l]) @ report_loop ms prev')"

definition RunReporter :: "int \<Rightarrow> pipe_metrics list \<Rightarrow> pipe_line list option" where
  "RunReporter interval ms = (if interval \<le> 0 then None else Some (report_loop ms (0, 0)))"

subsection \<open>The pool\<close>

record pool_config =
  pcWorkers :: int
  pcQueueSize :: nat
  pcJPEGQuality :: int
  pcMaxWidth :: int
  pcMaxHeight :: int
  pcScale :: int

text \<open>\<open>process\<close>: the enlarged JPEG, or nothing when the frame cannot be decoded or encoded.\<close>

definition pool_process :: "'i imaging \<Rightarrow> (bytes \<Rightarrow> 'i option) \<Rightarrow> (int \<Rightarrow> 'i \<Rightarrow> bytes option) \<Rightarrow> pool_config \<Rightarrow> bytes \<Rightarrow> bytes option" where
  "pool_process L decode encode cfg jpeg =
     (case decode jpeg of
        None \<Rightarrow> None
      | Some src0 \<Rightarrow>
          let src = imgBlur L (3 / 10) (CapResolution L src0 (pcMaxWidth cfg) (pcMaxHeight cfg))
          in encode (pcJPEGQuality cfg) (upscale L src (pcScale cfg)))"

record 'd pool =
  plQueue :: "(bytes \<times> 'd) chan"
  plBusy :: "(bytes \<times> 'd) list"
  plIdle :: int
  plMetrics :: pipe_metrics
  plPushed :: "('d \<times> bytes) list"

definition pool_New :: "pool_config \<Rightarrow> 'd pool" where
  "pool_New cfg = \<lparr>plQueue = make_chan (pcQueueSize cfg), plBusy = [], plIdle = max 0 (pcWorkers cfg),
     plMetrics = pipe_init, plPushed = []\<rparr>"

definition pool_Process :: "bytes \<Rightarrow> 'd \<Rightarrow> 'd pool \<Rightarrow> 'd pool option" where
  "pool_Process jpeg dest p =
     (case Send (jpeg, dest) (plQueue p) of
        None \<Rightarrow> None
      | Some (res, q) \<Rightarrow>
          Some (p\<lparr>plQueue := q, plMetrics := (if Lost res then RecordDrop (plMetrics p) else plMetrics p)\<rparr>))"

definition pool_close :: "'d pool \<Rightarrow> 'd pool option" where
  "pool_close p = map_option (\<lambda>q. p\<lparr>plQueue := q\<rparr>) (close_chan (plQueue p))"

text \<open>A worker takes the oldest job; a worker finishes a job, having spent the given times on it; on a closed
  and empty queue a worker leaves. \<open>Close\<close> returns when no worker is left.\<close>

definition worker_take :: "'d pool \<Rightarrow> 'd pool" where
  "worker_take p =
     (case cbuf (plQueue p) of
        [] \<Rightarrow> p
      | j # js \<Rightarrow> if plIdle p \<le> 0 then p
                  else p\<lparr>plQueue := (plQueue p)\<lparr>cbuf := js\<rparr>, plBusy := j # plBusy p, plIdle := plIdle p - 1\<rparr>)"

definition worker_finish :: "(bytes \<Rightarrow> bytes option) \<Rightarrow> nat \<Rightarrow> int \<times> int \<times> int \<times> int \<Rightarrow> 'd pool \<Rightarrow> 'd pool" where
  "worker_finish proc i ts p =
     (if i < length (plBusy p) then
        let (jpeg, dest) = plBusy p ! i; p1 = p\<lparr>plBusy := take i (plBusy p) @ drop (Suc i) (plBusy p), plIdle := plIdle p + 1\<rparr>
        in case proc jpeg of
             None \<Rightarrow> p1
           | Some out \<Rightarrow> (case ts of (d, r, e, t) \<Rightarrow>
               p1\<lparr>plMetrics := Record d r e t (plMetrics p1), plPushed := plPushed p1 @ [(dest, out)]\<rparr>)
      else p)"

definition worker_exit :: "'d pool \<Rightarrow> 'd pool" where
  "worker_exit p =
     (if cclosed (plQueue p) \<and> cbuf (plQueue p) = [] \<and> 0 < plIdle p then p\<lparr>plIdle := plIdle p - 1\<rparr> else p)"

definition close_returns :: "'d pool \<Rightarrow> bool" where
  "close_returns p \<longleftrightarrow> cclosed (plQueue p) \<and> plBusy p = [] \<and> plIdle p = 0"

text \<open>The runs of a pool, with what was submitted so far.\<close>

inductive pool_reach :: "(bytes \<Rightarrow> bytes option) \<Rightarrow> pool_config \<Rightarrow> (bytes \<times> 'd) list \<Rightarrow> 'd pool \<Rightarrow> bool"
  for proc :: "bytes \<Rightarrow> bytes option" and cfg :: pool_config where
  start: "pool_reach proc cfg [] (pool_New cfg)"
| process: "pool_reach proc cfg js p \<Longrightarrow> pool_Process j d p = Some p' \<Longrightarrow> pool_reach proc cfg (js @ [(j, d)]) p'"
| take_job: "pool_reach proc cfg js p \<Longrightarrow> pool_reach proc cfg js (worker_take p)"
| finish: "pool_reach proc cfg js p \<Longrightarrow> pool_reach proc cfg js (worker_finish proc i ts p)"
| close: "pool_reach proc cfg js p \<Longrightarrow> pool_close p = Some p' \<Longrightarrow> pool_reach proc cfg js p'"
| exit_worker: "pool_reach proc cfg js p \<Longrightarrow> pool_reach proc cfg js (worker_exit p)"

subsection \<open>Configuration\<close>

record upscaler_config =
  uc_httpAddr :: string
  uc_upstreamTCPAddr :: string
  uc_tcpAddr :: string
  uc_tcpEnabled :: bool
  uc_numWorkers :: int
  uc_queueMultiplier :: int
  uc_maxInputWidth :: int
  uc_maxInputHeight :: int
  uc_scale :: int
  uc_jpegQuality :: int
  uc_metricsInterval :: int

definition upscaler_loadConfig :: "int \<Rightarrow> env \<Rightarrow> upscaler_config" where
  "upscaler_loadConfig numCPU e =
     \<lparr>uc_httpAddr = env_String e ''HTTP_ADDR'' '':8092'',
      uc_upstreamTCPAddr = env_String e ''UPSTREAM_TCP_ADDR'' ''localhost:9001'',
      uc_tcpAddr = env_String e ''TCP_ADDR'' '':9004'',
      uc_tcpEnabled = (env_String e ''TCP_ENABLED'' ''true'' \<noteq> ''false''),
      uc_numWorkers = env_Int e ''NUM_WORKERS'' (max 1 (go_div numCPU 2)),
      uc_queueMultiplier = env_Int e ''QUEUE_MULTIPLIER'' 2,
      uc_maxInputWidth = env_Int e ''MAX_INPUT_WIDTH'' 960,
      uc_maxInputHeight = env_Int e ''MAX_INPUT_HEIGHT'' 540,
      uc_scale = env_Int e ''UPSCALE_FACTOR'' 2,
      uc_jpegQuality = env_Int e ''JPEG_QUALITY'' 85,
      uc_metricsInterval = env_Seconds e ''METRICS_INTERVAL_SEC'' (60 * second)\<rparr>"

text \<open>The pool \<open>Run\<close> builds; making a channel of a negative size panics.\<close>

definition upscaler_pool :: "upscaler_config \<Rightarrow> pool_config option" where
  "upscaler_pool c =
     (let q = i64 (uc_numWorkers c * uc_queueMultiplier c)
      in if q < 0 then None
         else Some \<lparr>pcWorkers = uc_numWorkers c, pcQueueSize = nat q, pcJPEGQuality = uc_jpegQuality c,
                    pcMaxWidth = uc_maxInputWidth c, pcMaxHeight = uc_maxInputHeight c, pcScale = uc_scale c\<rparr>)"

subsection \<open>The size of the result\<close>

lemma double_steps_two: "double_steps n scale = replicate (length (double_steps n scale)) 2"
  by (induction n scale rule: double_steps.induct) simp_all

lemma double_steps_pow: "k \<le> n \<Longrightarrow> double_steps n (2 ^ k) = replicate k 2"
proof (induction n arbitrary: k)
  case (Suc n)
  show ?case
  proof (cases k)
    case (Suc k')
    with Suc.prems have "k' \<le> n" by simp
    moreover have "(1::int) < 2 * 2 ^ k'" by (smt (verit) zero_less_power)
    ultimately show ?thesis using Suc Suc.IH by simp
  qed simp
qed simp

text \<open>A positive number that shares no bit with its predecessor is a power of two.\<close>

lemma pow2_test: "0 < x \<Longrightarrow> x AND (x - 1) = 0 \<Longrightarrow> \<exists>k. x = (2::int) ^ k"
proof (induction "nat x" arbitrary: x rule: less_induct)
  case less
  show ?case
  proof (cases "x = 1")
    case True
    then have "x = 2 ^ 0" by simp
    then show ?thesis by blast
  next
    case False
    with less.prems have gt: "1 < x" by linarith
    have ev: "even x"
    proof (rule ccontr)
      assume "odd x"
      then have "odd (x div 2 * 2 + 1)" "x = 2 * (x div 2) + 1" by simp_all
      then obtain y where y: "x = 2 * y + 1" by blast
      with gt have "0 < y" by simp
      have "(2 * y + 1) AND (2 * y) = 2 * y"
        by (subst and_int_rec) simp
      with y less.prems(2) \<open>0 < y\<close> show False by simp
    qed
    then obtain y where y: "x = 2 * y" by (auto elim: evenE)
    with gt have yp: "0 < y" by simp
    have eq: "(2 * y) AND (2 * y - 1) = 2 * (y AND (y - 1))"
    proof -
      have "(2 * y - 1) div 2 = y - 1" by simp
      then show ?thesis by (subst and_int_rec) simp
    qed
    with less.prems(2) y have "y AND (y - 1) = 0" by simp
    from less.hyps [OF _ yp this] y yp obtain k where "y = 2 ^ k" by auto
    with y have "x = 2 ^ Suc k" by simp
    then show ?thesis by blast
  qed
qed

lemma stepsFor_cases:
  assumes "1 \<le> scale" "scale < 2 ^ 63"
  shows "stepsFor scale = [scale] \<or> (\<exists>k. scale = 2 ^ k \<and> stepsFor scale = replicate k 2)"
proof (cases "scale AND (scale - 1) = 0")
  case True
  with pow2_test assms obtain k where k: "scale = 2 ^ k" by (metis zero_less_one order_less_le_trans)
  with assms(2) have "(2::int) ^ k < 2 ^ 63" by simp
  then have "k < 63" by (rule power_less_imp_less_exp [rotated]) simp
  show ?thesis
  proof (cases "k = 0")
    case True
    with k have "scale = 2 ^ 0 \<and> stepsFor scale = replicate 0 2" by (simp add: stepsFor_def)
    then show ?thesis by blast
  next
    case False
    then have "(1::int) < 2 ^ k" by simp
    with True k double_steps_pow [of k 64] \<open>k < 63\<close> show ?thesis by (auto simp: stepsFor_def)
  qed
next
  case False
  with assms show ?thesis by (cases "scale = 1") (simp_all add: stepsFor_def)
qed

lemma stepsFor_prod: "1 \<le> scale \<Longrightarrow> scale < 2 ^ 63 \<Longrightarrow> prod_list (stepsFor scale) = scale"
  using stepsFor_cases [of scale] by (auto simp: prod_list_replicate)

text \<open>What the image library promises of sizes.\<close>

definition imaging_sizes :: "'i imaging \<Rightarrow> bool" where
  "imaging_sizes L \<longleftrightarrow>
     (\<forall>w h im. 0 < w \<longrightarrow> 0 < h \<longrightarrow> imgWidth L (imgResize L w h im) = w \<and> imgHeight L (imgResize L w h im) = h) \<and>
     (\<forall>q im. imgWidth L (imgBlur L q im) = imgWidth L im \<and> imgHeight L (imgBlur L q im) = imgHeight L im) \<and>
     (\<forall>q im. imgWidth L (imgSharpen L q im) = imgWidth L im \<and> imgHeight L (imgSharpen L q im) = imgHeight L im) \<and>
     (\<forall>q im. imgWidth L (imgContrast L q im) = imgWidth L im \<and> imgHeight L (imgContrast L q im) = imgHeight L im)"

lemma upscale_passes_size:
  assumes "imaging_sizes L" "\<And>s. s \<in> set ss \<Longrightarrow> 1 \<le> s" "0 < imgWidth L im" "0 < imgHeight L im"
    and "imgWidth L im * prod_list ss < 2 ^ 63" "imgHeight L im * prod_list ss < 2 ^ 63"
  shows "imgWidth L (upscale_passes L ss im) = imgWidth L im * prod_list ss \<and>
    imgHeight L (upscale_passes L ss im) = imgHeight L im * prod_list ss"
  using assms(2-)
proof (induction ss arbitrary: im)
  case (Cons s ss)
  have p: "1 \<le> prod_list ss" if "\<And>s. s \<in> set ss \<Longrightarrow> (1::int) \<le> s" for ss
    using that
  proof (induction ss)
    case (Cons a ss)
    then have "1 \<le> a" "1 \<le> prod_list ss" by simp_all
    then have "1 * 1 \<le> a * prod_list ss" by (intro mult_mono) simp_all
    then show ?case by simp
  qed simp
  have fit: "0 < x * s \<and> x * s < 2 ^ 63 \<and> i64 (x * s) = x * s" if "0 < x" "x * prod_list (s # ss) < 2 ^ 63" for x
  proof -
    have s: "1 \<le> s" and q: "1 \<le> prod_list ss" using Cons.prems(1) p [of ss] by simp_all
    then have "0 < x * s" using that(1) by simp
    moreover from this q have "x * s * 1 \<le> x * s * prod_list ss" by (intro mult_left_mono) simp_all
    ultimately show ?thesis using that(2) by (simp add: in_i64_def mult.assoc)
  qed
  define r where "r = imgResize L (i64 (imgWidth L im * s)) (i64 (imgHeight L im * s)) im"
  have rs: "imgWidth L r = imgWidth L im * s" "imgHeight L r = imgHeight L im * s"
    using fit [OF Cons.prems(2,4)] fit [OF Cons.prems(3,5)] assms(1) by (simp_all add: r_def imaging_sizes_def)
  define im' where "im' = imgSharpen L (if ss \<noteq> [] then 4 / 10 else 8 / 10) r"
  have ds: "imgWidth L im' = imgWidth L im * s" "imgHeight L im' = imgHeight L im * s"
    using rs assms(1) by (simp_all add: im'_def imaging_sizes_def)
  from Cons.IH [of im'] Cons.prems ds fit [OF Cons.prems(2,4)] fit [OF Cons.prems(3,5)]
  show ?case by (simp add: im'_def r_def Let_def mult.assoc)
qed simp

definition pool_limits :: "pool_config \<Rightarrow> bool" where
  "pool_limits cfg \<longleftrightarrow> 1 \<le> pcScale cfg \<and> pcScale cfg < 2 ^ 12 \<and>
     0 < pcMaxWidth cfg \<and> pcMaxWidth cfg \<le> 2 ^ 50 \<and> 0 < pcMaxHeight cfg \<and> pcMaxHeight cfg \<le> 2 ^ 50"

text \<open>The capping leaves a usable image: a frame too long and too thin would be scaled to nothing, and is then
  sized by the image library.\<close>

definition cappable :: "int \<Rightarrow> int \<Rightarrow> int \<Rightarrow> int \<Rightarrow> bool" where
  "cappable w h mw mh \<longleftrightarrow> 0 < w \<and> 0 < h \<and>
     (w \<le> mw \<and> h \<le> mh \<or> 0 < fst (scaled_size w h mw mh) \<and> 0 < snd (scaled_size w h mw mh))"

lemma CapResolution_size:
  assumes "imaging_sizes L" "pool_limits cfg" "cappable (imgWidth L im) (imgHeight L im) (pcMaxWidth cfg) (pcMaxHeight cfg)"
  shows "0 < imgWidth L (CapResolution L im (pcMaxWidth cfg) (pcMaxHeight cfg)) \<and>
    imgWidth L (CapResolution L im (pcMaxWidth cfg) (pcMaxHeight cfg)) \<le> pcMaxWidth cfg \<and>
    0 < imgHeight L (CapResolution L im (pcMaxWidth cfg) (pcMaxHeight cfg)) \<and>
    imgHeight L (CapResolution L im (pcMaxWidth cfg) (pcMaxHeight cfg)) \<le> pcMaxHeight cfg"
proof (cases "imgWidth L im \<le> pcMaxWidth cfg \<and> imgHeight L im \<le> pcMaxHeight cfg")
  case True
  with assms(3) show ?thesis by (simp add: CapResolution_def cappable_def)
next
  case False
  obtain nw nh where n: "scaled_size (imgWidth L im) (imgHeight L im) (pcMaxWidth cfg) (pcMaxHeight cfg) = (nw, nh)"
    by fastforce
  have "nw \<le> pcMaxWidth cfg \<and> nh \<le> pcMaxHeight cfg"
    using scaled_size_bounds [OF _ _ _ _ _ _ n] assms(2,3) by (simp add: cappable_def pool_limits_def)
  with False n assms(1,3) show ?thesis
    by (auto simp: CapResolution_def Let_def cappable_def imaging_sizes_def)
qed

lemma upscale_size:
  assumes "imaging_sizes L" "1 \<le> scale" "scale < 2 ^ 12"
    and "0 < imgWidth L im" "imgWidth L im \<le> 2 ^ 50" "0 < imgHeight L im" "imgHeight L im \<le> 2 ^ 50"
  shows "imgWidth L (upscale L im scale) = scale * imgWidth L im \<and> imgHeight L (upscale L im scale) = scale * imgHeight L im"
proof -
  have sc: "scale < 2 ^ 63" using assms(3) by simp
  have p: "1 \<le> s" if "s \<in> set (stepsFor scale)" for s
    using stepsFor_cases [OF assms(2) sc] that assms(2) by auto
  have b: "x * prod_list (stepsFor scale) < 2 ^ 63" if "0 < x" "x \<le> 2 ^ 50" for x
  proof -
    have "x * scale \<le> 2 ^ 50 * scale" using that assms(2) by (intro mult_right_mono) simp_all
    also have "\<dots> < 2 ^ 50 * 2 ^ 12" using assms(3) by simp
    finally show ?thesis using stepsFor_prod [OF assms(2) sc] by simp
  qed
  show ?thesis
    using upscale_passes_size [OF assms(1) p assms(4,6) b [OF assms(4,5)] b [OF assms(6,7)]] stepsFor_prod [OF assms(2) sc]
      assms(1) by (simp add: upscale_def imaging_sizes_def mult.commute)
qed

text \<open>A frame the pool publishes is the encoding, at the configured quality, of an image exactly scale times
  as large in both directions as the capped frame, so never above scale times the configured limits, whatever passes
  the scale is decomposed into; a frame within the limits is enlarged from its own size. This holds for limits up to
  2^50 and scales below 4096, given an image library that resizes to the size it is asked for.\<close>
theorem upscaled_size:
  assumes "imaging_sizes L" "pool_limits cfg" "decode jpeg = Some src"
    and "cappable (imgWidth L src) (imgHeight L src) (pcMaxWidth cfg) (pcMaxHeight cfg)"
    and "pool_process L decode encode cfg jpeg = Some out"
  shows "\<exists>im. encode (pcJPEGQuality cfg) im = Some out \<and>
    imgWidth L im \<le> pcScale cfg * pcMaxWidth cfg \<and> imgHeight L im \<le> pcScale cfg * pcMaxHeight cfg \<and>
    imgWidth L im = pcScale cfg * imgWidth L (CapResolution L src (pcMaxWidth cfg) (pcMaxHeight cfg)) \<and>
    imgHeight L im = pcScale cfg * imgHeight L (CapResolution L src (pcMaxWidth cfg) (pcMaxHeight cfg)) \<and>
    (if imgWidth L src \<le> pcMaxWidth cfg \<and> imgHeight L src \<le> pcMaxHeight cfg
     then imgWidth L im = pcScale cfg * imgWidth L src \<and> imgHeight L im = pcScale cfg * imgHeight L src else True)"
proof -
  define c where "c = CapResolution L src (pcMaxWidth cfg) (pcMaxHeight cfg)"
  define b where "b = imgBlur L (3 / 10) c"
  have cs: "0 < imgWidth L c" "imgWidth L c \<le> pcMaxWidth cfg" "0 < imgHeight L c" "imgHeight L c \<le> pcMaxHeight cfg"
    using CapResolution_size [OF assms(1,2,4)] by (simp_all add: c_def)
  have bs: "imgWidth L b = imgWidth L c" "imgHeight L b = imgHeight L c"
    using assms(1) by (simp_all add: b_def imaging_sizes_def)
  have l: "1 \<le> pcScale cfg" "pcScale cfg < 2 ^ 12" "pcMaxWidth cfg \<le> 2 ^ 50" "pcMaxHeight cfg \<le> 2 ^ 50"
    using assms(2) by (simp_all add: pool_limits_def)
  have u: "imgWidth L (upscale L b (pcScale cfg)) = pcScale cfg * imgWidth L c \<and>
      imgHeight L (upscale L b (pcScale cfg)) = pcScale cfg * imgHeight L c"
    using upscale_size [OF assms(1) l(1,2), of b] cs l(3,4) bs by simp
  have e: "encode (pcJPEGQuality cfg) (upscale L b (pcScale cfg)) = Some out"
    using assms(3,5) by (simp add: pool_process_def b_def c_def Let_def)
  have m: "pcScale cfg * imgWidth L c \<le> pcScale cfg * pcMaxWidth cfg"
    "pcScale cfg * imgHeight L c \<le> pcScale cfg * pcMaxHeight cfg"
    using cs l(1) by (simp_all add: mult_left_mono)
  have w: "if imgWidth L src \<le> pcMaxWidth cfg \<and> imgHeight L src \<le> pcMaxHeight cfg then c = src else True"
    by (simp add: c_def CapResolution_def)
  from e u m w show ?thesis by (intro exI [of _ "upscale L b (pcScale cfg)"]) (auto simp: c_def)
qed

definition size_imaging :: "(int \<times> int) imaging" where
  "size_imaging = \<lparr>imgWidth = fst, imgHeight = snd, imgResize = (\<lambda>w h _. (w, h)), imgBlur = (\<lambda>_ im. im),
     imgSharpen = (\<lambda>_ im. im), imgContrast = (\<lambda>_ im. im)\<rparr>"

definition demo_pool_cfg :: pool_config where
  "demo_pool_cfg = \<lparr>pcWorkers = 1, pcQueueSize = 2, pcJPEGQuality = 85, pcMaxWidth = 960, pcMaxHeight = 540, pcScale = 4\<rparr>"

theorem upscaled_size_witness:
  "\<exists>im. (\<lambda>q im. Some [1, 2]) (pcJPEGQuality demo_pool_cfg) im = Some [1, 2 :: byte] \<and>
    imgWidth size_imaging im = 4 * 640 \<and> imgHeight size_imaging im = 4 * 480"
proof -
  have "imaging_sizes size_imaging" by (simp add: imaging_sizes_def size_imaging_def)
  moreover have "pool_limits demo_pool_cfg" by (simp add: pool_limits_def demo_pool_cfg_def)
  moreover have "cappable (imgWidth size_imaging (640, 480)) (imgHeight size_imaging (640, 480)) (pcMaxWidth demo_pool_cfg) (pcMaxHeight demo_pool_cfg)"
    by (simp add: cappable_def size_imaging_def demo_pool_cfg_def)
  moreover have "pool_process size_imaging (\<lambda>_. Some (640, 480)) (\<lambda>q im. Some [1, 2]) demo_pool_cfg [] = Some [1, 2 :: byte]"
    by (simp add: pool_process_def)
  ultimately show ?thesis
    using upscaled_size [of size_imaging demo_pool_cfg "\<lambda>_. Some (640, 480)" "[]" "(640, 480)" "\<lambda>q im. Some [1, 2]" "[1, 2]"]
    by (auto simp: demo_pool_cfg_def size_imaging_def)
qed

subsection \<open>The pool accounts for every frame\<close>

text \<open>The frames submitted are queued, at work, finished, or lost to the queue, and what was pushed is exactly what
  the finished frames produced.\<close>

definition pool_workers :: "pool_config \<Rightarrow> int" where
  "pool_workers cfg = max 0 (pcWorkers cfg)"

definition pool_accounts :: "(bytes \<Rightarrow> bytes option) \<Rightarrow> pool_config \<Rightarrow> (bytes \<times> 'd) list \<Rightarrow> 'd pool \<Rightarrow> bool" where
  "pool_accounts proc cfg js p \<longleftrightarrow>
     (\<exists>fin lost. mset js = mset (cbuf (plQueue p)) + mset (plBusy p) + mset fin + mset lost \<and>
        pmDropped (plMetrics p) = int (length lost) \<and> pmFrames (plMetrics p) = int (length (plPushed p)) \<and>
        plPushed p = concat (map (\<lambda>(j, d). case proc j of None \<Rightarrow> [] | Some out \<Rightarrow> [(d, out)]) fin)) \<and>
     length (cbuf (plQueue p)) \<le> ccap (plQueue p) \<and> ccap (plQueue p) = pcQueueSize cfg \<and>
     0 \<le> plIdle p \<and> plIdle p + int (length (plBusy p)) \<le> pool_workers cfg"

lemma Send_mset:
  assumes "Send v c = Some (r, c')" "length (cbuf c) \<le> ccap c"
  shows "ccap c' = ccap c \<and> length (cbuf c') \<le> ccap c \<and> cclosed c' = cclosed c \<and>
    (if Lost r then \<exists>x. mset (cbuf c) + {#v#} = mset (cbuf c') + {#x#} else cbuf c' = cbuf c @ [v])"
proof -
  from assms(1) have "\<not> cclosed c" by (auto simp: Send_def Send_between_def try_send_def split: if_splits)
  show ?thesis
  proof (cases "length (cbuf c) < ccap c")
    case True
    with assms \<open>\<not> cclosed c\<close> show ?thesis by (auto simp: Send_def Send_between_def try_send_def Lost_def)
  next
    case False
    with assms(2) have l: "length (cbuf c) = ccap c" by simp
    show ?thesis
    proof (cases "cbuf c")
      case Nil
      with l assms(1) \<open>\<not> cclosed c\<close> show ?thesis
        by (auto simp: Send_def Send_between_def try_send_def try_recv_def Lost_def)
    next
      case (Cons x xs)
      then have "ccap c = Suc (length xs)" using l by simp
      with Cons assms(1) \<open>\<not> cclosed c\<close> have "r = ReplacedOldest \<and> c' = c\<lparr>cbuf := xs @ [v]\<rparr>"
        by (auto simp: Send_def Send_between_def try_send_def try_recv_def Let_def)
      with Cons \<open>ccap c = Suc (length xs)\<close> \<open>\<not> cclosed c\<close> show ?thesis
        by (auto simp: Lost_def intro: exI [of _ x])
    qed
  qed
qed

definition results :: "(bytes \<Rightarrow> bytes option) \<Rightarrow> (bytes \<times> 'd) list \<Rightarrow> ('d \<times> bytes) list" where
  "results proc js = concat (map (\<lambda>(j, d). case proc j of None \<Rightarrow> [] | Some out \<Rightarrow> [(d, out)]) js)"

lemma results_snoc [simp]:
  "results proc (js @ [(j, d)]) = results proc js @ (case proc j of None \<Rightarrow> [] | Some out \<Rightarrow> [(d, out)])"
  "results proc [] = []"
  by (simp_all add: results_def)

lemma pool_accountsI:
  assumes "mset js = mset (cbuf (plQueue p)) + mset (plBusy p) + mset fin + mset lost"
    and "pmDropped (plMetrics p) = int (length lost)" "pmFrames (plMetrics p) = int (length (plPushed p))"
    and "plPushed p = results proc fin"
    and "length (cbuf (plQueue p)) \<le> ccap (plQueue p)" "ccap (plQueue p) = pcQueueSize cfg"
    and "0 \<le> plIdle p" "plIdle p + int (length (plBusy p)) \<le> pool_workers cfg"
  shows "pool_accounts proc cfg js p"
  using assms unfolding pool_accounts_def results_def by blast

lemma pool_accountsE:
  assumes "pool_accounts proc cfg js p"
  obtains fin lost where "mset js = mset (cbuf (plQueue p)) + mset (plBusy p) + mset fin + mset lost"
    "pmDropped (plMetrics p) = int (length lost)" "pmFrames (plMetrics p) = int (length (plPushed p))"
    "plPushed p = results proc fin"
    "length (cbuf (plQueue p)) \<le> ccap (plQueue p)" "ccap (plQueue p) = pcQueueSize cfg"
    "0 \<le> plIdle p" "plIdle p + int (length (plBusy p)) \<le> pool_workers cfg"
  using assms unfolding pool_accounts_def results_def by blast

lemma accounts_process:
  assumes "pool_accounts proc cfg js p" "pool_Process j d p = Some p'"
  shows "pool_accounts proc cfg (js @ [(j, d)]) p'"
proof -
  from assms(2) obtain r q where q: "Send (j, d) (plQueue p) = Some (r, q)"
    and p': "p' = p\<lparr>plQueue := q, plMetrics := (if Lost r then RecordDrop (plMetrics p) else plMetrics p)\<rparr>"
    by (auto simp: pool_Process_def split: option.splits)
  from assms(1) obtain fin lost where a: "mset js = mset (cbuf (plQueue p)) + mset (plBusy p) + mset fin + mset lost"
    "pmDropped (plMetrics p) = int (length lost)" "pmFrames (plMetrics p) = int (length (plPushed p))"
    "plPushed p = results proc fin"
    "length (cbuf (plQueue p)) \<le> ccap (plQueue p)" "ccap (plQueue p) = pcQueueSize cfg"
    "0 \<le> plIdle p" "plIdle p + int (length (plBusy p)) \<le> pool_workers cfg"
    by (rule pool_accountsE)
  note s = Send_mset [OF q a(5)]
  show ?thesis
  proof (cases "Lost r")
    case True
    with s obtain x where x: "mset (cbuf (plQueue p)) + {#(j, d)#} = mset (cbuf q) + {#x#}" by auto
    have "mset (js @ [(j, d)]) = mset (cbuf q) + mset (plBusy p) + mset fin + mset (x # lost)"
    proof -
      have "mset (js @ [(j, d)]) = mset (plBusy p) + mset fin + mset lost + (mset (cbuf (plQueue p)) + {#(j, d)#})"
        using a(1) by simp
      then show ?thesis unfolding x by simp
    qed
    with True s a show ?thesis by (intro pool_accountsI [of _ _ fin "x # lost"]) (simp_all add: p' RecordDrop_def)
  next
    case False
    with s have q: "cbuf q = cbuf (plQueue p) @ [(j, d)]" "ccap q = ccap (plQueue p)"
      "Suc (length (cbuf (plQueue p))) \<le> ccap (plQueue p)" by auto
    with a False show ?thesis by (intro pool_accountsI [of _ _ fin lost]) (simp_all add: p')
  qed
qed

lemma accounts_take:
  assumes "pool_accounts proc cfg js p"
  shows "pool_accounts proc cfg js (worker_take p)"
proof (cases "cbuf (plQueue p) = [] \<or> plIdle p \<le> 0")
  case True
  then have "worker_take p = p" by (auto simp: worker_take_def split: list.splits)
  with assms show ?thesis by simp
next
  case False
  then obtain j js' where j: "cbuf (plQueue p) = j # js'" "0 < plIdle p" by (auto simp: neq_Nil_conv)
  from assms show ?thesis
    by (rule pool_accountsE) (rule pool_accountsI, simp_all add: worker_take_def j)
qed

lemma accounts_finish:
  assumes "pool_accounts proc cfg js p"
  shows "pool_accounts proc cfg js (worker_finish proc i ts p)"
proof (cases "i < length (plBusy p)")
  case False
  with assms show ?thesis by (simp add: worker_finish_def)
next
  case True
  obtain jpeg d where jd: "plBusy p ! i = (jpeg, d)" by fastforce
  obtain t1 t2 t3 t4 where ts: "ts = (t1, t2, t3, t4)" by (cases ts) blast
  have split: "mset (plBusy p) = mset (take i (plBusy p) @ drop (Suc i) (plBusy p)) + {#(jpeg, d)#}"
    using arg_cong [OF id_take_nth_drop [OF True], of mset] jd by simp
  have len: "length (take i (plBusy p) @ drop (Suc i) (plBusy p)) + 1 = length (plBusy p)" using True by simp
  from assms obtain fin lost where a: "mset js = mset (cbuf (plQueue p)) + mset (plBusy p) + mset fin + mset lost"
    "pmDropped (plMetrics p) = int (length lost)" "pmFrames (plMetrics p) = int (length (plPushed p))"
    "plPushed p = results proc fin"
    "length (cbuf (plQueue p)) \<le> ccap (plQueue p)" "ccap (plQueue p) = pcQueueSize cfg"
    "0 \<le> plIdle p" "plIdle p + int (length (plBusy p)) \<le> pool_workers cfg"
    by (rule pool_accountsE)
  from True a split len show ?thesis
    by (intro pool_accountsI [of _ _ "fin @ [(jpeg, d)]" lost])
      (simp_all add: worker_finish_def jd ts Record_def Let_def split: option.split)
qed

lemma pool_reach_accounts: "pool_reach proc cfg js p \<Longrightarrow> pool_accounts proc cfg js p"
proof (induction rule: pool_reach.induct)
  case start
  show ?case by (rule pool_accountsI [of _ _ "[]" "[]"]) (simp_all add: pool_New_def pipe_init_def pool_workers_def)
next
  case (process js p j d p')
  then show ?case by (blast intro: accounts_process)
next
  case (take_job js p)
  then show ?case by (blast intro: accounts_take)
next
  case (finish js p i ts)
  then show ?case by (blast intro: accounts_finish)
next
  case (close js p p')
  from close.IH close.hyps(2) show ?case
    by (elim pool_accountsE) (rule pool_accountsI, auto simp: pool_close_def close_chan_def split: if_splits)
next
  case (exit_worker js p)
  from exit_worker.IH show ?case
    by (elim pool_accountsE) (rule pool_accountsI, auto simp: worker_exit_def)
qed

text \<open>C11: At any point of any run of the pool, with any number of workers in any interleaving, the frames
  submitted are exactly those queued, those being worked on, those finished and those the queue gave up, as many as
  the drop counter says; what was pushed is the result of each finished frame, to the destination it was submitted
  with, once and unchanged, and the frame counter counts the pushes.\<close>
theorem pool_conserves_frames:
  assumes "pool_reach proc cfg js p"
  shows "\<exists>fin lost. mset js = mset (cbuf (plQueue p)) + mset (plBusy p) + mset fin + mset lost \<and>
    pmDropped (plMetrics p) = int (length lost) \<and> pmFrames (plMetrics p) = int (length (plPushed p)) \<and>
    plPushed p = results proc fin \<and> length (cbuf (plQueue p)) \<le> pcQueueSize cfg \<and>
    int (length (plBusy p)) \<le> max 0 (pcWorkers cfg)"
  using pool_reach_accounts [OF assms] by (rule pool_accountsE) (auto simp: pool_workers_def)

definition demo_jobs :: "(bytes \<times> nat) list" where
  "demo_jobs = [([1], 7), ([2], 8), ([3], 9)]"

definition demo_pool :: "nat pool" where
  "demo_pool = \<lparr>plQueue = \<lparr>ccap = 2, cbuf = [([2], 8), ([3], 9)], cclosed = False\<rparr>, plBusy = [([1], 7)], plIdle = 0,
     plMetrics = pipe_init, plPushed = []\<rparr>"

lemma demo_pool_reach: "pool_reach Some demo_pool_cfg demo_jobs demo_pool"
proof -
  have "pool_reach Some demo_pool_cfg ([] @ [([1], 7)])
      (pool_New demo_pool_cfg\<lparr>plQueue := \<lparr>ccap = 2, cbuf = [([1], 7)], cclosed = False\<rparr>\<rparr>)"
    by (rule pool_reach.process [OF pool_reach.start])
      (simp add: pool_Process_def pool_New_def demo_pool_cfg_def make_chan_def Send_def Send_between_def try_send_def Lost_def)
  from pool_reach.take_job [OF this]
  have "pool_reach Some demo_pool_cfg [([1], 7)] (demo_pool\<lparr>plQueue := make_chan 2\<rparr>)"
    by (simp add: worker_take_def pool_New_def demo_pool_cfg_def make_chan_def demo_pool_def)
  then have "pool_reach Some demo_pool_cfg ([([1], 7)] @ [([2], 8)])
      (demo_pool\<lparr>plQueue := \<lparr>ccap = 2, cbuf = [([2], 8)], cclosed = False\<rparr>\<rparr>)"
    by (rule pool_reach.process) (simp add: pool_Process_def make_chan_def Send_def Send_between_def try_send_def Lost_def demo_pool_def)
  then have "pool_reach Some demo_pool_cfg (([([1], 7)] @ [([2], 8)]) @ [([3], 9)]) demo_pool"
    by (rule pool_reach.process) (simp add: pool_Process_def make_chan_def Send_def Send_between_def try_send_def Lost_def demo_pool_def)
  then show ?thesis by (simp add: demo_jobs_def)
qed

theorem pool_conserves_frames_witness:
  "\<exists>fin lost. mset demo_jobs = mset (cbuf (plQueue demo_pool)) + mset (plBusy demo_pool) + mset fin + mset lost \<and>
    pmDropped (plMetrics demo_pool) = int (length lost)"
  using pool_conserves_frames [OF demo_pool_reach] by blast

subsection \<open>Closing\<close>

definition worker_step :: "(bytes \<Rightarrow> bytes option) \<Rightarrow> 'd pool \<Rightarrow> 'd pool \<Rightarrow> bool" where
  "worker_step proc p p' \<longleftrightarrow>
     p' \<noteq> p \<and> (p' = worker_take p \<or> (\<exists>i ts. p' = worker_finish proc i ts p) \<or> p' = worker_exit p)"

definition drain_left :: "'d pool \<Rightarrow> nat" where
  "drain_left p = 3 * length (cbuf (plQueue p)) + 2 * length (plBusy p) + nat (plIdle p)"

lemma worker_finish_sel:
  "plQueue (worker_finish proc i ts p) = plQueue p"
  "plBusy (worker_finish proc i ts p) = take i (plBusy p) @ drop (Suc i) (plBusy p)"
  "plIdle (worker_finish proc i ts p) = (if i < length (plBusy p) then plIdle p + 1 else plIdle p)"
  by (cases ts, simp add: worker_finish_def Let_def split: option.split prod.split)+

text \<open>Workers leave only when nothing can come any more.\<close>

definition workers_stay :: "pool_config \<Rightarrow> 'd pool \<Rightarrow> bool" where
  "workers_stay cfg p \<longleftrightarrow> 0 \<le> plIdle p \<and>
     (plIdle p + int (length (plBusy p)) < pool_workers cfg \<longrightarrow> cclosed (plQueue p) \<and> cbuf (plQueue p) = [])"

lemma pool_reach_stay: "pool_reach proc cfg js p \<Longrightarrow> workers_stay cfg p"
proof (induction rule: pool_reach.induct)
  case start
  show ?case by (simp add: workers_stay_def pool_New_def pool_workers_def)
next
  case (process js p j d p')
  then have "\<not> cclosed (plQueue p)"
    by (auto simp: pool_Process_def Send_def Send_between_def try_send_def split: option.splits if_splits)
  with process show ?case by (auto simp: workers_stay_def pool_Process_def split: option.splits)
next
  case (take_job js p)
  then show ?case by (auto simp: workers_stay_def worker_take_def split: list.splits)
next
  case (finish js p i ts)
  then show ?case by (auto simp: workers_stay_def worker_finish_sel)
next
  case (close js p p')
  then show ?case by (auto simp: workers_stay_def pool_close_def close_chan_def split: if_splits)
next
  case (exit_worker js p)
  then show ?case by (auto simp: workers_stay_def worker_exit_def)
qed

lemma worker_step_reach: "worker_step proc p p' \<Longrightarrow> pool_reach proc cfg js p \<Longrightarrow> pool_reach proc cfg js p'"
  by (auto simp: worker_step_def intro: pool_reach.take_job pool_reach.finish pool_reach.exit_worker)

lemma worker_step_closed: "worker_step proc p p' \<Longrightarrow> cclosed (plQueue p') = cclosed (plQueue p)"
  by (auto simp: worker_step_def worker_take_def worker_finish_sel worker_exit_def split: list.splits if_splits)

lemma worker_step_less:
  assumes "worker_step proc p p'" "0 \<le> plIdle p"
  shows "drain_left p' < drain_left p"
proof -
  have t: "worker_take p = p \<or> drain_left (worker_take p) < drain_left p"
    using assms(2) by (auto simp: worker_take_def drain_left_def split: list.splits)
  have f: "worker_finish proc i ts p = p \<or> drain_left (worker_finish proc i ts p) < drain_left p" for i ts
  proof (cases "i < length (plBusy p)")
    case True
    then have "0 < length (plBusy p)" by linarith
    with True assms(2) show ?thesis by (auto simp: drain_left_def worker_finish_sel nat_add_distrib)
  next
    case False
    then show ?thesis by (simp add: worker_finish_def)
  qed
  have e: "worker_exit p = p \<or> drain_left (worker_exit p) < drain_left p"
    by (auto simp: worker_exit_def drain_left_def)
  from assms(1) t f e show ?thesis unfolding worker_step_def by metis
qed

lemma worker_step_enabled:
  assumes "workers_stay cfg p" "cclosed (plQueue p)" "\<not> close_returns p"
  shows "\<exists>p'. worker_step proc p p'"
proof (cases "plBusy p = []")
  case False
  then obtain j d b where b: "plBusy p = (j, d) # b" by (metis neq_Nil_conv surj_pair)
  have "plBusy (worker_finish proc 0 (0, 0, 0, 0) p) = b"
    using b by (simp add: worker_finish_sel)
  with b have "worker_finish proc 0 (0, 0, 0, 0) p \<noteq> p" by auto
  then show ?thesis unfolding worker_step_def by blast
next
  case True
  with assms have i: "0 < plIdle p" by (auto simp: workers_stay_def close_returns_def)
  show ?thesis
  proof (cases "cbuf (plQueue p)")
    case Nil
    with i assms(2) have "plIdle (worker_exit p) \<noteq> plIdle p" by (simp add: worker_exit_def)
    then have "worker_exit p \<noteq> p" by auto
    then show ?thesis unfolding worker_step_def by blast
  next
    case (Cons j js)
    with i have "plIdle (worker_take p) \<noteq> plIdle p" by (simp add: worker_take_def)
    then have "worker_take p \<noteq> p" by auto
    then show ?thesis unfolding worker_step_def by blast
  qed
qed

lemma worker_steps:
  assumes "(worker_step proc ^^ n) p p'" "pool_reach proc cfg js p"
  shows "pool_reach proc cfg js p' \<and> cclosed (plQueue p') = cclosed (plQueue p) \<and> n + drain_left p' \<le> drain_left p"
  using assms(1)
proof (induction n arbitrary: p')
  case 0
  with assms(2) show ?case by simp
next
  case (Suc n)
  from Suc.prems obtain q where q: "(worker_step proc ^^ n) p q" "worker_step proc q p'" by auto
  with Suc.IH have r: "pool_reach proc cfg js q" "cclosed (plQueue q) = cclosed (plQueue p)" "n + drain_left q \<le> drain_left p"
    by blast+
  moreover from pool_reach_stay [OF r(1)] have "0 \<le> plIdle q" by (simp add: workers_stay_def)
  ultimately show ?case
    using worker_step_reach [OF q(2) r(1)] worker_step_closed [OF q(2)] worker_step_less [OF q(2)] by fastforce
qed

text \<open>When Close has returned, everything is finished or counted.\<close>

lemma drained_accounts:
  assumes "pool_reach proc cfg js p" "0 < pcWorkers cfg" "close_returns p"
  shows "\<exists>fin lost. mset js = mset fin + mset lost \<and> plPushed p = results proc fin \<and> pmDropped (plMetrics p) = int (length lost)"
proof -
  have b: "plBusy p = []" "plIdle p = 0" using assms(3) by (simp_all add: close_returns_def)
  with pool_reach_stay [OF assms(1)] assms(2) have "cbuf (plQueue p) = []" by (simp add: workers_stay_def pool_workers_def)
  with b pool_reach_accounts [OF assms(1)] show ?thesis by (elim pool_accountsE) auto
qed

text \<open>C12: Once the queue is closed, every schedule of the workers ends: after at most three steps per queued frame,
  two per frame at work and one per idle worker, Close has returned, and as long as it has not, some worker can move.
  When it returns, a pool that has workers has emptied its queue, so every frame was finished or counted as
  dropped.\<close>
theorem close_drains_the_pool:
  assumes "pool_reach proc cfg js p" "cclosed (plQueue p)" "0 < pcWorkers cfg" "(worker_step proc ^^ n) p p'"
  shows "n + drain_left p' \<le> drain_left p \<and>
    (if close_returns p'
     then cbuf (plQueue p') = [] \<and> (\<exists>fin lost. mset js = mset fin + mset lost \<and>
       plPushed p' = results proc fin \<and> pmDropped (plMetrics p') = int (length lost))
     else \<exists>p''. worker_step proc p' p'')"
proof -
  note s = worker_steps [OF assms(4,1)]
  then have r: "pool_reach proc cfg js p'" and c: "cclosed (plQueue p')" using assms(2) by simp_all
  note st = pool_reach_stay [OF r]
  show ?thesis
  proof (cases "close_returns p'")
    case True
    have "cbuf (plQueue p') = []" using True st assms(3) by (simp add: close_returns_def workers_stay_def pool_workers_def)
    with drained_accounts [OF r assms(3) True] True s show ?thesis by simp
  next
    case False
    with s worker_step_enabled [OF st c] show ?thesis by simp
  qed
qed

lemma demo_closed_reach: "pool_reach Some demo_pool_cfg demo_jobs (demo_pool\<lparr>plQueue := (plQueue demo_pool)\<lparr>cclosed := True\<rparr>\<rparr>)"
  by (rule pool_reach.close [OF demo_pool_reach]) (simp add: pool_close_def close_chan_def demo_pool_def)

theorem close_drains_the_pool_witness:
  "\<exists>p''. worker_step Some (demo_pool\<lparr>plQueue := (plQueue demo_pool)\<lparr>cclosed := True\<rparr>\<rparr>) p''"
  using close_drains_the_pool [OF demo_closed_reach, of 0]
  by (simp add: demo_pool_cfg_def close_returns_def demo_pool_def)

text \<open>Two workers finish in the order they please: frames of one destination can come out in another order than
  they came in.\<close>

lemma workers_may_reorder:
  "\<exists>p. pool_reach Some (demo_pool_cfg\<lparr>pcWorkers := 2\<rparr>) [([1], 7), ([2], 7)] p \<and>
     plPushed p = [(7 :: nat, [2]), (7, [1])] \<and> pmDropped (plMetrics p) = 0"
proof -
  define c where "c = demo_pool_cfg\<lparr>pcWorkers := 2\<rparr>"
  have "pool_reach Some c ([] @ [([1], 7 :: nat)]) (pool_New c\<lparr>plQueue := \<lparr>ccap = 2, cbuf = [([1], 7)], cclosed = False\<rparr>\<rparr>)"
    by (rule pool_reach.process [OF pool_reach.start])
      (simp add: pool_Process_def pool_New_def c_def demo_pool_cfg_def make_chan_def Send_def Send_between_def try_send_def Lost_def)
  then have "pool_reach Some c (([] @ [([1], 7 :: nat)]) @ [([2], 7)])
      (pool_New c\<lparr>plQueue := \<lparr>ccap = 2, cbuf = [([1], 7), ([2], 7)], cclosed = False\<rparr>\<rparr>)"
    by (rule pool_reach.process)
      (simp add: pool_Process_def pool_New_def c_def demo_pool_cfg_def make_chan_def Send_def Send_between_def try_send_def Lost_def)
  from pool_reach.finish [OF pool_reach.finish [OF pool_reach.take_job [OF pool_reach.take_job [OF this]]],
      of 0 "(0, 0, 0, 0)" 0 "(0, 0, 0, 0)"]
  show ?thesis
    by (intro exI conjI) (assumption | simp add: c_def, simp_all add: worker_take_def worker_finish_def pool_New_def c_def demo_pool_cfg_def Record_def pipe_init_def)
qed

subsection \<open>The report\<close>

lemma report_loop_frames:
  "sum_list (map plFrames (report_loop ms prev)) = pmFrames (last (m # ms)) - fst prev" if "fst prev = pmFrames m"
  using that
proof (induction ms arbitrary: prev m)
  case (Cons m' ms)
  from Cons.IH [of "(pmFrames m', pmDropped m')" m'] Cons.prems show ?case
    by (simp add: report_tick_def Let_def)
qed simp

text \<open>The frame counts the reporter logs add up to the frames processed up to its last tick: every interval is
  reported once, the ones without frames not at all. Drops are not so lucky: those of an interval in which no frame
  was finished, as when the workers hang or nothing can be decoded, are never logged. An interval that is not
  positive panics at the start.\<close>
theorem report_adds_up:
  "(case RunReporter interval ms of
      None \<Rightarrow> interval \<le> 0
    | Some lines \<Rightarrow> 0 < interval \<and> sum_list (map plFrames lines) = pmFrames (last (pipe_init # ms)) \<and>
        0 \<notin> plFrames ` set lines) \<and>
   RunReporter (60 * second) [pipe_init\<lparr>pmDropped := 5\<rparr>, pipe_init\<lparr>pmFrames := 1, pmDropped := 5\<rparr>] =
     Some [\<lparr>plFrames = 1, plDropped = 0, plAvgTotal = pipe_avg 0 1\<rparr>]"
proof -
  have nz: "0 \<notin> plFrames ` set (report_loop ms prev)" for prev
    by (induction ms arbitrary: prev) (auto simp: report_tick_def Let_def)
  show ?thesis
    using report_loop_frames [of "(0, 0)" pipe_init ms] nz [of "(0, 0)"]
    by (simp add: RunReporter_def pipe_init_def report_tick_def Let_def second_def)
qed

end
