(* ===== verification/Proxy_Runs.thy ===== *)
theory Proxy_Runs
  imports Restream_Chain Service_Runs Upscaler Detector
begin

section \<open>The four proxies: settings and transforms\<close>

text \<open>
  What the \<open>Run\<close> functions of the restreamer, the upscaler, the enhancer and the detector hand to \<open>Serve\<close>: the
  service's settings and its transform, with what is used when a configuration file or the model is missing. The
  transforms are put into chains; the upscaler's, which pushes from its workers, is in \<open>Upscaler\<close>.
\<close>

subsection \<open>Settings\<close>

definition rest_service :: "env \<Rightarrow> service_config" where
  "rest_service e =
     \<lparr>svcHTTPAddr = env_String e ''HTTP_ADDR'' '':8090'', svcUpstreamAddr = env_String e ''UPSTREAM_TCP_ADDR'' ''localhost:9001'',
      svcTCPAddr = env_String e ''TCP_ADDR'' '':9002'', svcTCPEnabled = (env_String e ''TCP_ENABLED'' ''true'' \<noteq> ''false'')\<rparr>"

definition upscaler_service :: "upscaler_config \<Rightarrow> service_config" where
  "upscaler_service c =
     \<lparr>svcHTTPAddr = uc_httpAddr c, svcUpstreamAddr = uc_upstreamTCPAddr c, svcTCPAddr = uc_tcpAddr c, svcTCPEnabled = uc_tcpEnabled c\<rparr>"

text \<open>With an empty environment the services of one machine do not get in each other's way, and every proxy reads from
  camera-web-api.\<close>

lemma default_addresses:
  fixes numCPU :: int
  defines "proxies \<equiv> [rest_service (\<lambda>_. []), upscaler_service (upscaler_loadConfig numCPU (\<lambda>_. [])), enh_service (\<lambda>_. []), det_service (\<lambda>_. [])]"
  shows "distinct (wsHTTPAddr (web_settings_of (\<lambda>_. [])) # wsTCPAddr (web_settings_of (\<lambda>_. [])) #
      map svcHTTPAddr proxies @ map svcTCPAddr proxies)"
    and "list_all (\<lambda>c. svcUpstreamAddr c = ''localhost'' @ wsTCPAddr (web_settings_of (\<lambda>_. [])) \<and> svcTCPEnabled c) proxies"
  by (simp_all add: proxies_def rest_service_def upscaler_service_def upscaler_loadConfig_def enh_service_def det_service_def
      web_settings_of_def env_String_def Let_def normalizeListenAddr_def)

text \<open>The TCP server of a proxy, if it is enabled, and that of camera-web-api: 64 clients at most.\<close>

definition Serve_tcp :: "service_config \<Rightarrow> tcpserver option" where
  "Serve_tcp c = (if svcTCPEnabled c then Some (tcpserver_init maxTCPClients) else None)"

definition web_tcp :: "web_settings \<Rightarrow> tcpserver option" where
  "web_tcp ws = (if wsTCPEnabled ws then Some (tcpserver_init (int web_maxClients)) else None)"

lemma service_client_limit:
  assumes "Serve_tcp c = Some s0 \<or> web_tcp ws = Some s0" "srv_step\<^sup>*\<^sup>* s0 s"
  shows "length (serving s) \<le> 64"
proof -
  have s0: "s0 = tcpserver_init 64"
    using assms(1) by (auto simp: Serve_tcp_def web_tcp_def maxTCPClients_def web_maxClients_def split: if_splits)
  from assms(2) have "srv_reach 64 s"
    unfolding s0 by (induction rule: rtranclp_induct) (auto intro: srv_start srv_more)
  from srv_reach_inv [OF this] show ?thesis by (simp add: srv_inv_def)
qed

subsection \<open>The enhancer\<close>

definition enh_run ::
  "env \<Rightarrow> (bytes \<Rightarrow> camera_configs \<Rightarrow> camera_configs option) \<Rightarrow> (string \<Rightarrow> file_read) \<Rightarrow> 'i enh_lib \<Rightarrow>
     service_config \<times> int \<times> (sframe \<Rightarrow> enh_stats \<Rightarrow> bytes \<times> enh_stats)" where
  "enh_run e parse fs L =
     (let (cfgs, err) = enh_Load parse (fs (env_String e ''CONFIG_FILE'' ''config.json''))
      in (enh_service e, env_Seconds e ''STATS_INTERVAL_SEC'' (60 * second), enh_transform L cfgs))"

subsection \<open>The detector\<close>

text \<open>The frames' environment with the settings and the probed model; the service, the transform, the resources
  held while it serves, and those left once the context is cancelled.\<close>

definition det_frame_env :: "det_env \<Rightarrow> det_config \<Rightarrow> model_probe \<times> nat list option \<Rightarrow> det_env" where
  "det_frame_env E cfg x = E\<lparr>deConfig := cfg, deLayout := mpLayout (fst x), deAllowed := snd x\<rparr>"

definition det_run ::
  "env \<Rightarrow> (bytes \<Rightarrow> det_config \<Rightarrow> det_config option) \<Rightarrow> (string \<Rightarrow> file_read) \<Rightarrow> ort \<Rightarrow> det_env \<Rightarrow> ort_state \<Rightarrow>
     service_config \<times> (sframe \<Rightarrow> detector \<Rightarrow> bytes \<times> detector) \<times> ort_handle list \<times> ort_handle list" where
  "det_run e parse fs R E s =
     (let cfg = fst (det_Load e parse (fs (env_String e ''CONFIG_FILE'' ''config.json'')));
          (r, hs, s') = det_New R cfg s
      in (det_service e, det_transform (choose_processor (det_frame_env E cfg) r), hs,
          case r of Inl _ \<Rightarrow> hs | Inr _ \<Rightarrow> det_Destroy hs))"

subsection \<open>In a chain\<close>

text \<open>The enhancer's transform has no memory of other frames; without its configuration file it uses the defaults.\<close>

lemma enhancer_memoryless: "hpStep h = enh_transform L cfgs \<Longrightarrow> memoryless h"
  by (simp add: memoryless_def enh_transform_eq)

lemma enh_run_without_file:
  "fs (env_String e ''CONFIG_FILE'' ''config.json'') = Rotation.FileMissing \<Longrightarrow>
     snd (snd (enh_run e parse fs L)) = enh_transform L DefaultCameraConfigs"
  by (simp add: enh_run_def enh_Load_def)

text \<open>Whatever goes wrong in making the detector, the service is a restreamer then, and holds nothing native.\<close>

lemma det_run_without_model:
  assumes "fst (det_New R (fst (det_Load e parse (fs (env_String e ''CONFIG_FILE'' ''config.json'')))) s) = Inl err"
  shows "det_run e parse fs R E s = (det_service e, (\<lambda>f d. (passthrough f, d)), [], [])"
proof -
  let ?cfg = "fst (det_Load e parse (fs (env_String e ''CONFIG_FILE'' ''config.json'')))"
  obtain hs s' where n: "det_New R ?cfg s = (Inl err, hs, s')" using assms by (cases "det_New R ?cfg s") auto
  from detector_resources [where R = R and cfg = ?cfg and s = s] have "hs = []" by (simp add: n)
  moreover have "det_transform PassingThrough = (\<lambda>f d. (passthrough f, d))"
    by (intro ext) (simp add: det_transform_def proc_Process_def passthrough_def)
  ultimately show ?thesis by (simp add: det_run_def n Let_def choose_processor_def)
qed


lemma det_run_releases: "snd (snd (snd (det_run e parse fs R E s))) = []"
proof -
  let ?cfg = "fst (det_Load e parse (fs (env_String e ''CONFIG_FILE'' ''config.json'')))"
  obtain r hs s' where n: "det_New R ?cfg s = (r, hs, s')" by (cases "det_New R ?cfg s") auto
  from detector_resources [where R = R and cfg = ?cfg and s = s] show ?thesis
    by (cases r) (auto simp: det_run_def n Let_def split: prod.splits)
qed

end
