(* ===== verification/Proxy_Shutdown.thy ===== *)
theory Proxy_Shutdown
  imports Proxy_Runs
begin

section \<open>Shutting down the proxies with resources\<close>

text \<open>
  The upscaler and the detector own something that \<open>Serve\<close> does not: a pool of workers, and native memory. Their
  processes are composed here from the steps of \<open>Serve\<close> and those of the resource: the upscaler closes its pool when
  \<open>Serve\<close> has returned, the detector destroys its session when the context is cancelled.
\<close>

subsection \<open>The upscaler\<close>

record upscaler_life =
  ulServe :: serve_life
  ulPool :: "sframe pool option"
  ulProxy :: "proxy option"
  ulJobs :: "(bytes \<times> sframe) list"
  ulClosed :: bool

definition upscaler_start :: "pool_config \<Rightarrow> proxy \<Rightarrow> upscaler_life" where
  "upscaler_start cfg q =
     \<lparr>ulServe = serve_start, ulPool = Some (pool_New cfg), ulProxy = Some q, ulJobs = [], ulClosed = False\<rparr>"

text \<open>The transform hands its frame to the pool; a worker that finished a frame calls the push function of that
  frame. \<open>None\<close> for the pool or the proxy is a panic. \<open>Close\<close> is deferred, so it runs when \<open>Serve\<close> has returned, and
  once.\<close>

definition push_all :: "(sframe \<times> bytes) list \<Rightarrow> proxy option \<Rightarrow> proxy option" where
  "push_all ps q = fold (\<lambda>(f, out) q. Option.bind q (Serve_push f out)) ps q"

inductive upscaler_step :: "(bytes \<Rightarrow> bytes option) \<Rightarrow> upscaler_life \<Rightarrow> upscaler_life \<Rightarrow> bool"
  for proc :: "bytes \<Rightarrow> bytes option" where
  ul_serve: "serve_step (ulServe l) s \<Longrightarrow> upscaler_step proc l (l\<lparr>ulServe := s\<rparr>)"
| ul_process: "slInTransform (ulServe l) \<Longrightarrow> ulPool l = Some p \<Longrightarrow>
    upscaler_step proc l (l\<lparr>ulPool := pool_Process (fPayload f) f p, ulJobs := ulJobs l @ [(fPayload f, f)]\<rparr>)"
| ul_take: "ulPool l = Some p \<Longrightarrow> upscaler_step proc l (l\<lparr>ulPool := Some (worker_take p)\<rparr>)"
| ul_finish: "ulPool l = Some p \<Longrightarrow> p' = worker_finish proc i ts p \<Longrightarrow>
    upscaler_step proc l (l\<lparr>ulPool := Some p', ulProxy := push_all (drop (length (plPushed p)) (plPushed p')) (ulProxy l)\<rparr>)"
| ul_exit: "ulPool l = Some p \<Longrightarrow> upscaler_step proc l (l\<lparr>ulPool := Some (worker_exit p)\<rparr>)"
| ul_close: "serve_result (ulServe l) \<noteq> None \<Longrightarrow> \<not> ulClosed l \<Longrightarrow> ulPool l = Some p \<Longrightarrow>
    upscaler_step proc l (l\<lparr>ulPool := pool_close p, ulClosed := True\<rparr>)"

definition upscaler_reach :: "(bytes \<Rightarrow> bytes option) \<Rightarrow> pool_config \<Rightarrow> proxy \<Rightarrow> upscaler_life \<Rightarrow> bool" where
  "upscaler_reach proc cfg q = (upscaler_step proc)\<^sup>*\<^sup>* (upscaler_start cfg q)"

text \<open>The pool is open until \<open>Serve\<close> has returned, and the proxy is what the pushed frames made of it.\<close>

definition upscaler_inv :: "(bytes \<Rightarrow> bytes option) \<Rightarrow> pool_config \<Rightarrow> proxy \<Rightarrow> upscaler_life \<Rightarrow> bool" where
  "upscaler_inv proc cfg q l \<longleftrightarrow> serve_reach (ulServe l) \<and> (ulClosed l \<longrightarrow> \<not> slReading (ulServe l)) \<and>
     (\<exists>p q'. ulPool l = Some p \<and> pool_reach proc cfg (ulJobs l) p \<and> cclosed (plQueue p) = ulClosed l \<and>
        ulProxy l = Some q' \<and> proxy_ok q' \<and> push_all (plPushed p) (Some q) = Some q')"

lemma push_all_ok: "proxy_ok q \<Longrightarrow> \<exists>q'. push_all ps (Some q) = Some q' \<and> proxy_ok q'"
proof (induction ps arbitrary: q)
  case (Cons x ps)
  obtain f out where x: "x = (f, out)" by (cases x)
  from Serve_push_ok [OF Cons.prems, of f out] obtain q1 where "Serve_push f out q = Some q1" "proxy_ok q1" by blast
  with Cons.IH [of q1] x show ?case by (simp add: push_all_def)
qed (simp add: push_all_def)

lemma push_all_append: "push_all (a @ b) q = push_all b (push_all a q)"
  by (simp add: push_all_def)

lemma pool_Process_open:
  "\<not> cclosed (plQueue p) \<Longrightarrow> \<exists>p'. pool_Process j d p = Some p' \<and> cclosed (plQueue p') = cclosed (plQueue p) \<and> plPushed p' = plPushed p"
  by (auto simp: pool_Process_def Send_def Send_between_def try_send_def try_recv_def Let_def split: list.splits)

lemma worker_take_sel: "cclosed (plQueue (worker_take p)) = cclosed (plQueue p)" "plPushed (worker_take p) = plPushed p"
  by (auto simp: worker_take_def split: list.split)

lemma worker_exit_sel: "plQueue (worker_exit p) = plQueue p" "plPushed (worker_exit p) = plPushed p"
  by (simp_all add: worker_exit_def)

lemma worker_finish_pushed: "\<exists>ps. plPushed (worker_finish proc i ts p) = plPushed p @ ps"
  by (cases ts) (auto simp: worker_finish_def Let_def split: option.split prod.split)

lemma serve_step_reading: "serve_step s t \<Longrightarrow> \<not> slReading s \<Longrightarrow> \<not> slReading t"
  by (auto elim: serve_stepE)

lemma serve_reach_step: "serve_reach s \<Longrightarrow> serve_step s t \<Longrightarrow> serve_reach t"
  by (simp add: serve_reach_def)

lemma upscaler_inv_start: "proxy_ok q \<Longrightarrow> upscaler_inv proc cfg q (upscaler_start cfg q)"
  by (auto simp: upscaler_inv_def upscaler_start_def serve_reach_def pool_New_def push_all_def intro: pool_reach.start [unfolded pool_New_def])

lemma upscaler_inv_step:
  assumes "upscaler_step proc l l'" "upscaler_inv proc cfg q l"
  shows "upscaler_inv proc cfg q l'"
proof -
  from assms(2) obtain p q' where
    i: "serve_reach (ulServe l)" "ulClosed l \<longrightarrow> \<not> slReading (ulServe l)" "ulPool l = Some p"
      "pool_reach proc cfg (ulJobs l) p" "cclosed (plQueue p) = ulClosed l" "ulProxy l = Some q'" "proxy_ok q'"
      "push_all (plPushed p) (Some q) = Some q'"
    unfolding upscaler_inv_def by blast
  from assms(1) show ?thesis
  proof (cases rule: upscaler_step.cases)
    case (ul_serve s)
    then show ?thesis using i serve_reach_step serve_step_reading unfolding upscaler_inv_def by fastforce
  next
    case (ul_process p1 f)
    then have p: "p1 = p" "slInTransform (ulServe l)" using i(3) by simp_all
    with serve_inv [OF i(1)] have "slReading (ulServe l)" by blast
    with i(2,5) have "\<not> cclosed (plQueue p)" by blast
    from pool_Process_open [OF this, of "fPayload f" f] obtain p' where
      p': "pool_Process (fPayload f) f p = Some p'" "cclosed (plQueue p') = cclosed (plQueue p)" "plPushed p' = plPushed p" by blast
    from pool_reach.process [OF i(4) p'(1)] ul_process(1) p(1) p' i show ?thesis by (simp add: upscaler_inv_def)
  next
    case (ul_take p1)
    then show ?thesis using i pool_reach.take_job [OF i(4)] by (simp add: upscaler_inv_def worker_take_sel)
  next
    case (ul_finish p1 p2 k ts)
    then have p2: "p1 = p" "p2 = worker_finish proc k ts p" using i(3) by simp_all
    obtain ps where ps: "plPushed p2 = plPushed p @ ps" using worker_finish_pushed p2(2) by blast
    from push_all_ok [OF i(7), of ps] obtain q2 where q2: "push_all ps (Some q') = Some q2" "proxy_ok q2" by blast
    have "pool_reach proc cfg (ulJobs l) p2" unfolding p2(2) by (rule pool_reach.finish [OF i(4)])
    moreover have "cclosed (plQueue p2) = ulClosed l" unfolding p2(2) worker_finish_sel by (rule i(5))
    moreover have "push_all (plPushed p2) (Some q) = Some q2" by (simp add: ps push_all_append i(8) q2(1))
    ultimately show ?thesis using ul_finish(1) p2(1) ps q2 i by (simp add: upscaler_inv_def)
  next
    case (ul_exit p1)
    then show ?thesis using i pool_reach.exit_worker [OF i(4)] by (simp add: upscaler_inv_def worker_exit_sel)
  next
    case (ul_close p1)
    then have p: "p1 = p" "\<not> cclosed (plQueue p)" "\<not> slReading (ulServe l)"
      using i by (auto simp: serve_result_def split: http_server.splits if_splits)
    then obtain p' where p': "pool_close p = Some p'" "cclosed (plQueue p')" "plPushed p' = plPushed p"
      by (auto simp: pool_close_def close_chan_def)
    from pool_reach.close [OF i(4) p'(1)] ul_close(1) p p' i show ?thesis by (simp add: upscaler_inv_def)
  qed
qed

lemma upscaler_reach_inv: "upscaler_reach proc cfg q l \<Longrightarrow> proxy_ok q \<Longrightarrow> upscaler_inv proc cfg q l"
  unfolding upscaler_reach_def
  by (induction rule: rtranclp_induct) (auto intro: upscaler_inv_start upscaler_inv_step)


definition one_job :: sframe where
  "one_job = sample_frame\<lparr>fPayload := [7]\<rparr>"

definition one_worker :: pool_config where
  "one_worker = demo_pool_cfg\<lparr>pcWorkers := 1\<rparr>"

definition ended_pool :: "sframe pool" where
  "ended_pool = \<lparr>plQueue = \<lparr>ccap = 2, cbuf = [], cclosed = True\<rparr>, plBusy = [], plIdle = 0,
     plMetrics = Record 1 1 1 3 pipe_init, plPushed = [(one_job, [7])]\<rparr>"

definition ended_upscaler :: upscaler_life where
  "ended_upscaler = \<lparr>ulServe = \<lparr>slCancelled = True, slHttp = HttpEnded None, slReading = False, slInTransform = False\<rparr>,
     ulPool = Some ended_pool, ulProxy = push_all [(one_job, [7])] (Some (Serve_init int)), ulJobs = [([7], one_job)], ulClosed = True\<rparr>"

lemma upscaler_reach_step: "upscaler_reach proc cfg q l \<Longrightarrow> upscaler_step proc l l' \<Longrightarrow> upscaler_reach proc cfg q l'"
  by (simp add: upscaler_reach_def)

lemma ended_upscaler_reach: "upscaler_reach Some one_worker (Serve_init int) ended_upscaler"
proof -
  let ?R = "upscaler_reach Some one_worker (Serve_init int)"
  let ?S = "\<lambda>c h r t. \<lparr>slCancelled = c, slHttp = h, slReading = r, slInTransform = t\<rparr>"
  let ?Q = "\<lambda>js c. \<lparr>ccap = 2, cbuf = js, cclosed = c\<rparr> :: (bytes \<times> sframe) chan"
  let ?P = "\<lambda>q b n m ps. \<lparr>plQueue = q, plBusy = b, plIdle = n, plMetrics = m, plPushed = ps\<rparr>"
  let ?j = "([7], one_job)" and ?m = "Record 1 1 1 3 pipe_init"
  let ?L = "\<lambda>s p x js c. \<lparr>ulServe = s, ulPool = Some p, ulProxy = push_all x (Some (Serve_init int)), ulJobs = js, ulClosed = c\<rparr>"
  let ?x = "[(one_job, [7])]"
  have 0: "?R (?L (?S False HttpServing True False) (?P (?Q [] False) [] 1 pipe_init []) [] [] False)"
    by (simp add: upscaler_reach_def upscaler_start_def serve_start_def pool_New_def one_worker_def demo_pool_cfg_def make_chan_def push_all_def)
  have 1: "?R (?L (?S False HttpServing True True) (?P (?Q [] False) [] 1 pipe_init []) [] [] False)"
    using upscaler_reach_step [OF 0 ul_serve [OF frame_in]] by simp
  have 2: "?R (?L (?S False HttpServing True True) (?P (?Q [?j] False) [] 1 pipe_init []) [] [?j] False)"
    using upscaler_reach_step [OF 1 ul_process [where f = one_job]]
    by (simp add: pool_Process_def Send_def Send_between_def try_send_def Lost_def one_job_def)
  have 3: "?R (?L (?S False HttpServing True False) (?P (?Q [?j] False) [] 1 pipe_init []) [] [?j] False)"
    using upscaler_reach_step [OF 2 ul_serve [OF frame_out]] by simp
  have 4: "?R (?L (?S True HttpServing True False) (?P (?Q [?j] False) [] 1 pipe_init []) [] [?j] False)"
    using upscaler_reach_step [OF 3 ul_serve [OF ctx_cancel]] by simp
  have 5: "?R (?L (?S True HttpServing False False) (?P (?Q [?j] False) [] 1 pipe_init []) [] [?j] False)"
    using upscaler_reach_step [OF 4 ul_serve [OF reader_stops]] by simp
  have 6: "?R (?L (?S True (HttpEnded None) False False) (?P (?Q [?j] False) [] 1 pipe_init []) [] [?j] False)"
    using upscaler_reach_step [OF 5 ul_serve [OF http_shutdown]] by simp
  have 7: "?R (?L (?S True (HttpEnded None) False False) (?P (?Q [?j] True) [] 1 pipe_init []) [] [?j] True)"
    using upscaler_reach_step [OF 6 ul_close] by (simp add: serve_result_def pool_close_def close_chan_def)
  have 8: "?R (?L (?S True (HttpEnded None) False False) (?P (?Q [] True) [?j] 0 pipe_init []) [] [?j] True)"
    using upscaler_reach_step [OF 7 ul_take] by (simp add: worker_take_def)
  have 9: "?R (?L (?S True (HttpEnded None) False False) (?P (?Q [] True) [] 1 ?m ?x) ?x [?j] True)"
    using upscaler_reach_step [OF 8 ul_finish [OF _ refl, where i = 0 and ts = "(1, 1, 1, 3)"]]
    by (simp add: worker_finish_def push_all_def)
  show ?thesis using upscaler_reach_step [OF 9 ul_exit]
    by (simp add: ended_upscaler_def ended_pool_def worker_exit_def)
qed


subsection \<open>The detector\<close>

text \<open>The session and the tensors are destroyed by a goroutine that waits for the cancellation only.\<close>

record detector_life =
  dlServe :: serve_life
  dlDestroyed :: bool

inductive detector_step :: "detector_life \<Rightarrow> detector_life \<Rightarrow> bool" where
  dl_serve: "serve_step (dlServe l) s \<Longrightarrow> detector_step l (l\<lparr>dlServe := s\<rparr>)"
| dl_destroy: "slCancelled (dlServe l) \<Longrightarrow> \<not> dlDestroyed l \<Longrightarrow> detector_step l (l\<lparr>dlDestroyed := True\<rparr>)"

definition detector_start :: detector_life where
  "detector_start = \<lparr>dlServe = serve_start, dlDestroyed = False\<rparr>"

lemma detector_destroyed_in_use:
  "detector_step\<^sup>*\<^sup>* detector_start
     \<lparr>dlServe = \<lparr>slCancelled = True, slHttp = HttpServing, slReading = True, slInTransform = True\<rparr>, dlDestroyed = True\<rparr>"
proof -
  let ?s = "serve_start\<lparr>slInTransform := True\<rparr>"
  have "detector_step detector_start (detector_start\<lparr>dlServe := ?s\<rparr>)"
    by (rule dl_serve) (use frame_in [of serve_start] in \<open>simp add: detector_start_def serve_start_def\<close>)
  moreover have "detector_step (detector_start\<lparr>dlServe := ?s\<rparr>) (detector_start\<lparr>dlServe := ?s\<lparr>slCancelled := True\<rparr>\<rparr>)"
    using dl_serve [of "detector_start\<lparr>dlServe := ?s\<rparr>", OF ctx_cancel] by simp
  moreover have "detector_step (detector_start\<lparr>dlServe := ?s\<lparr>slCancelled := True\<rparr>\<rparr>)
      \<lparr>dlServe = \<lparr>slCancelled = True, slHttp = HttpServing, slReading = True, slInTransform = True\<rparr>, dlDestroyed = True\<rparr>"
    using dl_destroy [of "detector_start\<lparr>dlServe := ?s\<lparr>slCancelled := True\<rparr>\<rparr>"] by (simp add: detector_start_def serve_start_def)
  ultimately show ?thesis by (meson converse_rtranclp_into_rtranclp rtranclp.rtrancl_refl)
qed

end
