(* ===== verification/Encode_Buffer.thy ===== *)
theory Encode_Buffer
  imports Prelude
begin

section \<open>Buffers that are used again (shared/imageutil/jpeg.go, the pools of the services)\<close>

text \<open>
  Every service that changes a frame encodes it into a buffer that the next frame uses again, from a \<open>sync.Pool\<close> or
  the worker's own, and hands out a copy. The model has a memory of byte slices, where a buffer and a returned slice
  are places; goroutines that hold different buffers interleave between any two operations. What is returned must not
  change afterwards: frames that wait in a client's channel still refer to it.
\<close>

subsection \<open>Memory and operations\<close>

record enc_mem =
  mem :: "nat \<Rightarrow> bytes"
  brk :: nat
  bufPool :: "nat list"
  held :: "nat list"
  slices :: "nat list"
  ret :: "nat \<Rightarrow> nat option"

definition buf_start :: enc_mem where
  "buf_start = \<lparr>mem = (\<lambda>_. []), brk = 0, bufPool = [], held = [], slices = [], ret = (\<lambda>_. None)\<rparr>"

text \<open>\<open>BufNew\<close> is a pool's \<open>New\<close>, or a worker's variable; a pool may drop what it keeps at any time. \<open>BufCopy\<close> is
  \<open>make\<close> and \<open>copy\<close>, and remembers what it returned.\<close>

datatype buf_op = BufNew | BufGet nat | BufDrop nat | BufPut nat | BufReset nat | BufWrite nat bytes | BufCopy nat

fun buf_exec :: "buf_op \<Rightarrow> enc_mem \<Rightarrow> enc_mem option" where
  "buf_exec BufNew s = Some (s\<lparr>mem := (mem s)(brk s := []), brk := Suc (brk s), held := brk s # held s\<rparr>)"
| "buf_exec (BufGet b) s =
     (if b \<in> set (bufPool s) then Some (s\<lparr>bufPool := remove1 b (bufPool s), held := b # held s\<rparr>) else None)"
| "buf_exec (BufDrop b) s =
     (if b \<in> set (bufPool s) then Some (s\<lparr>bufPool := remove1 b (bufPool s)\<rparr>) else None)"
| "buf_exec (BufPut b) s =
     (if b \<in> set (held s) then Some (s\<lparr>bufPool := b # bufPool s, held := remove1 b (held s)\<rparr>) else None)"
| "buf_exec (BufReset b) s = (if b \<in> set (held s) then Some (s\<lparr>mem := (mem s)(b := [])\<rparr>) else None)"
| "buf_exec (BufWrite b w) s = (if b \<in> set (held s) then Some (s\<lparr>mem := (mem s)(b := mem s b @ w)\<rparr>) else None)"
| "buf_exec (BufCopy b) s =
     (if b \<in> set (held s)
      then Some (s\<lparr>mem := (mem s)(brk s := mem s b), brk := Suc (brk s), slices := brk s # slices s,
                   ret := (ret s)(b := Some (brk s))\<rparr>)
      else None)"

fun buf_run :: "buf_op list \<Rightarrow> enc_mem \<Rightarrow> enc_mem option" where
  "buf_run [] s = Some s"
| "buf_run (x # xs) s = Option.bind (buf_exec x s) (buf_run xs)"

text \<open>What \<open>EncodeJPEG\<close> does with its buffer, when the encoder writes \<open>ws\<close> and then returns.\<close>

definition EncodeJPEG :: "nat \<Rightarrow> bytes list \<Rightarrow> bool \<Rightarrow> buf_op list" where
  "EncodeJPEG b ws ok = BufReset b # map (BufWrite b) ws @ (if ok then [BufCopy b] else [])"

fun touches :: "nat \<Rightarrow> buf_op \<Rightarrow> bool" where
  "touches b BufNew = False"
| "touches b (BufGet c) = (b = c)"
| "touches b (BufDrop c) = (b = c)"
| "touches b (BufPut c) = (b = c)"
| "touches b (BufReset c) = (b = c)"
| "touches b (BufWrite c w) = (b = c)"
| "touches b (BufCopy c) = (b = c)"

subsection \<open>Separation\<close>

definition buf_inv :: "enc_mem \<Rightarrow> bool" where
  "buf_inv s \<longleftrightarrow> distinct (held s @ bufPool s @ slices s) \<and> (\<forall>a \<in> set (held s @ bufPool s @ slices s). a < brk s) \<and>
     (\<forall>b a. ret s b = Some a \<longrightarrow> a \<in> set (slices s))"

lemma buf_inv_start: "buf_inv buf_start"
  by (simp add: buf_inv_def buf_start_def)

lemma buf_inv_exec: "buf_inv s \<Longrightarrow> buf_exec x s = Some t \<Longrightarrow> buf_inv t"
  by (cases x) (auto simp: buf_inv_def less_Suc_eq split: if_splits dest: notin_set_remove1)

lemma slice_stays: "buf_inv s \<Longrightarrow> buf_exec x s = Some t \<Longrightarrow> a \<in> set (slices s) \<Longrightarrow> mem t a = mem s a \<and> a \<in> set (slices t)"
  by (cases x) (auto simp: buf_inv_def split: if_splits)

lemma buf_run_stays:
  "buf_run xs s = Some t \<Longrightarrow> buf_inv s \<Longrightarrow> buf_inv t \<and> (\<forall>a \<in> set (slices s). mem t a = mem s a \<and> a \<in> set (slices t))"
proof (induction xs arbitrary: s)
  case (Cons x xs)
  then obtain s1 where s1: "buf_exec x s = Some s1" "buf_run xs s1 = Some t" by (auto split: bind_splits)
  note i = buf_inv_exec [OF Cons.prems(2) s1(1)]
  from Cons.IH [OF s1(2) i] slice_stays [OF Cons.prems(2) s1(1)] show ?case by simp
qed simp

text \<open>A buffer that is held changes only by its holder's operations, whoever else runs in between: its contents, and
  what was returned from it, as those operations alone make them.\<close>

fun buf_alone :: "buf_op \<Rightarrow> bytes \<times> bytes option \<Rightarrow> bytes \<times> bytes option" where
  "buf_alone (BufReset b) (c, r) = ([], r)"
| "buf_alone (BufWrite b w) (c, r) = (c @ w, r)"
| "buf_alone (BufCopy b) (c, r) = (c, Some c)"
| "buf_alone _ cr = cr"

definition buf_view :: "nat \<Rightarrow> enc_mem \<Rightarrow> bytes \<times> bytes option" where
  "buf_view b s = (mem s b, map_option (mem s) (ret s b))"

fun in_use :: "buf_op \<Rightarrow> bool" where
  "in_use (BufReset b) = True"
| "in_use (BufWrite b w) = True"
| "in_use (BufCopy b) = True"
| "in_use _ = False"

lemma buf_exec_other:
  assumes "buf_inv s" "buf_exec x s = Some t" "b \<in> set (held s)" "\<not> touches b x"
  shows "b \<in> set (held t) \<and> buf_view b t = buf_view b s"
proof -
  have m: "mem t b = mem s b" "ret t b = ret s b" "b \<in> set (held t)"
    using assms by (cases x; auto simp: buf_inv_def split: if_splits)+
  have "map_option (mem t) (ret s b) = map_option (mem s) (ret s b)"
    using slice_stays [OF assms(1,2)] assms(1) by (cases "ret s b") (auto simp: buf_inv_def)
  with m show ?thesis by (simp add: buf_view_def)
qed

lemma buf_exec_own:
  assumes "buf_inv s" "buf_exec x s = Some t" "b \<in> set (held s)" "touches b x" "in_use x"
  shows "b \<in> set (held t) \<and> buf_view b t = buf_alone x (buf_view b s)"
proof -
  from assms(1,3) have d: "b < brk s" "b \<notin> set (slices s)" by (auto simp: buf_inv_def)
  have r: "ret s b = Some a \<Longrightarrow> a \<noteq> b" for a using assms(1) d(2) by (auto simp: buf_inv_def)
  show ?thesis using assms(2-5) d r by (cases x; cases "ret s b") (auto simp: buf_view_def)
qed

lemma buf_run_view:
  "buf_run xs s = Some t \<Longrightarrow> buf_inv s \<Longrightarrow> b \<in> set (held s) \<Longrightarrow> list_all in_use (filter (touches b) xs) \<Longrightarrow>
     buf_view b t = fold buf_alone (filter (touches b) xs) (buf_view b s)"
proof (induction xs arbitrary: s)
  case (Cons x xs)
  then obtain s1 where s1: "buf_exec x s = Some s1" "buf_run xs s1 = Some t" by (auto split: bind_splits)
  note i = buf_inv_exec [OF Cons.prems(2) s1(1)]
  show ?case
  proof (cases "touches b x")
    case True
    with Cons.prems(4) have u: "in_use x" "list_all in_use (filter (touches b) xs)" by simp_all
    from buf_exec_own [OF Cons.prems(2) s1(1) Cons.prems(3) True u(1)] Cons.IH [OF s1(2) i _ u(2)] True show ?thesis by simp
  next
    case False
    from buf_exec_other [OF Cons.prems(2) s1(1) Cons.prems(3) False] Cons.IH [OF s1(2) i] Cons.prems(4) False show ?thesis by simp
  qed
qed simp

lemma EncodeJPEG_alone: "fold buf_alone (EncodeJPEG b ws True) cr = (concat ws, Some (concat ws))"
proof -
  have w: "fold buf_alone (map (BufWrite b) ws) (c, r) = (c @ concat ws, r)" for c r
    by (induction ws arbitrary: c) simp_all
  show ?thesis by (cases cr) (simp add: EncodeJPEG_def w)
qed

lemma EncodeJPEG_in_use: "list_all in_use (EncodeJPEG b ws ok)"
  by (auto simp: EncodeJPEG_def list_all_iff)

subsection \<open>Properties\<close>

text \<open>C16: The slice that \<open>EncodeJPEG\<close> returns holds what the encoder wrote for this frame, and holds it for ever: other
  goroutines may work on other buffers between any two of its operations, and afterwards the buffer may go back to
  the pool, be taken by another goroutine and be overwritten.\<close>
theorem encoded_frame_stays:
  assumes "buf_run before buf_start = Some s" "b \<in> set (held s)"
    and "buf_run during s = Some t" "filter (touches b) during = EncodeJPEG b ws True"
    and "buf_run after t = Some u"
  shows "\<exists>a. ret t b = Some a \<and> mem t a = concat ws \<and> mem u a = concat ws \<and> a \<notin> set (held u) \<and> a \<notin> set (bufPool u)"
proof -
  have i: "buf_inv s" using buf_run_stays [OF assms(1) buf_inv_start] by blast
  from buf_run_stays [OF assms(3) i] have t: "buf_inv t" by blast
  have "buf_view b t = (concat ws, Some (concat ws))"
    using buf_run_view [OF assms(3) i assms(2)] by (simp add: assms(4) EncodeJPEG_in_use EncodeJPEG_alone)
  then obtain a where a: "ret t b = Some a" "mem t a = concat ws" by (auto simp: buf_view_def)
  with t have "a \<in> set (slices t)" by (simp add: buf_inv_def)
  with buf_run_stays [OF assms(5) t] have "buf_inv u" "mem u a = mem t a" "a \<in> set (slices u)" by blast+
  with a show ?thesis by (auto simp: buf_inv_def)
qed

theorem encoded_frame_stays_witness:
  "\<exists>t u a. buf_run [BufReset 0, BufReset 1, BufWrite 0 [1], BufWrite 1 [9], BufWrite 0 [2], BufCopy 0]
      (the (buf_run [BufNew, BufNew] buf_start)) = Some t \<and>
    buf_run [BufPut 0, BufGet 0, BufReset 0, BufWrite 0 [7, 7, 7]] t = Some u \<and> ret t 0 = Some a \<and> mem u a = [1, 2] \<and> mem u 0 = [7, 7, 7]"
proof -
  have "filter (touches 0) [BufReset 0, BufReset 1, BufWrite 0 [1], BufWrite 1 [9], BufWrite 0 [2], BufCopy 0] = EncodeJPEG 0 [[1], [2]] True"
    by (simp add: EncodeJPEG_def)
  from encoded_frame_stays [OF _ _ _ this, of "[BufNew, BufNew]" "the (buf_run [BufNew, BufNew] buf_start)" _
      "[BufPut 0, BufGet 0, BufReset 0, BufWrite 0 [7, 7, 7]]"]
  show ?thesis by (simp add: buf_start_def)
qed

end
