(* ===== verification/Spec2Isabelle.thy ===== *)
theory Spec2Isabelle
  imports Backend_Server Publisher_Life Camera_To_Viewer Camera_To_Recorder Recorder_Api Streamer Recorder_Video Detect_Image Proxy_Shutdown Encode_Buffer
begin

text \<open>
  The instachron camera services, in Isabelle/HOL.

  \<^bold>\<open>The program.\<close> Cameras send JPEG frames over TCP to \<open>tcp-camera-backend\<close>, which publishes them on a Unix
  socket. \<open>camera-web-api\<close> rotates them, shows them over HTTP and republishes them over TCP in the restream
  protocol; the restreamer, enhancer, upscaler and detector are proxies of that protocol (\<open>livefeed.Serve\<close>), and can
  be chained. \<open>ffmpeg-streamer\<close> reads the Unix socket and feeds a live stream, \<open>camera-recorder\<close> reads the restream
  protocol and writes time-lapse segments. Frames are dropped, never queued without bound, wherever a receiver
  is slow.

  \<^bold>\<open>Shared parts (src/shared).\<close>
  \<^item> \<open>Prelude\<close>, \<open>Decimal\<close>, \<open>Go_Float\<close>: 64-bit integers, byte order, readers and writers that may break; strconv; float32
    and float64 as rounded rationals. \<open>Envconf\<close>: the settings, with time.ParseDuration.
  \<^item> \<open>Codec\<close>: the interface of a framed protocol (locales \<open>codec\<close>, \<open>message_loop\<close>), interpreted for the restream protocol
    in \<open>Stream_Proto\<close> and \<open>Stream_Tcp\<close>, for the Unix socket in \<open>Frame_Ipc\<close> and for the cameras in \<open>Device_Proto\<close> and
    \<open>Backend_Server\<close>. Its lemmas say what a reader sees of a stream that is cut at any byte.
  \<^item> \<open>Dropchan\<close>: buffered channels and the drop-oldest send, with what other goroutines do between its selects.
    \<open>Fanout\<close>: publishing to subscribers under a mutex for any queueing policy (locale \<open>queue_policy\<close>), and the step
    relation of its interleavings; interpreted for both policies of the code.
  \<^item> \<open>Livefeed_Hub\<close>, \<open>Livefeed_Registry\<close>, \<open>Livefeed_Http\<close>: broadcaster, hub, registry, the HTTP handlers and MJPEG. The
    registry refines a map from camera to its last frame and state.
  \<^item> \<open>Proxy_Service\<close>: the callbacks of \<open>Serve\<close>, and the life of a proxy process as a step relation. \<open>Frame_Stage\<close>: proxies
    with a transform that keeps state (locale \<open>frame_stage\<close>), interpreted in \<open>Enhancer\<close> and \<open>Detector\<close>.
    \<open>Republish\<close>: a source of frames and one of its TCP clients (locale \<open>republisher\<close>), interpreted for a proxy and for
    camera-web-api. \<open>Restream_Chain\<close>: any number of proxies one behind the other, with the turns their clients get and
    connections that break.
  \<^item> \<open>Encode_Buffer\<close>: the buffers of \<open>EncodeJPEG\<close> and of the pools, as a memory with places that goroutines share.

  \<^bold>\<open>Services (src/services).\<close>
  \<^item> \<open>Backend_Publisher\<close>, \<open>Backend_Server\<close>: the publisher (locale \<open>camera_publisher\<close>), connections, statistics, the accept
    loop with its backoff, and shutdown as a step relation. \<open>Publisher_Life\<close>: the publisher's goroutines as steps that
    refine its operations, and when \<open>Listen\<close> returns.
  \<^item> \<open>Rotation\<close>, \<open>Web_Api\<close>: angles, their file and the pixel loops; the callbacks of camera-web-api.
    \<open>Camera_To_Viewer\<close>: both services and the socket between them, composed. \<open>Camera_To_Recorder\<close>: camera-web-api, a
    chain of proxies and the recorder's reader, composed.
  \<^item> \<open>Recorder_Store\<close> (locale \<open>segment_store\<close>, the promise the recorder relies on), \<open>Recorder_Camera\<close>, \<open>Recorder_Loop\<close>,
    \<open>Recorder_Config\<close>, \<open>Recorder_Api\<close>: segments on disk with the faults of every system call, decimation and
    rotation of segments, the loop of one camera and the sessions of all, configuration, HTTP and metrics.
    \<open>Recorder_Encoder\<close>: the ffmpeg child behind a segment, its two pipes and the goroutine that copies, as steps; what
    the child writes for what it reads is an argument. \<open>Recorder_Video\<close>: loop, encoder and store composed.
  \<^item> \<open>Compose\<close>, \<open>Streamer\<close>: the merged canvas; the frame cache, the feeds and the ffmpeg sessions.
  \<^item> \<open>Upscaler\<close>: passes, worker pool (a step relation), counters and report.
  \<^item> \<open>Enhancer\<close>: dark correction in its floating point, filters, counters, the stage.
  \<^item> \<open>Detect_Boxes\<close>, \<open>Detect_Tensor\<close>, \<open>Detect_Draw\<close>, \<open>Detector\<close>: the tensor, decoding and suppression in single precision
    (locale \<open>score_sort\<close> for what sort.Slice promises), drawing, start-up with its native resources, and the frames.
    \<open>Detect_Image\<close>: the one-shot tool over a map of files.
  \<^item> \<open>Service_Runs\<close>, \<open>Proxy_Runs\<close>: the \<open>Run\<close> functions: settings, what can fail at the start, what is connected to
    what, and what still runs at the end. \<open>Proxy_Shutdown\<close>: the upscaler's pool and the detector's native memory beside
    \<open>Serve\<close>, as steps: when each is released.

  \<^bold>\<open>What the lemmas show.\<close> Round trips of every protocol, and soundness of its readers on any bytes; what each hop
  publishes of a stream that is cut off anywhere, in order and under the same camera, time and number; that
  publishing never blocks and never sends on a closed channel, in any interleaving; that the registry, the web API
  and the merged feed show the last frame and go offline as their abstract counterparts do; that a camera's
  recording leaves no temporary file, accounts for every frame and keeps the newest segments; that the pool loses no
  frame it does not count and that closing it ends; that suppression keeps the best boxes, that detections and
  drawings stay inside the frame; that the floating point of scaling and correction stays within its limits.
  Across services: what a viewer is shown of what a camera sent, what the end of a chain of proxies gets of what went
  in, which pictures of a camera stand in the recorder's queue and under which numbers, and that a recorded segment can be
  downloaded byte for byte as its encoder wrote it. Returned frames never change when their buffers are used again. Where
  the code does otherwise than it says, the theorem states what it does.

  \<^bold>\<open>Bounds and fuel.\<close> \<open>advance\<close> of the recorder may not end and is a partial function whose result None is that;
  \<open>duration_loop\<close> is given one unit of fuel per character, each part taking at least one; halving a 64-bit scale
  takes at most 64 rounds; \<open>fl32\<close> and \<open>fl64\<close> round to 24 and 53 bits with unbounded exponents, so infinities, NaN and
  underflow are not represented.

  \<^bold>\<open>Arguments of the model.\<close> The JPEG codecs, the resampling, blurring and filter libraries, ONNX Runtime, the font
  library, the JSON parser, the RFC 3339 parser, the clock, the network's events and the faults of the file system;
  what is assumed of them is a hypothesis of the theorem that needs it, or a locale.

  \<^bold>\<open>Not modelled.\<close> Logging, but for the statistics that keep counters; net/http itself; what ffmpeg computes; signals and
  the \<open>main\<close> functions that only call \<open>Run\<close>; the web page. Declarations and constructors that only
  name or store their arguments (interfaces, the readers and writers around a connection) have no definition of their own. Of the \<open>Run\<close> functions the goroutines that only log another's
  error. Sends and receives of other goroutines are interleaved at channel operations and lock acquisitions, not at
  single memory accesses.
\<close>

end
